(* ===== verification/Raft_Prelude.thy ===== *)
theory Raft_Prelude
  imports Main "HOL-Library.Word" "HOL-Library.Monad_Syntax" "HOL-Library.AList"
begin

text \<open>
  What every component of the development shares: Rust's unsigned integers as machine words,
  the arithmetic of the two build profiles of \<^verbatim>\<open>Cargo.toml\<close>, panics and
  \<^verbatim>\<open>Result\<close> values, and the generic lemmas on words, lists and association
  lists that the component proofs rest on.

  \<^item> A computation that may panic has type \<open>'a option\<close>: \<open>None\<close> is the panic,
    \<open>Some x\<close> is a normal return of \<open>x\<close>. Sequencing is the option monad.
  \<^item> A \<^verbatim>\<open>Result<T, RaftError>\<close> is a sum \<open>'e + 'a\<close>: \<open>Inl\<close> is
    \<^verbatim>\<open>Err\<close>, \<open>Inr\<close> is \<^verbatim>\<open>Ok\<close>.
  \<^item> \<^verbatim>\<open>a + b\<close> and \<^verbatim>\<open>a - b\<close> on \<^verbatim>\<open>u64\<close>
    panic on overflow in the dev profile and wrap around in the release profile
    (\<^verbatim>\<open>[profile.release]\<close> leaves \<^verbatim>\<open>overflow-checks\<close> off). The
    profile is an argument of the model, so that both builds are covered.
\<close>

subsection \<open>Types\<close>

type_synonym u8 = "8 word"
type_synonym u64 = "64 word"

datatype profile = Debug | Release

text \<open>A normal return and a panic, as they are written in the definitions.\<close>

abbreviation (input) ret :: "'a \<Rightarrow> 'a option" where
  "ret \<equiv> Some"

abbreviation (input) panic :: "'a option" where
  "panic \<equiv> None"

subsection \<open>Arithmetic on u64\<close>

definition u64_add :: "profile \<Rightarrow> u64 \<Rightarrow> u64 \<Rightarrow> u64 option" where
  "u64_add p a b = (if uint a + uint b < 2 ^ 64 \<or> p = Release then ret (a + b) else panic)"

definition u64_sub :: "profile \<Rightarrow> u64 \<Rightarrow> u64 \<Rightarrow> u64 option" where
  "u64_sub p a b = (if b \<le> a \<or> p = Release then ret (a - b) else panic)"

definition u64_mul :: "profile \<Rightarrow> u64 \<Rightarrow> u64 \<Rightarrow> u64 option" where
  "u64_mul p a b = (if uint a * uint b < 2 ^ 64 \<or> p = Release then ret (a * b) else panic)"

definition saturating_sub :: "u64 \<Rightarrow> u64 \<Rightarrow> u64" where
  "saturating_sub a b = (if a < b then 0 else a - b)"

subsection \<open>Result values\<close>

definition unwrap_or :: "'e + 'a \<Rightarrow> 'a \<Rightarrow> 'a" where
  "unwrap_or r d = (case r of Inl _ \<Rightarrow> d | Inr v \<Rightarrow> v)"

text \<open>A dev build that does not panic and a release build return the same: \<open>x\<close> is the result
  of the former, \<open>y\<close> of the latter.\<close>

definition agrees :: "'a option \<Rightarrow> 'a option \<Rightarrow> bool" where
  "agrees x y \<longleftrightarrow> x = None \<or> x = y"

subsection \<open>Collections of lemmas\<close>

named_theorems u64_simps \<open>arithmetic on u64 that does not overflow\<close>
named_theorems agreement \<open>a release build does what a dev build does\<close>

lemma unwrap_or_simps [simp]:
  "unwrap_or (Inr v) d = v"
  "unwrap_or (Inl e) d = d"
  by (simp_all add: unwrap_or_def)

lemma bind_SomeE:
  assumes "m \<bind> f = Some y"
  obtains x where "m = Some x" "f x = Some y"
  using assms by (auto simp: bind_eq_Some_conv)

lemma u64_range: "unat (a :: u64) < 2 ^ 64"
proof -
  have "unat a < 2 ^ LENGTH(64)" by (rule unsigned_less)
  then show ?thesis by simp
qed

text \<open>The overflow check on natural numbers, as the proofs use it.\<close>

lemma int_less_two_64: "int n < 2 ^ 64 \<longleftrightarrow> n < 2 ^ 64"
  by simp

lemma u64_add_nat:
  "u64_add p a b = (if unat a + unat b < 2 ^ 64 \<or> p = Release then Some (a + b) else None)"
proof -
  have "uint a + uint b = int (unat a + unat b)" by simp
  then show ?thesis unfolding u64_add_def by (simp only: int_less_two_64)
qed

lemma u64_add_exact [u64_simps]:
  "unat a + unat b < 2 ^ 64 \<Longrightarrow> u64_add p a b = Some (a + b)"
  by (simp add: u64_add_nat)

lemma u64_sub_exact [u64_simps]: "b \<le> a \<Longrightarrow> u64_sub p a b = Some (a - b)"
  by (simp add: u64_sub_def)

lemma unat_u64_add: "unat a + unat b < 2 ^ 64 \<Longrightarrow> unat (a + b :: u64) = unat a + unat b"
  by (simp add: unat_word_ariths)

lemma unat_u64_sub: "b \<le> (a :: u64) \<Longrightarrow> unat (a - b) = unat a - unat b"
  by (rule unat_sub)

text \<open>What a non-panicking checked operation returns in the dev profile.\<close>

lemma u64_add_Debug_Some:
  "u64_add Debug a b = Some c \<Longrightarrow> unat c = unat a + unat b"
  by (auto simp: u64_add_nat unat_u64_add split: if_splits)

lemma u64_sub_Debug_Some:
  "u64_sub Debug a b = Some c \<Longrightarrow> b \<le> a \<and> unat c = unat a - unat b"
  by (auto simp: u64_sub_def unat_u64_sub split: if_splits)

text \<open>Agreement of the two profiles goes through the constructs of the model, so that for a
  method it is proved by its definition alone.\<close>

lemma agrees_refl [agreement]: "agrees x x"
  by (simp add: agrees_def)

lemma agrees_bind [agreement]:
  assumes "agrees x y" "\<And>v. x = Some v \<Longrightarrow> agrees (f v) (g v)"
  shows "agrees (x \<bind> f) (y \<bind> g)"
proof (cases x)
  case (Some v)
  then show ?thesis
    using assms(1) assms(2) [OF Some] by (auto simp: agrees_def)
qed (simp add: agrees_def)

lemma agrees_map_option [agreement]: "agrees x y \<Longrightarrow> agrees (map_option f x) (map_option f y)"
  by (auto simp: agrees_def)

lemma agrees_if [agreement]:
  "(b \<Longrightarrow> agrees x x') \<Longrightarrow> (\<not> b \<Longrightarrow> agrees y y') \<Longrightarrow> agrees (if b then x else y) (if b then x' else y')"
  by simp

lemma agrees_case_option [agreement]:
  "agrees x x' \<Longrightarrow> (\<And>v. agrees (f v) (f' v)) \<Longrightarrow>
   agrees (case z of None \<Rightarrow> x | Some v \<Rightarrow> f v) (case z of None \<Rightarrow> x' | Some v \<Rightarrow> f' v)"
  by (cases z) auto

lemma agrees_case_sum [agreement]:
  "(\<And>v. agrees (h v) (h' v)) \<Longrightarrow> (\<And>v. agrees (f v) (f' v)) \<Longrightarrow>
   agrees (case z of Inl v \<Rightarrow> h v | Inr v \<Rightarrow> f v) (case z of Inl v \<Rightarrow> h' v | Inr v \<Rightarrow> f' v)"
  by (cases z) auto

lemma agrees_case_prod [agreement]:
  "(\<And>a b. agrees (f a b) (f' a b)) \<Longrightarrow> agrees (case z of (a, b) \<Rightarrow> f a b) (case z of (a, b) \<Rightarrow> f' a b)"
  by (cases z) auto

lemma agrees_let [agreement]:
  "agrees (f v) (f' v) \<Longrightarrow> agrees (let x = v in f x) (let x = v in f' x)"
  by (simp add: Let_def)

lemma u64_agrees [agreement]:
  "agrees (u64_add Debug a b) (u64_add Release a b)"
  "agrees (u64_sub Debug a b) (u64_sub Release a b)"
  "agrees (u64_mul Debug a b) (u64_mul Release a b)"
  by (simp_all add: agrees_def u64_add_def u64_sub_def u64_mul_def)

lemma u64_succ:
  "unat n < 2 ^ 64 - 1 \<Longrightarrow> u64_add p n 1 = Some (n + 1) \<and> unat (n + 1) = unat n + 1"
  by (simp add: u64_add_exact unat_u64_add)

lemma u64_pred:
  "m < n \<Longrightarrow> u64_sub p n 1 = Some (n - 1) \<and> unat (n - 1) = unat n - 1 \<and> m \<le> n - (1 :: u64)"
proof -
  assume "m < n"
  then have "1 \<le> n" by (simp add: word_le_nat_alt word_less_nat_alt)
  with \<open>m < n\<close> show ?thesis
    by (simp add: u64_sub_exact unat_u64_sub word_le_nat_alt word_less_nat_alt)
qed

lemma u64_pred_less: "m < n \<Longrightarrow> unat (n - (1 :: u64)) < unat n"
  by (rule measure_unat) auto

lemma of_nat_u64: "n < 2 ^ 64 \<Longrightarrow> unat (of_nat n :: u64) = n"
  by (simp add: unat_of_nat)

end
