(* ===== verification/Raft_Core.thy ===== *)
theory Raft_Core
  imports Raft_Prelude
begin

text \<open>
  The crate \<^verbatim>\<open>iceraft-core\<close> (\<^verbatim>\<open>src/iceraft-core/src/lib.rs\<close>):
  the data that every other crate exchanges, the configuration with its validation, and the
  quorum size. A field keeps the name it has in the source, with a prefix where several
  structs use the same name. \<^verbatim>\<open>Vec<u8>\<close> is a list of bytes.
\<close>

type_synonym NodeId = u64
type_synonym Term = u64
type_synonym LogIndex = u64

subsection \<open>Errors\<close>

datatype RaftError =
    InvalidConfig string
  | NotLeader "NodeId option"
  | StorageError string
  | NetworkError string
  | Shutdown
  | LogCompacted LogIndex LogIndex
  | LogUnavailable LogIndex
  | SnapshotError string
  | ChannelClosed
  | Timeout
  | Other string

type_synonym 'a result = "RaftError + 'a"

subsection \<open>Configuration\<close>

record RaftConfig =
  cfg_id :: NodeId
  peers :: "NodeId list"
  heartbeat_interval_ms :: u64
  election_timeout_min_ms :: u64
  election_timeout_max_ms :: u64
  max_append_entries :: u64
  snapshot_threshold :: u64
  snapshot_chunk_size :: u64

definition default_config :: RaftConfig where
  "default_config = \<lparr>
     cfg_id = 1,
     peers = [],
     heartbeat_interval_ms = 100,
     election_timeout_min_ms = 300,
     election_timeout_max_ms = 600,
     max_append_entries = 128,
     snapshot_threshold = 10000,
     snapshot_chunk_size = 1024 * 1024\<rparr>"

definition validate :: "RaftConfig \<Rightarrow> unit result" where
  "validate c =
     (if election_timeout_max_ms c \<le> election_timeout_min_ms c
      then Inl (InvalidConfig
        ''election_timeout_min_ms must be less than election_timeout_max_ms'')
      else if election_timeout_min_ms c \<le> heartbeat_interval_ms c
      then Inl (InvalidConfig
        ''heartbeat_interval_ms must be less than election_timeout_min_ms'')
      else Inr ())"

definition members :: "RaftConfig \<Rightarrow> NodeId set" where
  "members c = insert (cfg_id c) (set (peers c))"

definition quorum :: "RaftConfig \<Rightarrow> nat" where
  "quorum c = (length (peers c) + 1) div 2 + 1"

subsection \<open>Log entries, hard state, snapshots, proposals\<close>

datatype EntryType = Normal | ConfChange

record LogEntry =
  le_term :: Term
  le_index :: LogIndex
  le_data :: "u8 list"
  le_type :: EntryType

record HardState =
  hs_term :: Term
  hs_vote :: NodeId
  hs_commit :: LogIndex

definition default_hard_state :: HardState where
  "default_hard_state = \<lparr>hs_term = 0, hs_vote = 0, hs_commit = 0\<rparr>"

record SnapshotMeta =
  last_included_index :: LogIndex
  last_included_term :: Term
  conf_nodes :: "NodeId list"

record Snapshot =
  snap_data :: "u8 list"
  metadata :: SnapshotMeta

text \<open>
  The sending half of a one-shot channel is a number that names the channel; what is sent on
  it is recorded by the node.
\<close>

type_synonym oneshot = nat

record Proposal =
  prop_data :: "u8 list"
  prop_tx :: "oneshot option"

subsection \<open>Quorums intersect\<close>

text \<open>
  The interface the election and the commit rule rely on: a set of members and a size such
  that two sets of that size cannot be disjoint.
\<close>

lemma quorum_sizes_meet:
  assumes "finite M" "A \<subseteq> M" "B \<subseteq> M" "card M < card A + card B"
  shows "A \<inter> B \<noteq> {}"
proof
  assume disj: "A \<inter> B = {}"
  have "card A + card B = card (A \<union> B)"
    using assms(1-3) disj by (simp add: card_Un_disjoint finite_subset)
  also have "\<dots> \<le> card M"
    using assms(1-3) by (intro card_mono) auto
  finally show False using assms(4) by simp
qed

locale quorum_system =
  fixes mem :: "'a set" and q :: nat
  assumes finite_mem: "finite mem"
    and majority: "card mem < 2 * q"
begin

lemma quorums_meet:
  assumes "A \<subseteq> mem" "B \<subseteq> mem" "q \<le> card A" "q \<le> card B"
  shows "A \<inter> B \<noteq> {}"
  using finite_mem assms(1,2)
  by (rule quorum_sizes_meet) (use assms(3,4) majority in linarith)

lemma quorum_nonempty: "A \<subseteq> mem \<Longrightarrow> q \<le> card A \<Longrightarrow> A \<noteq> {}"
  using quorums_meet [of A A] by auto

end

lemma finite_members [simp]: "finite (members c)"
  by (simp add: members_def)

lemma card_members_le: "card (members c) \<le> length (peers c) + 1"
  unfolding members_def using card_length [of "peers c"] card_insert_le_m1 [of "length (peers c) + 1"]
  by (simp add: card_insert_if)

lemma members_less_two_quorums: "card (members c) < 2 * quorum c"
  using card_members_le [of c] by (simp add: quorum_def)

interpretation cfg_quorum: quorum_system "members c" "quorum c" for c
  by unfold_locales (simp_all add: members_less_two_quorums)

lemma quorum_pos [simp]: "0 < quorum c"
  by (simp add: quorum_def)

text \<open>A quorum is reachable: with distinct peers other than the node itself, the whole
  cluster has enough members.\<close>

lemma quorum_le_members:
  assumes "distinct (peers c)" "cfg_id c \<notin> set (peers c)"
  shows "quorum c \<le> card (members c)"
  using assms by (simp add: quorum_def members_def distinct_card)

text \<open>
  Any two sets of cluster members that reach \<^verbatim>\<open>RaftConfig::quorum\<close> share a
  member, whatever the number of peers: the size computed by integer division is a strict
  majority. This is the fact on which leader election and commit rest.
\<close>

theorem quorum_intersection:
  assumes "A \<subseteq> members c" and "B \<subseteq> members c"
    and "quorum c \<le> card A" and "quorum c \<le> card B"
  shows "A \<inter> B \<noteq> {}"
  using assms by (rule cfg_quorum.quorums_meet)

theorem quorum_intersection_witness:
  "let c = default_config\<lparr>peers := [2, 3]\<rparr> in
   {1, 2} \<subseteq> members c \<and> {2, 3} \<subseteq> members c \<and> quorum c = 2 \<and> {1, 2} \<inter> {2, 3 :: NodeId} \<noteq> {}"
proof -
  let ?c = "default_config\<lparr>peers := [2, 3]\<rparr>"
  have c: "{1, 2} \<subseteq> members ?c" "{2, 3} \<subseteq> members ?c" "quorum ?c = 2"
    by (simp_all add: members_def quorum_def default_config_def)
  then have "{1, 2} \<inter> {2, 3 :: NodeId} \<noteq> {}"
    by (intro quorum_intersection [of _ ?c]) simp_all
  then show ?thesis using c by (simp add: Let_def)
qed

text \<open>
  \<^verbatim>\<open>RaftConfig::validate\<close> accepts a configuration exactly when the heartbeat
  interval is below the minimum election timeout and that is below the maximum; otherwise
  it reports \<^verbatim>\<open>InvalidConfig\<close>.
\<close>

theorem validate_iff:
  "(validate c = Inr () \<longleftrightarrow>
      heartbeat_interval_ms c < election_timeout_min_ms c \<and>
      election_timeout_min_ms c < election_timeout_max_ms c) \<and>
   (validate c = Inr () \<or> (\<exists>why. validate c = Inl (InvalidConfig why)))"
  by (auto simp: validate_def)

end
