(* ===== verification/Raft_Storage.thy ===== *)
theory Raft_Storage
  imports Raft_Core "HOL-Library.Sublist"
begin

text \<open>
  The trait \<^verbatim>\<open>Storage\<close> (\<^verbatim>\<open>src/iceraft-storage/src/lib.rs\<close>) and
  a contract for its operations. The trait is a record of operations, the
  dictionary a generic client receives; \<open>'s\<close> is the state of a backend. A read returns
  \<open>None\<close> when it panics, and otherwise a \<^verbatim>\<open>Result\<close>; a write also returns the
  new state. The unimplemented backend \<^verbatim>\<open>rocks.rs\<close> is the dictionary whose every
  operation panics.

  The contract is the locale \<open>storage_contract\<close>: an abstract log (a compacted prefix
  followed by the entries still held), one specification function per operation on it, and
  the law that the operation implements the function. It follows the documentation of the trait
  except for \<^verbatim>\<open>append_entries\<close>, which is documented to truncate a conflicting suffix: the
  law of the contract is what the in-memory backend does, which truncates at the first index of the
  batch whether or not the entries there conflict.
\<close>

subsection \<open>The trait\<close>

record 's Storage =
  save_hard_state :: "'s \<Rightarrow> HardState \<Rightarrow> ('s \<times> unit result) option"
  load_hard_state :: "'s \<Rightarrow> HardState result option"
  first_index :: "'s \<Rightarrow> LogIndex result option"
  last_index :: "'s \<Rightarrow> LogIndex result option"
  log_term :: "'s \<Rightarrow> LogIndex \<Rightarrow> Term result option"
  log_entries :: "'s \<Rightarrow> LogIndex \<Rightarrow> LogIndex \<Rightarrow> u64 option \<Rightarrow> LogEntry list result option"
  append_entries :: "'s \<Rightarrow> LogEntry list \<Rightarrow> ('s \<times> unit result) option"
  get_snapshot :: "'s \<Rightarrow> Snapshot option result option"
  apply_snapshot :: "'s \<Rightarrow> Snapshot \<Rightarrow> ('s \<times> unit result) option"

text \<open>\<^verbatim>\<open>RocksDbStorage\<close> is a placeholder: \<^verbatim>\<open>unimplemented!()\<close>
  panics.\<close>

definition rocks_storage :: "unit Storage" where
  "rocks_storage = \<lparr>
     save_hard_state = \<lambda>_ _. panic,
     load_hard_state = \<lambda>_. panic,
     first_index = \<lambda>_. panic,
     last_index = \<lambda>_. panic,
     log_term = \<lambda>_ _. panic,
     log_entries = \<lambda>_ _ _ _. panic,
     append_entries = \<lambda>_ _. panic,
     get_snapshot = \<lambda>_. panic,
     apply_snapshot = \<lambda>_ _. panic\<rparr>"

subsection \<open>The abstract log\<close>

text \<open>
  Entries up to \<open>base\<close> have been compacted into a snapshot whose last entry has term
  \<open>base_term\<close>; \<open>ents\<close> holds the entries \<open>base + 1, base + 2, \<dots>\<close>.
\<close>

record AbsLog =
  base :: nat
  base_term :: Term
  ents :: "LogEntry list"

definition data_bytes :: "LogEntry list \<Rightarrow> nat" where
  "data_bytes es = (\<Sum>e\<leftarrow>es. length (le_data e))"

definition contiguous :: "nat \<Rightarrow> LogEntry list \<Rightarrow> bool" where
  "contiguous k es \<longleftrightarrow> (\<forall>i < length es. unat (le_index (es ! i)) = k + i)"

text \<open>
  Well-formed: the entries carry consecutive indices, the successor of the last index is still
  a \<^verbatim>\<open>u64\<close>, and so is the number of payload bytes held in memory.
\<close>

definition alog_ok :: "AbsLog \<Rightarrow> bool" where
  "alog_ok l \<longleftrightarrow> contiguous (base l + 1) (ents l) \<and>
     base l + length (ents l) < 2 ^ 64 - 1 \<and> data_bytes (ents l) < 2 ^ 64"

definition alog_last :: "AbsLog \<Rightarrow> nat" where
  "alog_last l = base l + length (ents l)"

definition alog_term :: "AbsLog \<Rightarrow> LogIndex \<Rightarrow> Term result" where
  "alog_term l i =
     (if i = 0 then Inr 0
      else if unat i < base l then Inl (LogCompacted i (of_nat (base l + 1)))
      else if unat i = base l then Inr (base_term l)
      else if unat i \<le> alog_last l then Inr (le_term (ents l ! (unat i - base l - 1)))
      else Inl (LogUnavailable i))"

definition alog_slice :: "AbsLog \<Rightarrow> nat \<Rightarrow> nat \<Rightarrow> LogEntry list" where
  "alog_slice l lo hi = take (hi - lo) (drop (lo - base l - 1) (ents l))"

definition alog_append :: "AbsLog \<Rightarrow> LogEntry list \<Rightarrow> AbsLog" where
  "alog_append l es =
     (if es = [] then l
      else l\<lparr>ents := take (unat (le_index (hd es)) - base l - 1) (ents l) @ es\<rparr>)"

definition alog_compact :: "AbsLog \<Rightarrow> nat \<Rightarrow> Term \<Rightarrow> AbsLog" where
  "alog_compact l i t = \<lparr>base = i, base_term = t, ents = drop (i - base l) (ents l)\<rparr>"

subsection \<open>Facts about the abstract log\<close>

lemma contiguous_Nil [simp]: "contiguous k []"
  by (simp add: contiguous_def)

lemma contiguous_append:
  "contiguous k (xs @ ys) \<longleftrightarrow> contiguous k xs \<and> contiguous (k + length xs) ys"
proof
  assume c: "contiguous k (xs @ ys)"
  have "unat (le_index (ys ! i)) = k + length xs + i" if "i < length ys" for i
    using c [unfolded contiguous_def, rule_format, of "length xs + i"] that
    by (simp add: nth_append)
  moreover have "unat (le_index (xs ! i)) = k + i" if "i < length xs" for i
    using c [unfolded contiguous_def, rule_format, of i] that by (simp add: nth_append)
  ultimately show "contiguous k xs \<and> contiguous (k + length xs) ys"
    by (simp add: contiguous_def)
next
  assume c: "contiguous k xs \<and> contiguous (k + length xs) ys"
  show "contiguous k (xs @ ys)"
    unfolding contiguous_def
  proof (intro allI impI)
    fix i assume "i < length (xs @ ys)"
    then show "unat (le_index ((xs @ ys) ! i)) = k + i"
      using c by (auto simp: contiguous_def nth_append)
  qed
qed

lemma contiguous_take: "contiguous k es \<Longrightarrow> contiguous k (take n es)"
  by (simp add: contiguous_def)

lemma contiguous_drop: "contiguous k es \<Longrightarrow> contiguous (k + n) (drop n es)"
  by (auto simp: contiguous_def)

lemma contiguous_hd: "contiguous k es \<Longrightarrow> es \<noteq> [] \<Longrightarrow> unat (le_index (hd es)) = k"
  by (auto simp: contiguous_def hd_conv_nth)

lemma contiguous_last:
  "contiguous k es \<Longrightarrow> es \<noteq> [] \<Longrightarrow> unat (le_index (last es)) = k + (length es - 1)"
  by (auto simp: contiguous_def last_conv_nth)

lemma data_bytes_Nil [simp]: "data_bytes [] = 0"
  by (simp add: data_bytes_def)

lemma data_bytes_Cons [simp]: "data_bytes (e # es) = length (le_data e) + data_bytes es"
  by (simp add: data_bytes_def)

lemma data_bytes_append [simp]: "data_bytes (xs @ ys) = data_bytes xs + data_bytes ys"
  by (simp add: data_bytes_def)

lemma data_bytes_take_drop: "data_bytes (take n es) + data_bytes (drop n es) = data_bytes es"
  by (metis append_take_drop_id data_bytes_append)

lemma data_bytes_take_le: "data_bytes (take n es) \<le> data_bytes es"
  using data_bytes_take_drop [of n es] by linarith

lemma data_bytes_drop_le: "data_bytes (drop n es) \<le> data_bytes es"
  using data_bytes_take_drop [of n es] by linarith

text \<open>Appending a batch that starts inside the log or right after it keeps the log
  well-formed.\<close>

lemma alog_append_ok:
  assumes "alog_ok l" "contiguous k es" "base l < k" "k \<le> alog_last l + 1"
    and "k + length es < 2 ^ 64" "data_bytes (ents l) + data_bytes es < 2 ^ 64"
  shows "alog_ok (alog_append l es)"
proof (cases "es = []")
  case True
  then show ?thesis using assms(1) by (simp add: alog_append_def)
next
  case False
  let ?n = "k - base l - 1"
  have hd: "unat (le_index (hd es)) = k"
    using assms(2) False by (rule contiguous_hd)
  have n: "length (take ?n (ents l)) = ?n"
    using assms(4) by (simp add: alog_last_def)
  have "contiguous (base l + 1) (take ?n (ents l) @ es)"
    using assms(1-3) n by (simp add: contiguous_append alog_ok_def contiguous_take)
  moreover have "base l + length (take ?n (ents l) @ es) < 2 ^ 64 - 1"
    using n assms(3,5) by simp
  moreover have "data_bytes (take ?n (ents l) @ es) < 2 ^ 64"
    using assms(6) data_bytes_take_le [of ?n "ents l"] by simp
  ultimately show ?thesis
    using False hd by (simp add: alog_append_def alog_ok_def)
qed

text \<open>Conversely a batch whose append is well-formed starts inside the log or right after
  it.\<close>

lemma alog_append_ok_start:
  assumes "alog_ok (alog_append l es)" "es \<noteq> []"
  shows "base l < unat (le_index (hd es))" and "unat (le_index (hd es)) \<le> alog_last l + 1"
proof -
  let ?k = "unat (le_index (hd es))"
  let ?pre = "take (?k - base l - 1) (ents l)"
  have "contiguous (base l + 1) (?pre @ es)"
    using assms by (simp add: alog_ok_def alog_append_def)
  then have "contiguous (base l + 1 + length ?pre) es"
    by (simp add: contiguous_append)
  then have "?k = base l + 1 + length ?pre"
    using assms(2) by (rule contiguous_hd)
  then show "base l < ?k" and "?k \<le> alog_last l + 1"
    by (auto simp: alog_last_def)
qed

text \<open>What an append writes is what a read returns; what lies below it stays.\<close>

lemma alog_append_slice:
  assumes "contiguous k es" "base l < k" "k \<le> alog_last l + 1"
  shows "alog_slice (alog_append l es) k (k + length es) = es"
proof (cases "es = []")
  case False
  have "unat (le_index (hd es)) = k"
    using assms(1) False by (rule contiguous_hd)
  then show ?thesis
    using False assms(2,3) by (auto simp: alog_slice_def alog_append_def alog_last_def min_def)
qed (simp add: alog_slice_def)

lemma alog_append_last:
  assumes "contiguous k es" "base l < k" "k \<le> alog_last l + 1" "es \<noteq> []"
  shows "alog_last (alog_append l es) + 1 = k + length es"
proof -
  have "unat (le_index (hd es)) = k"
    using assms(1,4) by (rule contiguous_hd)
  then show ?thesis
    using assms(2-4) by (auto simp: alog_append_def alog_last_def min_def)
qed

lemma alog_append_term_below:
  assumes "contiguous k es" "base l < k" "k \<le> alog_last l + 1" "es \<noteq> []" "unat i < k"
  shows "alog_term (alog_append l es) i = alog_term l i"
proof -
  have hd: "unat (le_index (hd es)) = k"
    using assms(1,4) by (rule contiguous_hd)
  have "unat i - base l - 1 < k - base l - 1" if "base l < unat i"
    using that assms(5) by linarith
  then show ?thesis
    using assms(2-5) hd alog_append_last [OF assms(1-4)]
    by (auto simp: alog_term_def alog_append_def alog_last_def nth_append)
qed

lemma alog_compact_ok:
  assumes "alog_ok l" "base l \<le> i" "i < 2 ^ 64 - 1"
  shows "alog_ok (alog_compact l i t)"
proof -
  have "contiguous (i + 1) (drop (i - base l) (ents l))"
  proof -
    have "contiguous (base l + 1) (ents l)"
      using assms(1) by (simp add: alog_ok_def)
    then have "contiguous (base l + 1 + (i - base l)) (drop (i - base l) (ents l))"
      by (rule contiguous_drop)
    then show ?thesis using assms(2) by simp
  qed
  moreover have "data_bytes (drop (i - base l) (ents l)) < 2 ^ 64"
    using assms(1) data_bytes_drop_le [of "i - base l" "ents l"] by (simp add: alog_ok_def)
  moreover have "i + length (drop (i - base l) (ents l)) < 2 ^ 64 - 1"
    using assms by (auto simp: alog_ok_def)
  ultimately show ?thesis
    by (simp add: alog_compact_def alog_ok_def)
qed

subsection \<open>Sequences of writes\<close>

text \<open>A client's writes, run on a backend until one fails, and what they do to the abstract
  log. \<open>write_ok\<close> is the contract's precondition: a batch that leaves a well-formed log, a
  snapshot that is not older than the one held.\<close>

datatype StorageWrite = WriteHardState HardState | WriteEntries "LogEntry list" | WriteSnapshot Snapshot

fun run_write :: "'s Storage \<Rightarrow> StorageWrite \<Rightarrow> 's \<Rightarrow> ('s \<times> unit result) option" where
  "run_write S (WriteHardState h) s = save_hard_state S s h"
| "run_write S (WriteEntries es) s = append_entries S s es"
| "run_write S (WriteSnapshot sn) s = apply_snapshot S s sn"

fun run_writes :: "'s Storage \<Rightarrow> StorageWrite list \<Rightarrow> 's \<Rightarrow> 's result option" where
  "run_writes S [] s = ret (Inr s)"
| "run_writes S (w # ws) s = do {
     (s', r) \<leftarrow> run_write S w s;
     (case r of Inl e \<Rightarrow> ret (Inl e) | Inr _ \<Rightarrow> run_writes S ws s')
   }"

fun write_ok :: "AbsLog \<Rightarrow> StorageWrite \<Rightarrow> bool" where
  "write_ok l (WriteHardState h) \<longleftrightarrow> True"
| "write_ok l (WriteEntries es) \<longleftrightarrow> alog_ok (alog_append l es)"
| "write_ok l (WriteSnapshot sn) \<longleftrightarrow> base l \<le> unat (last_included_index (metadata sn)) \<and>
     unat (last_included_index (metadata sn)) < 2 ^ 64 - 1"

fun alog_write :: "StorageWrite \<Rightarrow> AbsLog \<Rightarrow> AbsLog" where
  "alog_write (WriteHardState h) l = l"
| "alog_write (WriteEntries es) l = alog_append l es"
| "alog_write (WriteSnapshot sn) l = alog_compact l (unat (last_included_index (metadata sn)))
     (last_included_term (metadata sn))"

fun writes_ok :: "AbsLog \<Rightarrow> StorageWrite list \<Rightarrow> bool" where
  "writes_ok l [] \<longleftrightarrow> True"
| "writes_ok l (w # ws) \<longleftrightarrow> write_ok l w \<and> writes_ok (alog_write w l) ws"

fun last_hard_state :: "HardState \<Rightarrow> StorageWrite list \<Rightarrow> HardState" where
  "last_hard_state h [] = h"
| "last_hard_state h (WriteHardState h' # ws) = last_hard_state h' ws"
| "last_hard_state h (_ # ws) = last_hard_state h ws"

subsection \<open>The contract\<close>

locale storage_contract =
  fixes S :: "'s Storage"
    and invar :: "'s \<Rightarrow> bool"
    and alog :: "'s \<Rightarrow> AbsLog"
    and hard :: "'s \<Rightarrow> HardState"
    and snap :: "'s \<Rightarrow> Snapshot option"
  assumes log_ok: "invar s \<Longrightarrow> alog_ok (alog s)"
    and save: "invar s \<Longrightarrow> \<exists>s'. save_hard_state S s h = Some (s', Inr ()) \<and>
      invar s' \<and> hard s' = h \<and> alog s' = alog s \<and> snap s' = snap s"
    and load: "invar s \<Longrightarrow> load_hard_state S s = Some (Inr (hard s))"
    and first: "invar s \<Longrightarrow> first_index S s = Some (Inr (of_nat (base (alog s) + 1)))"
    and last: "invar s \<Longrightarrow> last_index S s = Some (Inr (of_nat (alog_last (alog s))))"
    and read_term: "invar s \<Longrightarrow> log_term S s i = Some (alog_term (alog s) i)"
    and read_compacted: "invar s \<Longrightarrow> unat lo \<le> base (alog s) \<Longrightarrow>
      log_entries S s lo hi mx = Some (Inl (LogCompacted lo (of_nat (base (alog s) + 1))))"
    and read_beyond: "invar s \<Longrightarrow> base (alog s) < unat lo \<Longrightarrow>
      alog_last (alog s) + 1 < unat hi \<Longrightarrow>
      log_entries S s lo hi mx = Some (Inl (LogUnavailable hi))"
    and read_range: "invar s \<Longrightarrow> base (alog s) < unat lo \<Longrightarrow>
      unat hi \<le> alog_last (alog s) + 1 \<Longrightarrow>
      \<exists>es. log_entries S s lo hi mx = Some (Inr es) \<and>
        prefix es (alog_slice (alog s) (unat lo) (unat hi)) \<and>
        (alog_slice (alog s) (unat lo) (unat hi) \<noteq> [] \<longrightarrow> es \<noteq> []) \<and>
        (mx = None \<longrightarrow> es = alog_slice (alog s) (unat lo) (unat hi))"
    and append: "invar s \<Longrightarrow> alog_ok (alog_append (alog s) es) \<Longrightarrow>
      \<exists>s'. append_entries S s es = Some (s', Inr ()) \<and> invar s' \<and>
        alog s' = alog_append (alog s) es \<and> hard s' = hard s \<and> snap s' = snap s"
    and read_snapshot: "invar s \<Longrightarrow> get_snapshot S s = Some (Inr (snap s))"
    and snapshot_base: "invar s \<Longrightarrow> snap s = Some sn \<Longrightarrow>
      unat (last_included_index (metadata sn)) = base (alog s) \<and>
      last_included_term (metadata sn) = base_term (alog s)"
    and no_snapshot_base: "invar s \<Longrightarrow> snap s = None \<Longrightarrow> base (alog s) = 0"
    and install: "invar s \<Longrightarrow>
      base (alog s) \<le> unat (last_included_index (metadata sn)) \<Longrightarrow>
      unat (last_included_index (metadata sn)) < 2 ^ 64 - 1 \<Longrightarrow>
      \<exists>s'. apply_snapshot S s sn = Some (s', Inr ()) \<and> invar s' \<and>
        alog s' = alog_compact (alog s) (unat (last_included_index (metadata sn)))
          (last_included_term (metadata sn)) \<and>
        hard s' = hard s \<and> snap s' = Some sn"

text \<open>A sequence of writes inside the contract never panics or fails, and acts on the abstract
  log as its specification says.\<close>

context storage_contract
begin

lemma write_simulates:
  assumes "invar s" "write_ok (alog s) w"
  shows "\<exists>s'. run_write S w s = Some (s', Inr ()) \<and> invar s' \<and> alog s' = alog_write w (alog s) \<and>
    hard s' = last_hard_state (hard s) [w]"
proof (cases w)
  case (WriteHardState h)
  then show ?thesis using save [OF assms(1), of h] by auto
next
  case (WriteEntries es)
  then show ?thesis using append [OF assms(1), of es] assms(2) by auto
next
  case (WriteSnapshot sn)
  then show ?thesis using install [OF assms(1), of sn] assms(2) by auto
qed

lemma writes_simulate:
  assumes "invar s" "writes_ok (alog s) ws"
  shows "\<exists>s'. run_writes S ws s = Some (Inr s') \<and> invar s' \<and>
    alog s' = fold alog_write ws (alog s) \<and> hard s' = last_hard_state (hard s) ws"
  using assms
proof (induction ws arbitrary: s)
  case (Cons w ws)
  then obtain s' where s': "run_write S w s = Some (s', Inr ())" "invar s'"
      "alog s' = alog_write w (alog s)" "hard s' = last_hard_state (hard s) [w]"
    using write_simulates [of s w] by auto
  moreover have "last_hard_state (hard s) (w # ws) = last_hard_state (hard s') ws"
    using s'(4) by (cases w) simp_all
  ultimately show ?case
    using Cons.IH [of s'] Cons.prems by simp
qed simp

end

text \<open>
  What the votes of a node rest on: the hard state that was saved last is the one that is
  loaded, and log operations leave it alone. Nothing is asked of the log.
\<close>

locale hard_state_store =
  fixes S :: "'s Storage" and hard :: "'s \<Rightarrow> HardState"
  assumes hs_load: "load_hard_state S s = Some (Inr (hard s))"
    and hs_save: "save_hard_state S s h = Some (s', r) \<Longrightarrow> hard s' = h"
    and hs_append: "append_entries S s es = Some (s', r) \<Longrightarrow> hard s' = hard s"
    and hs_install: "apply_snapshot S s sn = Some (s', r) \<Longrightarrow> hard s' = hard s"

end
