(* ===== verification/Raft_Proto.thy ===== *)
theory Raft_Proto
  imports Raft_Core
begin

text \<open>
  The messages of the gRPC protocol (\<^verbatim>\<open>src/iceraft-network/src/gen/raft.rs\<close>,
  the structs; the service stubs are in \<open>Raft_Grpc\<close>) and the conversions between a wire
  entry and a log entry (end of \<^verbatim>\<open>src/iceraft-node/src/node.rs\<close>). The wire type
  of an entry is a plain \<^verbatim>\<open>i32\<close>, as prost generates it.
\<close>

subsection \<open>Messages\<close>

type_synonym i32 = "32 word"

record ProtoEntry =
  pe_term :: u64
  pe_index :: u64
  pe_data :: "u8 list"
  pe_type :: i32

record ProtoHardState =
  phs_term :: u64
  phs_vote :: u64
  phs_commit :: u64

record SnapshotMetadata =
  sm_index :: u64
  sm_term :: u64
  sm_conf_nodes :: "u64 list"

record ProtoSnapshot =
  ps_data :: "u8 list"
  ps_metadata :: "SnapshotMetadata option"

record AppendEntriesRequest =
  ae_term :: u64
  ae_leader_id :: u64
  prev_log_index :: u64
  prev_log_term :: u64
  ae_entries :: "ProtoEntry list"
  leader_commit :: u64

record AppendEntriesResponse =
  aer_term :: u64
  success :: bool
  conflict_index :: u64
  conflict_term :: u64

record RequestVoteRequest =
  rv_term :: u64
  candidate_id :: u64
  last_log_index :: u64
  last_log_term :: u64
  pre_vote :: bool

record RequestVoteResponse =
  rvr_term :: u64
  vote_granted :: bool

record InstallSnapshotRequest =
  is_term :: u64
  is_leader_id :: u64
  is_last_included_index :: u64
  is_last_included_term :: u64
  is_offset :: u64
  is_data :: "u8 list"
  is_done :: bool

record InstallSnapshotResponse =
  isr_term :: u64

subsection \<open>Entry types on the wire\<close>

datatype ProtoEntryType = EntryNormal | EntryConfChange

definition proto_entry_type_i32 :: "ProtoEntryType \<Rightarrow> i32" where
  "proto_entry_type_i32 t = (case t of EntryNormal \<Rightarrow> 0 | EntryConfChange \<Rightarrow> 1)"

definition as_str_name :: "ProtoEntryType \<Rightarrow> string" where
  "as_str_name t = (case t of
     EntryNormal \<Rightarrow> ''ENTRY_NORMAL''
   | EntryConfChange \<Rightarrow> ''ENTRY_CONF_CHANGE'')"

definition from_str_name :: "string \<Rightarrow> ProtoEntryType option" where
  "from_str_name v =
     (if v = ''ENTRY_NORMAL'' then Some EntryNormal
      else if v = ''ENTRY_CONF_CHANGE'' then Some EntryConfChange
      else None)"

subsection \<open>Conversions\<close>

definition proto_entry_to_log_entry :: "ProtoEntry \<Rightarrow> LogEntry" where
  "proto_entry_to_log_entry e = \<lparr>
     le_term = pe_term e,
     le_index = pe_index e,
     le_data = pe_data e,
     le_type = (if pe_type e = proto_entry_type_i32 EntryConfChange then ConfChange else Normal)\<rparr>"

definition log_entry_to_proto_entry :: "LogEntry \<Rightarrow> ProtoEntry" where
  "log_entry_to_proto_entry e = \<lparr>
     pe_term = le_term e,
     pe_index = le_index e,
     pe_data = le_data e,
     pe_type = (case le_type e of
         Normal \<Rightarrow> proto_entry_type_i32 EntryNormal
       | ConfChange \<Rightarrow> proto_entry_type_i32 EntryConfChange)\<rparr>"

lemma le_index_of_proto [simp]: "le_index (proto_entry_to_log_entry e) = pe_index e"
  by (simp add: proto_entry_to_log_entry_def)

lemma pe_index_of_log [simp]: "pe_index (log_entry_to_proto_entry e) = le_index e"
  by (simp add: log_entry_to_proto_entry_def)

lemma log_entry_via_wire [simp]: "proto_entry_to_log_entry (log_entry_to_proto_entry e) = e"
  by (cases "le_type e")
    (simp_all add: proto_entry_to_log_entry_def log_entry_to_proto_entry_def
      proto_entry_type_i32_def)

text \<open>
  C40. A log entry survives the wire: converting it to its protobuf form and back gives the same
  entry, for batches too, and what comes off the wire is a fixed point of the conversion (an
  unknown entry type is normalised to \<^verbatim>\<open>Normal\<close>). The type names of
  \<^verbatim>\<open>EntryType::as_str_name\<close> are parsed back by \<^verbatim>\<open>from_str_name\<close>.
\<close>

theorem wire_roundtrip:
  "map proto_entry_to_log_entry (map log_entry_to_proto_entry es) = es \<and>
   (pe_type w \<in> {0, 1} \<longleftrightarrow> log_entry_to_proto_entry (proto_entry_to_log_entry w) = w) \<and>
   from_str_name (as_str_name t) = Some t"
proof (intro conjI)
  show "map proto_entry_to_log_entry (map log_entry_to_proto_entry es) = es"
    by (simp add: comp_def)
  show "pe_type w \<in> {0, 1} \<longleftrightarrow> log_entry_to_proto_entry (proto_entry_to_log_entry w) = w"
    by (cases w) (auto simp: proto_entry_to_log_entry_def log_entry_to_proto_entry_def
        proto_entry_type_i32_def)
  show "from_str_name (as_str_name t) = Some t"
    by (cases t) (simp_all add: from_str_name_def as_str_name_def)
qed

end
