(* ===== verification/Raft_State.thy ===== *)
theory Raft_State
  imports Raft_Core
begin

text \<open>
  The in-memory Raft state and its transitions
  (\<^verbatim>\<open>src/iceraft-node/src/state.rs\<close>). The hash map \<^verbatim>\<open>progress\<close> is an
  association list with distinct keys, written by \<open>AList.update\<close>; the code only looks keys
  up and counts values, so the order of the list is never observed.
\<close>

subsection \<open>Roles, progress and the state\<close>

datatype RaftRole = Follower | Candidate | Leader

record Progress =
  next_index :: LogIndex
  match_index :: LogIndex
  in_flight :: bool

definition progress_new :: "LogIndex \<Rightarrow> Progress" where
  "progress_new n = \<lparr>next_index = n, match_index = 0, in_flight = False\<rparr>"

record RaftStateMachine =
  current_term :: Term
  voted_for :: "NodeId option"
  role :: RaftRole
  commit_index :: LogIndex
  last_applied :: LogIndex
  leader_id :: "NodeId option"
  progress :: "(NodeId \<times> Progress) list"
  votes_received :: "NodeId set"

definition sm_new :: RaftStateMachine where
  "sm_new = \<lparr>
     current_term = 0,
     voted_for = None,
     role = Follower,
     commit_index = 0,
     last_applied = 0,
     leader_id = None,
     progress = [],
     votes_received = {}\<rparr>"

subsection \<open>Role transitions\<close>

definition become_follower :: "Term \<Rightarrow> NodeId option \<Rightarrow> RaftStateMachine \<Rightarrow> RaftStateMachine" where
  "become_follower t leader s = s\<lparr>
     role := Follower,
     current_term := t,
     voted_for := None,
     leader_id := leader,
     votes_received := {},
     progress := []\<rparr>"

definition become_candidate :: "profile \<Rightarrow> NodeId \<Rightarrow> RaftStateMachine \<Rightarrow> RaftStateMachine option" where
  "become_candidate p self_id s = do {
     t \<leftarrow> u64_add p (current_term s) 1;
     ret (s\<lparr>
       current_term := t,
       role := Candidate,
       voted_for := Some self_id,
       leader_id := None,
       votes_received := {self_id}\<rparr>)
   }"

fun insert_progress ::
  "profile \<Rightarrow> LogIndex \<Rightarrow> NodeId list \<Rightarrow> (NodeId \<times> Progress) list \<Rightarrow>
   (NodeId \<times> Progress) list option" where
  "insert_progress p last_log [] acc = ret acc"
| "insert_progress p last_log (peer # ps) acc = do {
     n \<leftarrow> u64_add p last_log 1;
     insert_progress p last_log ps (AList.update peer (progress_new n) acc)
   }"

definition become_leader ::
  "profile \<Rightarrow> NodeId \<Rightarrow> LogIndex \<Rightarrow> NodeId list \<Rightarrow> RaftStateMachine \<Rightarrow> RaftStateMachine option" where
  "become_leader p self_id last_log ps s = do {
     pr \<leftarrow> insert_progress p last_log ps [];
     ret (s\<lparr>role := Leader, leader_id := Some self_id, progress := pr\<rparr>)
   }"

subsection \<open>The commit rule\<close>

text \<open>How many members are known to hold entry \<open>n\<close>, the leader included.\<close>

definition replicated :: "(NodeId \<times> Progress) list \<Rightarrow> LogIndex \<Rightarrow> nat" where
  "replicated pr n = length (filter (\<lambda>(_, q). n \<le> match_index q) pr) + 1"

text \<open>The loop of \<^verbatim>\<open>maybe_commit\<close>. \<open>n - 1\<close> cannot underflow: the body runs only
  while \<open>n\<close> is above the commit index.\<close>

function maybe_commit_loop ::
  "(NodeId \<times> Progress) list \<Rightarrow> nat \<Rightarrow> Term \<Rightarrow> (LogIndex \<Rightarrow> Term option) \<Rightarrow> LogIndex \<Rightarrow> LogIndex \<Rightarrow>
   LogIndex option" where
  "maybe_commit_loop pr q t term_at commit n =
     (if commit < n then
        (if term_at n \<noteq> Some t then maybe_commit_loop pr q t term_at commit (n - 1)
         else if q \<le> replicated pr n then Some n
         else maybe_commit_loop pr q t term_at commit (n - 1))
      else None)"
  by pat_completeness auto
termination
  by (relation "measure (\<lambda>(pr, q, t, term_at, commit, n). unat n)")
    (simp_all add: u64_pred_less)

declare maybe_commit_loop.simps [simp del]

definition maybe_commit ::
  "nat \<Rightarrow> LogIndex \<Rightarrow> Term \<Rightarrow> (LogIndex \<Rightarrow> Term option) \<Rightarrow> RaftStateMachine \<Rightarrow>
   RaftStateMachine \<times> LogIndex option" where
  "maybe_commit q last_log_index t term_at s =
     (case maybe_commit_loop (progress s) q t term_at (commit_index s) last_log_index of
        Some n \<Rightarrow> (s\<lparr>commit_index := n\<rparr>, Some n)
      | None \<Rightarrow> (s, None))"

end
