(* ===== verification/Raft_Metrics.thy ===== *)
theory Raft_Metrics
  imports Raft_Prelude
begin

text \<open>
  The counters and gauges of \<^verbatim>\<open>src/iceraft-metrics/src/lib.rs\<close>. A Prometheus
  \<^verbatim>\<open>IntCounter\<close> is an atomic \<^verbatim>\<open>u64\<close> that wraps around, an
  \<^verbatim>\<open>IntGauge\<close> holds an \<^verbatim>\<open>i64\<close>. \<^verbatim>\<open>RaftMetrics::new\<close>
  hands out clones of one process-wide set of handles, made on the first call; what the registry
  and the constructors of the \<^verbatim>\<open>prometheus\<close> crate do is an argument. The record
  \<open>RaftMetrics\<close> of a node is what that node has contributed to the shared metrics.
\<close>

subsection \<open>What a node contributes\<close>

record RaftMetrics =
  elections_started :: u64
  votes_granted :: u64
  leader_changes :: u64
  append_entries_received :: u64
  entries_committed :: u64
  snapshots_installed :: u64
  current_term_gauge :: int
  commit_index_gauge :: int

definition metrics_new :: RaftMetrics where
  "metrics_new = \<lparr>
     elections_started = 0,
     votes_granted = 0,
     leader_changes = 0,
     append_entries_received = 0,
     entries_committed = 0,
     snapshots_installed = 0,
     current_term_gauge = 0,
     commit_index_gauge = 0\<rparr>"

text \<open>\<^verbatim>\<open>x as i64\<close> reads a \<^verbatim>\<open>u64\<close> as two's complement.\<close>

definition as_i64 :: "u64 \<Rightarrow> int" where
  "as_i64 x = sint x"

subsection \<open>The shared handles\<close>

record ('c, 'g) MetricHandles =
  elections_started_handle :: 'c
  votes_granted_handle :: 'c
  leader_changes_handle :: 'c
  append_entries_received_handle :: 'c
  entries_committed_handle :: 'c
  snapshots_installed_handle :: 'c
  current_term_handle :: 'g
  commit_index_handle :: 'g

text \<open>The library: registering a metric in the registry (\<open>None\<close>: an error, for instance because
  the name is taken), and making one that is not registered (\<open>None\<close>: an error, on which the
  code panics).\<close>

record ('reg, 'c, 'g) Prometheus =
  register_int_counter :: "'reg \<Rightarrow> string \<Rightarrow> string \<Rightarrow> 'reg \<times> 'c option"
  register_int_gauge :: "'reg \<Rightarrow> string \<Rightarrow> string \<Rightarrow> 'reg \<times> 'g option"
  int_counter_new :: "string \<Rightarrow> string \<Rightarrow> 'c option"
  int_gauge_new :: "string \<Rightarrow> string \<Rightarrow> 'g option"

definition counter_or_new ::
  "('reg, 'c, 'g) Prometheus \<Rightarrow> 'reg \<Rightarrow> string \<Rightarrow> string \<Rightarrow> ('reg \<times> 'c) option" where
  "counter_or_new P reg name help = (case register_int_counter P reg name help of
     (reg', Some c) \<Rightarrow> Some (reg', c)
   | (reg', None) \<Rightarrow> map_option (Pair reg') (int_counter_new P name help))"

definition gauge_or_new ::
  "('reg, 'c, 'g) Prometheus \<Rightarrow> 'reg \<Rightarrow> string \<Rightarrow> string \<Rightarrow> ('reg \<times> 'g) option" where
  "gauge_or_new P reg name help = (case register_int_gauge P reg name help of
     (reg', Some g) \<Rightarrow> Some (reg', g)
   | (reg', None) \<Rightarrow> map_option (Pair reg') (int_gauge_new P name help))"

definition register_metrics ::
  "('reg, 'c, 'g) Prometheus \<Rightarrow> 'reg \<Rightarrow> ('reg \<times> ('c, 'g) MetricHandles) option" where
  "register_metrics P reg = do {
     (reg, a) \<leftarrow> counter_or_new P reg ''raft_elections_started_total''
       ''Total number of elections started by this node'';
     (reg, b) \<leftarrow> counter_or_new P reg ''raft_votes_granted_total''
       ''Total number of votes granted to peers'';
     (reg, c) \<leftarrow> counter_or_new P reg ''raft_leader_changes_total''
       ''Total number of times this node became leader'';
     (reg, d) \<leftarrow> counter_or_new P reg ''raft_append_entries_received_total''
       ''Total AppendEntries RPCs received'';
     (reg, e) \<leftarrow> counter_or_new P reg ''raft_entries_committed_total''
       ''Total log entries committed'';
     (reg, f) \<leftarrow> counter_or_new P reg ''raft_snapshots_installed_total''
       ''Total snapshots installed from leader'';
     (reg, g) \<leftarrow> gauge_or_new P reg ''raft_current_term''
       ''Current Raft term'';
     (reg, h) \<leftarrow> gauge_or_new P reg ''raft_commit_index''
       ''Current commit index'';
     ret (reg, \<lparr>elections_started_handle = a,
       votes_granted_handle = b,
       leader_changes_handle = c,
       append_entries_received_handle = d,
       entries_committed_handle = e,
       snapshots_installed_handle = f,
       current_term_handle = g,
       commit_index_handle = h\<rparr>)
   }"

text \<open>\<^verbatim>\<open>GLOBAL_METRICS\<close> is initialised on first use; \<^verbatim>\<open>new\<close> and
  \<^verbatim>\<open>default\<close> clone the handles.\<close>

record ('reg, 'c, 'g) MetricsProcess =
  registry :: 'reg
  global_metrics :: "('c, 'g) MetricHandles option"

definition metrics_handles ::
  "('reg, 'c, 'g) Prometheus \<Rightarrow> ('reg, 'c, 'g) MetricsProcess \<Rightarrow>
   (('reg, 'c, 'g) MetricsProcess \<times> ('c, 'g) MetricHandles) option" where
  "metrics_handles P st = (case global_metrics st of
     Some m \<Rightarrow> ret (st, m)
   | None \<Rightarrow> do {
       (reg, m) \<leftarrow> register_metrics P (registry st);
       ret (\<lparr>registry = reg, global_metrics = Some m\<rparr>, m)
     })"

text \<open>The nodes of a process, each asking for its metrics.\<close>

fun start_metrics ::
  "('reg, 'c, 'g) Prometheus \<Rightarrow> nat \<Rightarrow> ('reg, 'c, 'g) MetricsProcess \<Rightarrow>
   (('reg, 'c, 'g) MetricsProcess \<times> ('c, 'g) MetricHandles list) option" where
  "start_metrics P 0 st = ret (st, [])"
| "start_metrics P (Suc n) st = do {
     (st', m) \<leftarrow> metrics_handles P st;
     (st'', ms) \<leftarrow> start_metrics P n st';
     ret (st'', m # ms)
   }"

lemma metrics_handles_again:
  "metrics_handles P st = Some (st', m) \<Longrightarrow> global_metrics st' = Some m"
  by (auto simp: metrics_handles_def elim!: bind_SomeE split: option.splits)

lemma start_metrics_shared:
  "global_metrics st = Some m \<Longrightarrow> start_metrics P n st = Some (st, replicate n m)"
  by (induction n) (simp_all add: metrics_handles_def)

text \<open>All nodes of a process share one set of metrics, registered once, although the documentation
  of the type says that they are those of a single node.\<close>

theorem metrics_shared_by_process:
  assumes "start_metrics P (Suc n) st = Some (st', ms)"
  shows "\<exists>m. ms = replicate (Suc n) m \<and> metrics_handles P st = Some (st', m)"
proof -
  obtain st1 m where m: "metrics_handles P st = Some (st1, m)"
    using assms by (auto elim!: bind_SomeE)
  then show ?thesis
    using assms start_metrics_shared [OF metrics_handles_again [OF m], of P n] by simp
qed

end
