(* ===== verification/Raft_Node.thy ===== *)
theory Raft_Node
  imports Raft_Storage Raft_Proto Raft_State Raft_Metrics
begin

text \<open>
  The node: \<^verbatim>\<open>RaftNodeInner\<close> and its methods
  (\<^verbatim>\<open>src/iceraft-node/src/node.rs\<close>), generic in the storage backend as the code is.
  Every method runs under the node's mutex, so it is one function from the state before to the
  state after (and the response); \<open>None\<close> is a panic.

  The effects that leave the node are logs in its state, in the order the code produces them:
  \<^item> \<open>spawned\<close>: the RPC tasks handed to \<^verbatim>\<open>tokio::spawn\<close>. A task sends its
    request through the transport and, if a response comes back, queues it for the event loop.
  \<^item> \<open>sent\<close>: what is sent on one-shot channels to waiting callers.
  \<^item> \<open>applied\<close>: the entries sent on \<^verbatim>\<open>apply_tx\<close>.
  Logging is not modelled.
\<close>

subsection \<open>State\<close>

datatype RpcTask =
    VoteTask NodeId RequestVoteRequest
  | AppendTask NodeId LogIndex AppendEntriesRequest
  | SnapshotTask NodeId LogIndex InstallSnapshotRequest

datatype Reply =
    ProposeReply "LogIndex result"
  | ReadIndexReply "LogIndex result"
  | LeaderReply "NodeId option"
  | TermReply Term

record 's RaftNodeInner =
  sm :: RaftStateMachine
  config :: RaftConfig
  storage :: 's
  metrics :: RaftMetrics
  pending :: "(LogIndex \<times> oneshot) list"
  snapshot_buf :: "(SnapshotMetadata \<times> u8 list) option"
  spawned :: "RpcTask list"
  sent :: "(oneshot \<times> Reply) list"
  applied :: "LogEntry list"

definition node_new :: "RaftConfig \<Rightarrow> 's \<Rightarrow> 's RaftNodeInner" where
  "node_new cfg st = \<lparr>
     sm = sm_new,
     config = cfg,
     storage = st,
     metrics = metrics_new,
     pending = [],
     snapshot_buf = None,
     spawned = [],
     sent = [],
     applied = []\<rparr>"

abbreviation upd_sm :: "(RaftStateMachine \<Rightarrow> RaftStateMachine) \<Rightarrow> 's RaftNodeInner \<Rightarrow> 's RaftNodeInner" where
  "upd_sm \<equiv> sm_update"

abbreviation upd_metrics :: "(RaftMetrics \<Rightarrow> RaftMetrics) \<Rightarrow> 's RaftNodeInner \<Rightarrow> 's RaftNodeInner" where
  "upd_metrics \<equiv> metrics_update"

subsection \<open>Helpers\<close>

definition hard_state_of :: "RaftStateMachine \<Rightarrow> HardState" where
  "hard_state_of s = \<lparr>
     hs_term = current_term s,
     hs_vote = (case voted_for s of None \<Rightarrow> 0 | Some v \<Rightarrow> v),
     hs_commit = commit_index s\<rparr>"

text \<open>A failed save is only logged.\<close>

definition node_save_hard_state :: "'s Storage \<Rightarrow> 's RaftNodeInner \<Rightarrow> 's RaftNodeInner option" where
  "node_save_hard_state S g = do {
     (st, _) \<leftarrow> save_hard_state S (storage g) (hard_state_of (sm g));
     ret (upd_metrics (\<lambda>m. m\<lparr>current_term_gauge := as_i64 (current_term (sm g))\<rparr>)
       (g\<lparr>storage := st\<rparr>))
   }"

text \<open>The index of the last entry and its term, as both sides of an election read them.\<close>

definition last_index_or_0 :: "'s Storage \<Rightarrow> 's \<Rightarrow> LogIndex option" where
  "last_index_or_0 S st = do { r \<leftarrow> last_index S st; ret (unwrap_or r 0) }"

definition term_or_0 :: "'s Storage \<Rightarrow> 's \<Rightarrow> LogIndex \<Rightarrow> Term option" where
  "term_or_0 S st i =
     (if 0 < i then do { r \<leftarrow> log_term S st i; ret (unwrap_or r 0) } else ret 0)"

text \<open>The binary search of \<^verbatim>\<open>first_index_of_term\<close>.\<close>

function first_index_loop ::
  "profile \<Rightarrow> 's Storage \<Rightarrow> 's \<Rightarrow> Term \<Rightarrow> LogIndex \<Rightarrow> LogIndex \<Rightarrow> LogIndex option" where
  "first_index_loop p S st t lo hi =
     (if lo < hi then do {
        d \<leftarrow> u64_sub p hi lo;
        mid \<leftarrow> u64_add p lo (d div 2);
        r \<leftarrow> log_term S st mid;
        (case r of
           Inr t' \<Rightarrow>
             if t' < t then do {
               lo' \<leftarrow> u64_add p mid 1;
               first_index_loop p S st t lo' hi
             }
             else first_index_loop p S st t lo mid
         | Inl _ \<Rightarrow> first_index_loop p S st t lo mid)
      }
      else ret lo)"
  by pat_completeness auto

lemma first_index_mid:
  assumes "lo < hi" "u64_sub p hi lo = Some d" "u64_add p lo (d div 2) = Some mid"
  shows "unat mid = unat lo + (unat hi - unat lo) div 2" "lo \<le> mid" "mid < hi"
    "u64_add p mid 1 = Some (mid + 1)" "unat (mid + 1) = unat mid + 1"
proof -
  have d: "d = hi - lo" "unat d = unat hi - unat lo"
    using assms(1,2) by (auto simp: u64_sub_exact unat_u64_sub order.strict_implies_order)
  have lh: "unat lo < unat hi" and hb: "unat hi < 2 ^ 64"
    using assms(1) u64_range [of hi] by (simp_all add: word_less_nat_alt)
  have half: "unat (d div 2) = (unat hi - unat lo) div 2"
    using d(2) by (simp add: unat_div)
  have nov: "unat lo + unat (d div 2) < 2 ^ 64"
    using half lh hb by linarith
  then have mid: "mid = lo + d div 2"
    using assms(3) by (simp add: u64_add_exact)
  show m: "unat mid = unat lo + (unat hi - unat lo) div 2"
    using unat_u64_add [OF nov] half mid by simp
  then show "lo \<le> mid" "mid < hi"
    using lh by (simp_all add: word_le_nat_alt word_less_nat_alt)
  have "unat mid < 2 ^ 64 - 1"
    using m lh hb by linarith
  then show "u64_add p mid 1 = Some (mid + 1)" "unat (mid + 1) = unat mid + 1"
    using u64_succ by simp_all
qed

lemma first_index_decreases:
  assumes "lo < hi" "u64_sub p hi lo = Some d" "u64_add p lo (d div 2) = Some mid"
  shows "unat mid - unat lo < unat hi - unat lo"
    and "u64_add p mid 1 = Some lo' \<Longrightarrow> unat hi - unat lo' < unat hi - unat lo"
  using first_index_mid(2-5) [OF assms]
  by (auto simp: word_le_nat_alt word_less_nat_alt)

termination first_index_loop
  by (relation "measure (\<lambda>(p, S, st, t, lo, hi). unat hi - unat lo)")
    (simp_all only: wf_measure in_measure prod.case first_index_decreases)

declare first_index_loop.simps [simp del]

definition first_index_of_term ::
  "profile \<Rightarrow> 's Storage \<Rightarrow> 's \<Rightarrow> Term \<Rightarrow> LogIndex \<Rightarrow> LogIndex option" where
  "first_index_of_term p S st t upper = do {
     r \<leftarrow> first_index S st;
     first_index_loop p S st t (unwrap_or r 1) upper
   }"

subsection \<open>Replication\<close>

text \<open>The tail of \<^verbatim>\<open>replicate_to\<close>: build the request and spawn the task that
  sends it.\<close>

definition spawn_append ::
  "profile \<Rightarrow> 's RaftNodeInner \<Rightarrow> NodeId \<Rightarrow> LogIndex \<Rightarrow> Term \<Rightarrow> ProtoEntry list \<Rightarrow>
   's RaftNodeInner option" where
  "spawn_append p g peer prev prev_term es = do {
     req_last_index \<leftarrow> u64_add p prev (of_nat (length es));
     ret (g\<lparr>spawned := spawned g @ [AppendTask peer req_last_index \<lparr>
       ae_term = current_term (sm g),
       ae_leader_id = cfg_id (config g),
       prev_log_index = prev,
       prev_log_term = prev_term,
       ae_entries = es,
       leader_commit = commit_index (sm g)\<rparr>]\<rparr>)
   }"

definition send_snapshot_to :: "'s Storage \<Rightarrow> 's RaftNodeInner \<Rightarrow> NodeId \<Rightarrow> 's RaftNodeInner option" where
  "send_snapshot_to S g peer = do {
     r \<leftarrow> get_snapshot S (storage g);
     (case r of
        Inr (Some sn) \<Rightarrow>
          ret (g\<lparr>spawned := spawned g @ [SnapshotTask peer (last_included_index (metadata sn)) \<lparr>
            is_term = current_term (sm g),
            is_leader_id = cfg_id (config g),
            is_last_included_index = last_included_index (metadata sn),
            is_last_included_term = last_included_term (metadata sn),
            is_offset = 0,
            is_data = snap_data sn,
            is_done = True\<rparr>]\<rparr>)
      | Inr None \<Rightarrow> ret g
      | Inl _ \<Rightarrow> ret g)
   }"

definition replicate_to ::
  "profile \<Rightarrow> 's Storage \<Rightarrow> 's RaftNodeInner \<Rightarrow> NodeId \<Rightarrow> 's RaftNodeInner option" where
  "replicate_to p S g peer =
     (case map_of (progress (sm g)) peer of
        None \<Rightarrow> ret g
      | Some pr \<Rightarrow> do {
          prev \<leftarrow> u64_sub p (next_index pr) 1;
          prev_term \<leftarrow> term_or_0 S (storage g) prev;
          last_idx \<leftarrow> last_index_or_0 S (storage g);
          if next_index pr \<le> last_idx then do {
            hi \<leftarrow> u64_add p last_idx 1;
            cap \<leftarrow> u64_mul p (max_append_entries (config g)) 4096;
            r \<leftarrow> log_entries S (storage g) (next_index pr) hi (Some cap);
            (case r of
               Inr es \<Rightarrow> spawn_append p g peer prev prev_term (map log_entry_to_proto_entry es)
             | Inl (LogCompacted _ _) \<Rightarrow> send_snapshot_to S g peer
             | Inl _ \<Rightarrow> ret g)
          }
          else spawn_append p g peer prev prev_term []
        })"

fun replicate_peers ::
  "profile \<Rightarrow> 's Storage \<Rightarrow> NodeId list \<Rightarrow> 's RaftNodeInner \<Rightarrow> 's RaftNodeInner option" where
  "replicate_peers p S [] g = ret g"
| "replicate_peers p S (peer # ps) g = do {
     g' \<leftarrow> replicate_to p S g peer;
     replicate_peers p S ps g'
   }"

definition replicate_all :: "profile \<Rightarrow> 's Storage \<Rightarrow> 's RaftNodeInner \<Rightarrow> 's RaftNodeInner option" where
  "replicate_all p S g =
     (if role (sm g) \<noteq> Leader then ret g else replicate_peers p S (peers (config g)) g)"

subsection \<open>RPC handlers\<close>

text \<open>The common first step of every handler: a higher term makes the node a follower, and
  the new hard state is saved.\<close>

definition observe_term ::
  "'s Storage \<Rightarrow> Term \<Rightarrow> NodeId option \<Rightarrow> 's RaftNodeInner \<Rightarrow> 's RaftNodeInner option" where
  "observe_term S t leader g =
     (if current_term (sm g) < t
      then node_save_hard_state S (upd_sm (become_follower t leader) g)
      else ret g)"

definition reject :: "u64 \<Rightarrow> u64 \<Rightarrow> u64 \<Rightarrow> AppendEntriesResponse" where
  "reject ci ct t = \<lparr>aer_term = t, success = False, conflict_index = ci, conflict_term = ct\<rparr>"

text \<open>The consistency check on the previous entry: \<open>Some\<close> response when the request is
  rejected.\<close>

definition check_prev ::
  "profile \<Rightarrow> 's Storage \<Rightarrow> 's RaftNodeInner \<Rightarrow> AppendEntriesRequest \<Rightarrow>
   AppendEntriesResponse option option" where
  "check_prev p S g req =
     (if 0 < prev_log_index req then do {
        our_term \<leftarrow> log_term S (storage g) (prev_log_index req);
        (case our_term of
           Inl (LogCompacted _ _) \<Rightarrow> ret None
         | Inl _ \<Rightarrow> ret (Some (reject (prev_log_index req) 0 (current_term (sm g))))
         | Inr t \<Rightarrow>
             if t \<noteq> prev_log_term req then do {
               ci \<leftarrow> first_index_of_term p S (storage g) t (prev_log_index req);
               ret (Some (reject ci t (current_term (sm g))))
             }
             else ret None)
      }
      else ret None)"

definition accept_entries ::
  "'s Storage \<Rightarrow> 's RaftNodeInner \<Rightarrow> AppendEntriesRequest \<Rightarrow>
   ('s RaftNodeInner \<times> AppendEntriesResponse result) option" where
  "accept_entries S g req = do {
     (st, r) \<leftarrow>
       (if ae_entries req \<noteq> []
        then append_entries S (storage g) (map proto_entry_to_log_entry (ae_entries req))
        else ret (storage g, Inr ()));
     (case r of
        Inl e \<Rightarrow> ret (g\<lparr>storage := st\<rparr>, Inl e)
      | Inr _ \<Rightarrow> do {
          g' \<leftarrow>
            (if commit_index (sm g) < leader_commit req then do {
               last_idx \<leftarrow> last_index_or_0 S st;
               node_save_hard_state S
                 (upd_sm (\<lambda>s. s\<lparr>commit_index := min (leader_commit req) last_idx\<rparr>)
                   (g\<lparr>storage := st\<rparr>))
             }
             else ret (g\<lparr>storage := st\<rparr>));
          ret (upd_metrics
                 (\<lambda>m. m\<lparr>append_entries_received := append_entries_received m + 1\<rparr>) g',
            Inr \<lparr>aer_term = current_term (sm g'), success = True,
              conflict_index = 0, conflict_term = 0\<rparr>)
        })
   }"

definition on_append_entries ::
  "profile \<Rightarrow> 's Storage \<Rightarrow> 's RaftNodeInner \<Rightarrow> AppendEntriesRequest \<Rightarrow>
   ('s RaftNodeInner \<times> AppendEntriesResponse result) option" where
  "on_append_entries p S g req = do {
     g1 \<leftarrow> observe_term S (ae_term req) (Some (ae_leader_id req)) g;
     if ae_term req < current_term (sm g1)
     then ret (g1, Inr (reject 0 0 (current_term (sm g1))))
     else do {
       let g2 = upd_sm (\<lambda>s. s\<lparr>leader_id := Some (ae_leader_id req)\<rparr>) g1;
       rejected \<leftarrow> check_prev p S g2 req;
       (case rejected of
          Some resp \<Rightarrow> ret (g2, Inr resp)
        | None \<Rightarrow> accept_entries S g2 req)
     }
   }"

definition on_request_vote ::
  "'s Storage \<Rightarrow> 's RaftNodeInner \<Rightarrow> RequestVoteRequest \<Rightarrow>
   ('s RaftNodeInner \<times> RequestVoteResponse result) option" where
  "on_request_vote S g req = do {
     g1 \<leftarrow> observe_term S (rv_term req) None g;
     let deny = \<lparr>rvr_term = current_term (sm g1), vote_granted = False\<rparr>;
     if rv_term req < current_term (sm g1) then ret (g1, Inr deny)
     else if (case voted_for (sm g1) of None \<Rightarrow> False | Some v \<Rightarrow> v \<noteq> candidate_id req)
     then ret (g1, Inr deny)
     else do {
       our_last_index \<leftarrow> last_index_or_0 S (storage g1);
       our_last_term \<leftarrow> term_or_0 S (storage g1) our_last_index;
       if \<not> (our_last_term < last_log_term req \<or>
             last_log_term req = our_last_term \<and> our_last_index \<le> last_log_index req)
       then ret (g1, Inr deny)
       else do {
         g2 \<leftarrow> node_save_hard_state S
           (upd_sm (\<lambda>s. s\<lparr>voted_for := Some (candidate_id req)\<rparr>) g1);
         ret (upd_metrics (\<lambda>m. m\<lparr>votes_granted := votes_granted m + 1\<rparr>) g2,
           Inr \<lparr>rvr_term = current_term (sm g2), vote_granted = True\<rparr>)
       }
     }
   }"

text \<open>The chunk is appended to the buffer, which is opened with the metadata of the first
  chunk.\<close>

definition buffer_chunk ::
  "(SnapshotMetadata \<times> u8 list) option \<Rightarrow> InstallSnapshotRequest \<Rightarrow> SnapshotMetadata \<times> u8 list" where
  "buffer_chunk b req =
     (let (meta, buf) = (case b of
          Some mb \<Rightarrow> mb
        | None \<Rightarrow> (\<lparr>sm_index = is_last_included_index req, sm_term = is_last_included_term req,
            sm_conf_nodes = []\<rparr>, []))
      in (meta, buf @ is_data req))"

definition finish_snapshot ::
  "'s Storage \<Rightarrow> 's RaftNodeInner \<Rightarrow> SnapshotMetadata \<Rightarrow> u8 list \<Rightarrow> LogIndex \<Rightarrow>
   ('s RaftNodeInner \<times> InstallSnapshotResponse result) option" where
  "finish_snapshot S g meta buf req_index = do {
     (st, r) \<leftarrow> apply_snapshot S (storage g) \<lparr>
       snap_data = buf,
       metadata = \<lparr>last_included_index = sm_index meta, last_included_term = sm_term meta,
         conf_nodes = sm_conf_nodes meta\<rparr>\<rparr>;
     (case r of
        Inl e \<Rightarrow> ret (g\<lparr>storage := st\<rparr>, Inl e)
      | Inr _ \<Rightarrow> do {
          g' \<leftarrow> node_save_hard_state S (upd_sm (\<lambda>s. s\<lparr>
              commit_index := max (commit_index s) req_index,
              last_applied := max (last_applied s) req_index\<rparr>)
            (g\<lparr>storage := st, snapshot_buf := None\<rparr>));
          ret (upd_metrics (\<lambda>m. m\<lparr>snapshots_installed := snapshots_installed m + 1\<rparr>) g',
            Inr \<lparr>isr_term = current_term (sm g')\<rparr>)
        })
   }"

definition on_install_snapshot ::
  "'s Storage \<Rightarrow> 's RaftNodeInner \<Rightarrow> InstallSnapshotRequest \<Rightarrow>
   ('s RaftNodeInner \<times> InstallSnapshotResponse result) option" where
  "on_install_snapshot S g req = do {
     g1 \<leftarrow> observe_term S (is_term req) (Some (is_leader_id req)) g;
     if is_term req < current_term (sm g1)
     then ret (g1, Inr \<lparr>isr_term = current_term (sm g1)\<rparr>)
     else do {
       let (meta, buf) = buffer_chunk (snapshot_buf g1) req;
       let g2 = g1\<lparr>snapshot_buf := Some (meta, buf)\<rparr>;
       if is_done req then finish_snapshot S g2 meta buf (is_last_included_index req)
       else ret (g2, Inr \<lparr>isr_term = current_term (sm g2)\<rparr>)
     }
   }"

subsection \<open>Proposals\<close>

definition send_opt :: "oneshot option \<Rightarrow> Reply \<Rightarrow> 's RaftNodeInner \<Rightarrow> 's RaftNodeInner" where
  "send_opt tx r g = (case tx of None \<Rightarrow> g | Some c \<Rightarrow> g\<lparr>sent := sent g @ [(c, r)]\<rparr>)"

definition on_proposal ::
  "profile \<Rightarrow> 's Storage \<Rightarrow> 's RaftNodeInner \<Rightarrow> Proposal \<Rightarrow> 's RaftNodeInner option" where
  "on_proposal p S g pr =
     (if role (sm g) \<noteq> Leader
      then ret (send_opt (prop_tx pr) (ProposeReply (Inl (NotLeader (leader_id (sm g))))) g)
      else do {
        last_idx \<leftarrow> last_index_or_0 S (storage g);
        new_index \<leftarrow> u64_add p last_idx 1;
        (st, r) \<leftarrow> append_entries S (storage g) [\<lparr>
          le_term = current_term (sm g),
          le_index = new_index,
          le_data = prop_data pr,
          le_type = Normal\<rparr>];
        let g1 = g\<lparr>storage := st\<rparr>;
        (case r of
           Inl e \<Rightarrow> ret (send_opt (prop_tx pr) (ProposeReply (Inl e)) g1)
         | Inr _ \<Rightarrow>
             replicate_all p S (case prop_tx pr of
                 None \<Rightarrow> g1
               | Some c \<Rightarrow> g1\<lparr>pending := pending g1 @ [(new_index, c)]\<rparr>))
      })"

subsection \<open>Elections\<close>

text \<open>Winning an election, from \<^verbatim>\<open>start_election\<close> (a cluster of one) or from a vote
  response.\<close>

definition win_election :: "profile \<Rightarrow> 's Storage \<Rightarrow> 's RaftNodeInner \<Rightarrow> 's RaftNodeInner option" where
  "win_election p S g = do {
     last_idx \<leftarrow> last_index_or_0 S (storage g);
     s \<leftarrow> become_leader p (cfg_id (config g)) last_idx (peers (config g)) (sm g);
     replicate_all p S
       (upd_metrics (\<lambda>m. m\<lparr>leader_changes := leader_changes m + 1\<rparr>) (g\<lparr>sm := s\<rparr>))
   }"

definition start_election :: "profile \<Rightarrow> 's Storage \<Rightarrow> 's RaftNodeInner \<Rightarrow> 's RaftNodeInner option" where
  "start_election p S g = do {
     s \<leftarrow> become_candidate p (cfg_id (config g)) (sm g);
     g1 \<leftarrow> node_save_hard_state S (g\<lparr>sm := s\<rparr>);
     last_idx \<leftarrow> last_index_or_0 S (storage g1);
     last_term \<leftarrow> term_or_0 S (storage g1) last_idx;
     let req = \<lparr>
       rv_term = current_term (sm g1),
       candidate_id = cfg_id (config g1),
       last_log_index = last_idx,
       last_log_term = last_term,
       pre_vote = False\<rparr>;
     let g2 = (upd_metrics (\<lambda>m. m\<lparr>elections_started := elections_started m + 1\<rparr>) g1)\<lparr>
       spawned := spawned g1 @ map (\<lambda>peer. VoteTask peer req) (peers (config g1))\<rparr>;
     if quorum (config g2) \<le> card (votes_received (sm g2)) \<and> role (sm g2) = Candidate
     then win_election p S g2
     else ret g2
   }"

definition handle_vote_response ::
  "profile \<Rightarrow> 's Storage \<Rightarrow> 's RaftNodeInner \<Rightarrow> NodeId \<Rightarrow> RequestVoteResponse \<Rightarrow>
   's RaftNodeInner option" where
  "handle_vote_response p S g peer resp =
     (if current_term (sm g) < rvr_term resp then observe_term S (rvr_term resp) None g
      else if vote_granted resp \<and> role (sm g) = Candidate then
        (let g1 = upd_sm (\<lambda>s. s\<lparr>votes_received := insert peer (votes_received s)\<rparr>) g in
         if quorum (config g1) \<le> card (votes_received (sm g1)) then win_election p S g1
         else ret g1)
      else ret g)"

subsection \<open>Commit and apply\<close>

text \<open>The count of replicas in \<^verbatim>\<open>maybe_advance_commit\<close>, which repeats the one of
  \<^verbatim>\<open>maybe_commit\<close>.\<close>

definition scan_replicated :: "(NodeId \<times> Progress) list \<Rightarrow> LogIndex \<Rightarrow> nat" where
  "scan_replicated pr n = length (filter (\<lambda>pr. n \<le> match_index pr) (map snd pr)) + 1"

lemma scan_replicated_eq [simp]: "scan_replicated pr n = replicated pr n"
  by (simp add: scan_replicated_def replicated_def filter_map comp_def case_prod_unfold)

text \<open>The downward scan of \<^verbatim>\<open>maybe_advance_commit\<close>: the new commit index, or the old
  one. As in \<open>maybe_commit_loop\<close>, \<open>n - 1\<close> cannot underflow.\<close>

function commit_scan ::
  "'s Storage \<Rightarrow> 's \<Rightarrow> (NodeId \<times> Progress) list \<Rightarrow> nat \<Rightarrow> Term \<Rightarrow> LogIndex \<Rightarrow> LogIndex \<Rightarrow>
   LogIndex option" where
  "commit_scan S st pr q t commit n =
     (if commit < n then do {
        r \<leftarrow> log_term S st n;
        if unwrap_or r 0 = t \<and> q \<le> scan_replicated pr n then ret n
        else commit_scan S st pr q t commit (n - 1)
      }
      else ret commit)"
  by pat_completeness auto
termination
  by (relation "measure (\<lambda>(S, st, pr, q, t, commit, n). unat n)") (simp_all add: u64_pred_less)

declare commit_scan.simps [simp del]

lemmas commit_scan_unfold = commit_scan.simps [unfolded scan_replicated_eq]

definition notify_pending :: "'s RaftNodeInner \<Rightarrow> 's RaftNodeInner" where
  "notify_pending g =
     (let commit = commit_index (sm g) in
      g\<lparr>pending := filter (\<lambda>(i, _). \<not> i \<le> commit) (pending g),
        sent := sent g @ map (\<lambda>(i, c). (c, ProposeReply (Inr i)))
          (filter (\<lambda>(i, _). i \<le> commit) (pending g))\<rparr>)"

definition maybe_advance_commit ::
  "profile \<Rightarrow> 's Storage \<Rightarrow> 's RaftNodeInner \<Rightarrow> 's RaftNodeInner option" where
  "maybe_advance_commit p S g =
     (if role (sm g) \<noteq> Leader then ret g
      else do {
        last_idx \<leftarrow> last_index_or_0 S (storage g);
        new_commit \<leftarrow> commit_scan S (storage g) (progress (sm g)) (quorum (config g))
          (current_term (sm g)) (commit_index (sm g)) last_idx;
        g1 \<leftarrow>
          (if commit_index (sm g) < new_commit then do {
             g' \<leftarrow> node_save_hard_state S (upd_sm (\<lambda>s. s\<lparr>commit_index := new_commit\<rparr>) g);
             d \<leftarrow> u64_sub p new_commit (last_applied (sm g'));
             ret (upd_metrics (\<lambda>m. m\<lparr>
               entries_committed := entries_committed m + d,
               commit_index_gauge := as_i64 new_commit\<rparr>) g')
           }
           else ret g);
        ret (notify_pending g1)
      })"

definition apply_entry :: "LogEntry \<Rightarrow> 's RaftNodeInner \<Rightarrow> 's RaftNodeInner" where
  "apply_entry e g =
     upd_sm (\<lambda>s. s\<lparr>last_applied := le_index e\<rparr>) (g\<lparr>applied := applied g @ [e]\<rparr>)"

definition apply_committed ::
  "profile \<Rightarrow> 's Storage \<Rightarrow> 's RaftNodeInner \<Rightarrow> 's RaftNodeInner option" where
  "apply_committed p S g = do {
     from_idx \<leftarrow> u64_add p (last_applied (sm g)) 1;
     let to_idx = commit_index (sm g);
     if to_idx < from_idx then ret g
     else do {
       hi \<leftarrow> u64_add p to_idx 1;
       r \<leftarrow> log_entries S (storage g) from_idx hi None;
       (case r of
          Inr es \<Rightarrow> ret (fold apply_entry es g)
        | Inl _ \<Rightarrow> ret g)
     }
   }"

subsection \<open>Responses to replication\<close>

text \<open>What a response does to the progress of its peer. A node that is no longer tracked is
  ignored.\<close>

definition progress_on_success :: "profile \<Rightarrow> LogIndex \<Rightarrow> Progress \<Rightarrow> Progress option" where
  "progress_on_success p req_last_index pr = do {
     let m = max (match_index pr) req_last_index;
     n \<leftarrow> u64_add p m 1;
     ret (pr\<lparr>match_index := m, next_index := n, in_flight := False\<rparr>)
   }"

definition progress_on_append ::
  "profile \<Rightarrow> LogIndex \<Rightarrow> AppendEntriesResponse \<Rightarrow> Progress \<Rightarrow> Progress option" where
  "progress_on_append p req_last_index resp pr =
     (if success resp then progress_on_success p req_last_index pr
      else if 0 < conflict_index resp then ret (pr\<lparr>next_index := conflict_index resp\<rparr>)
      else ret (pr\<lparr>next_index := max (saturating_sub (next_index pr) 1) 1\<rparr>))"

definition with_progress ::
  "NodeId \<Rightarrow> (Progress \<Rightarrow> Progress option) \<Rightarrow> 's RaftNodeInner \<Rightarrow> 's RaftNodeInner option" where
  "with_progress peer f g =
     (case map_of (progress (sm g)) peer of
        None \<Rightarrow> ret g
      | Some pr \<Rightarrow> do {
          pr' \<leftarrow> f pr;
          ret (upd_sm (\<lambda>s. s\<lparr>progress := AList.update peer pr' (progress s)\<rparr>) g)
        })"

definition handle_append_response ::
  "profile \<Rightarrow> 's Storage \<Rightarrow> 's RaftNodeInner \<Rightarrow> NodeId \<Rightarrow> LogIndex \<Rightarrow> AppendEntriesResponse \<Rightarrow>
   's RaftNodeInner option" where
  "handle_append_response p S g peer req_last_index resp =
     (if current_term (sm g) < aer_term resp then observe_term S (aer_term resp) None g
      else if role (sm g) \<noteq> Leader then ret g
      else do {
        g1 \<leftarrow> with_progress peer (progress_on_append p req_last_index resp) g;
        maybe_advance_commit p S g1
      })"

definition handle_snapshot_response ::
  "profile \<Rightarrow> 's Storage \<Rightarrow> 's RaftNodeInner \<Rightarrow> NodeId \<Rightarrow> LogIndex \<Rightarrow> InstallSnapshotResponse \<Rightarrow>
   's RaftNodeInner option" where
  "handle_snapshot_response p S g peer req_last_index resp =
     (if current_term (sm g) < isr_term resp then observe_term S (isr_term resp) None g
      else if role (sm g) \<noteq> Leader then ret g
      else do {
        g1 \<leftarrow> with_progress peer (progress_on_success p req_last_index) g;
        maybe_advance_commit p S g1
      })"

end
