(* ===== verification/Raft_Loop.thy ===== *)
theory Raft_Loop
  imports Raft_Node
begin

text \<open>
  The event loop of a node and its public interface
  (\<^verbatim>\<open>src/iceraft-node/src/message.rs\<close>, \<^verbatim>\<open>run_event_loop\<close> and
  \<^verbatim>\<open>RaftNode\<close> in \<^verbatim>\<open>src/iceraft-node/src/node.rs\<close>).

  A running node is its lock-protected inner state, the queue of its unbounded channel and
  the two deadlines that are local variables of the loop. Instants are natural numbers
  (milliseconds). The random election timeout is an argument: what
  \<^verbatim>\<open>gen_range(min..=max)\<close> returned; an empty range panics, as the \<^verbatim>\<open>rand\<close>
  crate documents.
\<close>

subsection \<open>Messages\<close>

datatype RaftMessage =
    Propose Proposal
  | ReadIndex oneshot
  | TransferLeader NodeId
  | GetLeader oneshot
  | GetTerm oneshot
  | TriggerSnapshot LogIndex
  | ShutdownMsg
  | AppendResponse NodeId LogIndex AppendEntriesResponse
  | VoteResponse NodeId RequestVoteResponse
  | SnapshotResponse NodeId LogIndex InstallSnapshotResponse

text \<open>The message arm of the loop: the new inner state, and whether the loop goes on.\<close>

fun handle_message ::
  "profile \<Rightarrow> 's Storage \<Rightarrow> 's RaftNodeInner \<Rightarrow> RaftMessage \<Rightarrow> ('s RaftNodeInner \<times> bool) option" where
  "handle_message p S g ShutdownMsg = ret (g, False)"
| "handle_message p S g (Propose pr) = do { g' \<leftarrow> on_proposal p S g pr; ret (g', True) }"
| "handle_message p S g (GetLeader tx) =
     ret (g\<lparr>sent := sent g @ [(tx, LeaderReply (leader_id (sm g)))]\<rparr>, True)"
| "handle_message p S g (GetTerm tx) =
     ret (g\<lparr>sent := sent g @ [(tx, TermReply (current_term (sm g)))]\<rparr>, True)"
| "handle_message p S g (ReadIndex tx) =
     ret (g\<lparr>sent := sent g @ [(tx, ReadIndexReply (Inr (commit_index (sm g))))]\<rparr>, True)"
| "handle_message p S g (TransferLeader target) = ret (g, True)"
| "handle_message p S g (TriggerSnapshot index) = ret (g, True)"
| "handle_message p S g (VoteResponse peer resp) =
     do { g' \<leftarrow> handle_vote_response p S g peer resp; ret (g', True) }"
| "handle_message p S g (AppendResponse peer req_last_index resp) =
     do { g' \<leftarrow> handle_append_response p S g peer req_last_index resp; ret (g', True) }"
| "handle_message p S g (SnapshotResponse peer req_last_index resp) =
     do { g' \<leftarrow> handle_snapshot_response p S g peer req_last_index resp; ret (g', True) }"

subsection \<open>Start and restore\<close>

definition restore :: "'s Storage \<Rightarrow> 's RaftNodeInner \<Rightarrow> 's RaftNodeInner option" where
  "restore S g = do {
     r \<leftarrow> load_hard_state S (storage g);
     (case r of
        Inr hs \<Rightarrow> ret (upd_sm (\<lambda>s. s\<lparr>
          current_term := hs_term hs,
          voted_for := (if hs_vote hs = 0 then None else Some (hs_vote hs)),
          commit_index := hs_commit hs,
          last_applied := hs_commit hs\<rparr>) g)
      | Inl _ \<Rightarrow> ret g)
   }"

definition next_election_deadline :: "RaftConfig \<Rightarrow> nat \<Rightarrow> u64 \<Rightarrow> nat option" where
  "next_election_deadline cfg now jitter =
     (if election_timeout_max_ms cfg < election_timeout_min_ms cfg then panic
      else ret (now + unat jitter))"

definition jitter_ok :: "RaftConfig \<Rightarrow> u64 \<Rightarrow> bool" where
  "jitter_ok cfg j \<longleftrightarrow> election_timeout_min_ms cfg \<le> j \<and> j \<le> election_timeout_max_ms cfg"

subsection \<open>The loop\<close>

record Deadlines =
  heartbeat_deadline :: nat
  election_deadline :: nat

record 's RaftNode =
  inner :: "'s RaftNodeInner"
  rx :: "RaftMessage list"
  deadlines :: Deadlines
  running :: bool

text \<open>\<^verbatim>\<open>RaftNode::start\<close> builds the shared inner state and the channel, spawns the
  event loop and returns. The loop has not run yet: the hard state is not restored, while the RPC
  handlers and the public interface can be called.\<close>

definition start :: "RaftConfig \<Rightarrow> 's \<Rightarrow> 's RaftNodeInner \<times> RaftMessage list" where
  "start cfg st = (node_new cfg st, [])"

text \<open>What \<^verbatim>\<open>run_event_loop\<close> does before its first iteration, on the inner state and the
  channel as they are by then: it restores the hard state and sets the two deadlines.\<close>

definition enter_loop ::
  "'s Storage \<Rightarrow> nat \<Rightarrow> u64 \<Rightarrow> 's RaftNodeInner \<times> RaftMessage list \<Rightarrow> 's RaftNode option" where
  "enter_loop S now jitter n = do {
     g \<leftarrow> restore S (fst n);
     e \<leftarrow> next_election_deadline (config g) now jitter;
     ret \<lparr>inner = g, rx = snd n,
       deadlines = \<lparr>heartbeat_deadline = now + unat (heartbeat_interval_ms (config g)),
         election_deadline = e\<rparr>,
       running = True\<rparr>
   }"

text \<open>A node whose event loop has started before anything else reached it.\<close>

definition boot :: "'s Storage \<Rightarrow> RaftConfig \<Rightarrow> 's \<Rightarrow> nat \<Rightarrow> u64 \<Rightarrow> 's RaftNode option" where
  "boot S cfg st now jitter = enter_loop S now jitter (start cfg st)"

lemma restore_config: "restore S g = Some g' \<Longrightarrow> config g' = config g"
  by (auto simp: restore_def elim!: bind_SomeE split: sum.splits)

lemma boot_eq:
  "boot S cfg st now jitter = do {
     g \<leftarrow> restore S (node_new cfg st);
     e \<leftarrow> next_election_deadline cfg now jitter;
     ret \<lparr>inner = g, rx = [],
       deadlines = \<lparr>heartbeat_deadline = now + unat (heartbeat_interval_ms cfg),
         election_deadline = e\<rparr>,
       running = True\<rparr>
   }"
  by (cases "restore S (node_new cfg st)")
    (auto simp: boot_def start_def enter_loop_def node_new_def dest: restore_config)

text \<open>The deadline the loop sleeps until.\<close>

definition wake_at :: "'s RaftNode \<Rightarrow> nat" where
  "wake_at n = (if role (sm (inner n)) = Leader then heartbeat_deadline (deadlines n)
     else election_deadline (deadlines n))"

text \<open>The timeout arm; \<open>now\<close> is read on entry, \<open>now'\<close> when the next election deadline is
  drawn.\<close>

definition on_timeout ::
  "profile \<Rightarrow> 's Storage \<Rightarrow> nat \<Rightarrow> nat \<Rightarrow> u64 \<Rightarrow> 's RaftNode \<Rightarrow> 's RaftNode option" where
  "on_timeout p S now now' jitter n =
     (let g = inner n; d = deadlines n;
          hb = now + unat (heartbeat_interval_ms (config g)) in
      if election_deadline d \<le> now \<and> role (sm g) \<noteq> Leader then do {
        g' \<leftarrow> start_election p S g;
        e \<leftarrow> next_election_deadline (config g) now' jitter;
        ret (n\<lparr>inner := g', deadlines := \<lparr>heartbeat_deadline = hb, election_deadline = e\<rparr>\<rparr>)
      }
      else if heartbeat_deadline d \<le> now \<and> role (sm g) = Leader then do {
        g1 \<leftarrow> replicate_all p S g;
        g2 \<leftarrow> maybe_advance_commit p S g1;
        g3 \<leftarrow> apply_committed p S g2;
        ret (n\<lparr>inner := g3, deadlines := d\<lparr>heartbeat_deadline := hb\<rparr>\<rparr>)
      }
      else ret n)"

text \<open>The message arm of one iteration: take the head of the queue.\<close>

definition on_recv :: "profile \<Rightarrow> 's Storage \<Rightarrow> 's RaftNode \<Rightarrow> 's RaftNode option" where
  "on_recv p S n =
     (case rx n of
        [] \<Rightarrow> ret n
      | m # ms \<Rightarrow> do {
          (g, continue) \<leftarrow> handle_message p S (inner n) m;
          ret (n\<lparr>inner := g, rx := (if continue then ms else []), running := continue\<rparr>)
        })"

subsection \<open>Public interface\<close>

text \<open>
  Sending on the channel: once the loop has ended its receiver is dropped and the send fails.
  The caller of \<^verbatim>\<open>propose\<close> then waits on the one-shot channel \<open>tx\<close>.
\<close>

definition api_send :: "'s RaftNode \<Rightarrow> RaftMessage \<Rightarrow> 's RaftNode result" where
  "api_send n m = (if running n then Inr (n\<lparr>rx := rx n @ [m]\<rparr>) else Inl ChannelClosed)"

definition propose :: "'s RaftNode \<Rightarrow> u8 list \<Rightarrow> oneshot \<Rightarrow> 's RaftNode result" where
  "propose n data tx = api_send n (Propose \<lparr>prop_data = data, prop_tx = Some tx\<rparr>)"

definition leader :: "'s RaftNode \<Rightarrow> oneshot \<Rightarrow> 's RaftNode" where
  "leader n tx = (case api_send n (GetLeader tx) of Inr n' \<Rightarrow> n' | Inl _ \<Rightarrow> n)"

definition get_term :: "'s RaftNode \<Rightarrow> oneshot \<Rightarrow> 's RaftNode" where
  "get_term n tx = (case api_send n (GetTerm tx) of Inr n' \<Rightarrow> n' | Inl _ \<Rightarrow> n)"

definition shutdown :: "'s RaftNode \<Rightarrow> 's RaftNode" where
  "shutdown n = (case api_send n ShutdownMsg of Inr n' \<Rightarrow> n' | Inl _ \<Rightarrow> n)"

end
