(* ===== verification/Mem_Storage.thy ===== *)
theory Mem_Storage
  imports Raft_Storage
begin

text \<open>
  The in-memory backend \<^verbatim>\<open>MemStorage\<close>
  (\<^verbatim>\<open>src/iceraft-storage/src/mem.rs\<close>). The lock-protected
  \<^verbatim>\<open>MemStorageInner\<close> is a record; each method takes the lock for its whole body, so
  it is one function on that record. Offsets into the vector are \<^verbatim>\<open>usize\<close> values
  of a 64-bit target (natural numbers here), and a slice out of range panics.
\<close>

subsection \<open>State and operations\<close>

record MemStorageInner =
  hard_state :: HardState
  entries :: "LogEntry list"
  snapshot :: "Snapshot option"

definition mem_new :: MemStorageInner where
  "mem_new = \<lparr>hard_state = default_hard_state, entries = [], snapshot = None\<rparr>"

definition mem_with_snapshot :: "Snapshot \<Rightarrow> MemStorageInner" where
  "mem_with_snapshot sn = mem_new\<lparr>snapshot := Some sn\<rparr>"

definition mem_first_index :: "profile \<Rightarrow> MemStorageInner \<Rightarrow> LogIndex option" where
  "mem_first_index p m =
     (case snapshot m of
        Some s \<Rightarrow> u64_add p (last_included_index (metadata s)) 1
      | None \<Rightarrow> ret 1)"

definition mem_last_index :: "MemStorageInner \<Rightarrow> LogIndex" where
  "mem_last_index m =
     (if entries m \<noteq> [] then le_index (last (entries m))
      else case snapshot m of
        Some s \<Rightarrow> last_included_index (metadata s)
      | None \<Rightarrow> 0)"

definition mem_term_in_log :: "profile \<Rightarrow> MemStorageInner \<Rightarrow> LogIndex \<Rightarrow> Term result option" where
  "mem_term_in_log p m index = do {
     first \<leftarrow> mem_first_index p m;
     if index < first then ret (Inl (LogCompacted index first))
     else do {
       offset \<leftarrow> u64_sub p index first;
       ret (if unat offset < length (entries m)
            then Inr (le_term (entries m ! unat offset))
            else Inl (LogUnavailable index))
     }
   }"

definition mem_term :: "profile \<Rightarrow> MemStorageInner \<Rightarrow> LogIndex \<Rightarrow> Term result option" where
  "mem_term p m index =
     (if index = 0 then ret (Inr 0)
      else case snapshot m of
        Some s \<Rightarrow>
          (let covered = last_included_index (metadata s) in
           if index \<le> covered then
             (if index = covered then ret (Inr (last_included_term (metadata s)))
              else do {
                first_available \<leftarrow> u64_add p covered 1;
                ret (Inl (LogCompacted index first_available))
              })
           else mem_term_in_log p m index)
      | None \<Rightarrow> mem_term_in_log p m index)"

text \<open>The loop that stops before the first entry that would exceed \<^verbatim>\<open>max_size\<close>,
  but never before one entry has been taken.\<close>

fun take_capped ::
  "profile \<Rightarrow> u64 \<Rightarrow> LogEntry list \<Rightarrow> u64 \<Rightarrow> LogEntry list \<Rightarrow> LogEntry list option" where
  "take_capped p mx [] total_bytes acc = ret acc"
| "take_capped p mx (entry # rest) total_bytes acc = do {
     total \<leftarrow> u64_add p total_bytes (of_nat (length (le_data entry)));
     if acc \<noteq> [] \<and> mx < total then ret acc
     else take_capped p mx rest total (acc @ [entry])
   }"

definition mem_entries ::
  "profile \<Rightarrow> MemStorageInner \<Rightarrow> LogIndex \<Rightarrow> LogIndex \<Rightarrow> u64 option \<Rightarrow>
   LogEntry list result option" where
  "mem_entries p m lo hi max_size = do {
     first \<leftarrow> mem_first_index p m;
     if lo < first then ret (Inl (LogCompacted lo first))
     else do {
       beyond \<leftarrow> u64_add p (mem_last_index m) 1;
       if beyond < hi then ret (Inl (LogUnavailable hi))
       else if hi \<le> lo then ret (Inr [])
       else do {
         lo_offset \<leftarrow> u64_sub p lo first;
         hi_offset \<leftarrow> u64_sub p hi first;
         if unat hi_offset < unat lo_offset \<or> length (entries m) < unat hi_offset then panic
         else
           let slice = take (unat hi_offset - unat lo_offset) (drop (unat lo_offset) (entries m))
           in case max_size of
                Some mx \<Rightarrow> map_option Inr (take_capped p mx slice 0 [])
              | None \<Rightarrow> ret (Inr slice)
       }
     }
   }"

definition mem_append_entries ::
  "profile \<Rightarrow> MemStorageInner \<Rightarrow> LogEntry list \<Rightarrow> (MemStorageInner \<times> unit result) option" where
  "mem_append_entries p m es =
     (if es = [] then ret (m, Inr ())
      else do {
        first \<leftarrow> mem_first_index p m;
        let incoming_first = le_index (hd es);
        kept \<leftarrow>
          (if incoming_first \<le> mem_last_index m
           then do {
             truncate_at \<leftarrow> u64_sub p incoming_first first;
             ret (if unat truncate_at < length (entries m)
                  then take (unat truncate_at) (entries m) else entries m)
           }
           else ret (entries m));
        ret (m\<lparr>entries := kept @ es\<rparr>, Inr ())
      })"

definition mem_save_hard_state ::
  "MemStorageInner \<Rightarrow> HardState \<Rightarrow> (MemStorageInner \<times> unit result) option" where
  "mem_save_hard_state m hs = ret (m\<lparr>hard_state := hs\<rparr>, Inr ())"

definition mem_apply_snapshot ::
  "profile \<Rightarrow> MemStorageInner \<Rightarrow> Snapshot \<Rightarrow> (MemStorageInner \<times> unit result) option" where
  "mem_apply_snapshot p m sn = do {
     let last_included = last_included_index (metadata sn);
     first \<leftarrow> mem_first_index p m;
     kept \<leftarrow>
       (if first \<le> last_included
        then do {
          d \<leftarrow> u64_sub p last_included first;
          drop_count \<leftarrow> u64_add p d 1;
          ret (if length (entries m) \<le> unat drop_count then []
               else drop (unat drop_count) (entries m))
        }
        else ret (entries m));
     ret (m\<lparr>entries := kept, snapshot := Some sn\<rparr>, Inr ())
   }"

text \<open>\<^verbatim>\<open>impl Storage for MemStorage\<close>: the dictionary of the trait.\<close>

definition mem_storage :: "profile \<Rightarrow> MemStorageInner Storage" where
  "mem_storage p = \<lparr>
     save_hard_state = mem_save_hard_state,
     load_hard_state = \<lambda>m. ret (Inr (hard_state m)),
     first_index = \<lambda>m. map_option Inr (mem_first_index p m),
     last_index = \<lambda>m. ret (Inr (mem_last_index m)),
     log_term = mem_term p,
     log_entries = mem_entries p,
     append_entries = mem_append_entries p,
     get_snapshot = \<lambda>m. ret (Inr (snapshot m)),
     apply_snapshot = mem_apply_snapshot p\<rparr>"

subsection \<open>The abstract log a MemStorage holds\<close>

definition mem_alog :: "MemStorageInner \<Rightarrow> AbsLog" where
  "mem_alog m = \<lparr>
     base = (case snapshot m of None \<Rightarrow> 0
       | Some s \<Rightarrow> unat (last_included_index (metadata s))),
     base_term = (case snapshot m of None \<Rightarrow> 0
       | Some s \<Rightarrow> last_included_term (metadata s)),
     ents = entries m\<rparr>"

definition mem_ok :: "MemStorageInner \<Rightarrow> bool" where
  "mem_ok m \<longleftrightarrow> alog_ok (mem_alog m)"

lemma ents_mem_alog [simp]: "ents (mem_alog m) = entries m"
  by (simp add: mem_alog_def)

lemma mem_base_bound: "mem_ok m \<Longrightarrow> base (mem_alog m) + length (entries m) < 2 ^ 64 - 1"
  by (simp add: mem_ok_def alog_ok_def)

lemma mem_contiguous: "mem_ok m \<Longrightarrow> contiguous (base (mem_alog m) + 1) (entries m)"
  by (simp add: mem_ok_def alog_ok_def)

lemma mem_first_index_spec:
  assumes "mem_ok m"
  shows "mem_first_index p m = Some (of_nat (base (mem_alog m) + 1))"
proof (cases "snapshot m")
  case None
  then show ?thesis by (simp add: mem_first_index_def mem_alog_def)
next
  case (Some s)
  let ?i = "last_included_index (metadata s)"
  have "unat ?i < 2 ^ 64 - 1"
    using mem_base_bound [OF assms] Some by (simp add: mem_alog_def)
  then have "u64_add p ?i 1 = Some (?i + 1)"
    by (rule u64_succ [THEN conjunct1])
  then show ?thesis
    using Some by (simp add: mem_first_index_def mem_alog_def)
qed

lemma unat_mem_first:
  "mem_ok m \<Longrightarrow> unat (of_nat (base (mem_alog m) + 1) :: u64) = base (mem_alog m) + 1"
  using mem_base_bound [of m] by (intro of_nat_u64) linarith

lemma mem_first_indexE:
  assumes "mem_ok m"
  obtains f where "mem_first_index p m = Some f" "unat f = base (mem_alog m) + 1"
  using mem_first_index_spec [OF assms, of p] unat_mem_first [OF assms] by blast

lemma unat_mem_last_index:
  assumes "mem_ok m"
  shows "unat (mem_last_index m) = alog_last (mem_alog m)"
proof (cases "entries m = []")
  case True
  then show ?thesis
    by (auto simp: mem_last_index_def alog_last_def mem_alog_def split: option.splits)
next
  case False
  then have "unat (le_index (last (entries m))) = base (mem_alog m) + 1 + (length (entries m) - 1)"
    using mem_contiguous [OF assms] by (intro contiguous_last)
  then show ?thesis
    using False by (simp add: mem_last_index_def alog_last_def)
qed

lemma mem_last_index_spec:
  "mem_ok m \<Longrightarrow> mem_last_index m = of_nat (alog_last (mem_alog m))"
  by (simp add: unat_mem_last_index [symmetric])

lemma mem_term_in_log_spec:
  assumes "mem_ok m" "base (mem_alog m) < unat i"
  shows "mem_term_in_log p m i =
    Some (if unat i \<le> alog_last (mem_alog m)
          then Inr (le_term (entries m ! (unat i - base (mem_alog m) - 1)))
          else Inl (LogUnavailable i))"
proof -
  let ?f = "of_nat (base (mem_alog m) + 1) :: u64"
  have f: "unat ?f = base (mem_alog m) + 1"
    using assms(1) by (rule unat_mem_first)
  have le: "?f \<le> i"
    using f assms(2) by (simp add: word_le_nat_alt)
  have off: "unat (i - ?f) = unat i - base (mem_alog m) - 1"
    using unat_u64_sub [OF le] f by simp
  have "unat (i - ?f) < length (entries m) \<longleftrightarrow> unat i \<le> alog_last (mem_alog m)"
    unfolding off using assms(2) by (auto simp: alog_last_def)
  then show ?thesis
    unfolding mem_term_in_log_def
    using le off by (simp add: mem_first_index_spec [OF assms(1)] u64_sub_exact leD)
qed

lemma mem_term_spec:
  assumes "mem_ok m"
  shows "mem_term p m i = Some (alog_term (mem_alog m) i)"
proof (cases "snapshot m")
  case None
  then have "base (mem_alog m) = 0" by (simp add: mem_alog_def)
  then show ?thesis
    using None by (simp add: mem_term_def alog_term_def mem_term_in_log_spec [OF assms]
        unat_0_iff unat_gt_0)
next
  case (Some s)
  let ?c = "last_included_index (metadata s)"
  have b: "base (mem_alog m) = unat ?c" "base_term (mem_alog m) = last_included_term (metadata s)"
    using Some by (simp_all add: mem_alog_def)
  have "u64_add p ?c 1 = Some (?c + 1)"
    using mem_base_bound [OF assms] b by (intro u64_succ [THEN conjunct1]) simp
  then show ?thesis
    using Some b mem_term_in_log_spec [OF assms, of i p]
    by (auto simp: mem_term_def alog_term_def Let_def word_le_nat_alt not_le
        word_less_nat_alt word_unat_eq_iff add.commute)
qed

subsection \<open>Reading a range\<close>

text \<open>What the capping loop returns: the accumulator followed by a prefix of the input,
  which is the whole input or stops exactly where the next entry would exceed the cap.\<close>

lemma take_capped_result:
  assumes "unat tb + data_bytes es < 2 ^ 64"
  shows "\<exists>n \<le> length es. take_capped p mx es tb acc = Some (acc @ take n es) \<and>
    (acc = [] \<and> es \<noteq> [] \<longrightarrow> 0 < n) \<and>
    (n < length es \<longrightarrow> unat mx < unat tb + data_bytes (take (Suc n) es)) \<and>
    ((acc \<noteq> [] \<and> 0 < n) \<or> 1 < n \<longrightarrow> unat tb + data_bytes (take n es) \<le> unat mx)"
  using assms
proof (induction es arbitrary: tb acc)
  case Nil
  then show ?case by simp
next
  case (Cons e es)
  let ?sz = "of_nat (length (le_data e)) :: u64"
  have sz: "unat ?sz = length (le_data e)"
    using Cons.prems by (intro of_nat_u64) simp
  have tot: "u64_add p tb ?sz = Some (tb + ?sz)"
      "unat (tb + ?sz) = unat tb + length (le_data e)"
    using Cons.prems sz by (simp_all add: u64_add_exact unat_u64_add)
  show ?case
  proof (cases "acc \<noteq> [] \<and> mx < tb + ?sz")
    case True
    then show ?thesis
      using tot by (intro exI [of _ 0]) (auto simp: word_less_nat_alt)
  next
    case False
    have "unat (tb + ?sz) + data_bytes es < 2 ^ 64"
      using Cons.prems tot by simp
    from Cons.IH [OF this, of "acc @ [e]"] obtain n where n: "n \<le> length es"
      "take_capped p mx es (tb + ?sz) (acc @ [e]) = Some ((acc @ [e]) @ take n es)"
      "n < length es \<longrightarrow> unat mx < unat (tb + ?sz) + data_bytes (take (Suc n) es)"
      "0 < n \<longrightarrow> unat (tb + ?sz) + data_bytes (take n es) \<le> unat mx"
      by auto
    have "take_capped p mx (e # es) tb acc = Some (acc @ take (Suc n) (e # es))"
      using False tot n(2) by (cases "acc = []") auto
    moreover have "acc \<noteq> [] \<or> 1 < Suc n \<longrightarrow>
        unat tb + data_bytes (take (Suc n) (e # es)) \<le> unat mx"
      using False tot n(4) by (cases n) (auto simp: not_less word_le_nat_alt)
    moreover have "Suc n < length (e # es) \<longrightarrow>
        unat mx < unat tb + data_bytes (take (Suc (Suc n)) (e # es))"
      using tot n(3) by (simp add: add.assoc)
    ultimately show ?thesis
      using n(1) by (intro exI [of _ "Suc n"]) auto
  qed
qed

lemma mem_entries_compacted:
  assumes "mem_ok m" "unat lo \<le> base (mem_alog m)"
  shows "mem_entries p m lo hi mx =
    Some (Inl (LogCompacted lo (of_nat (base (mem_alog m) + 1))))"
proof -
  have "lo < of_nat (base (mem_alog m) + 1)"
    using assms(2) unat_mem_first [OF assms(1)] by (simp add: word_less_nat_alt)
  then show ?thesis
    by (simp add: mem_entries_def mem_first_index_spec [OF assms(1)])
qed

lemma mem_beyond:
  assumes "mem_ok m"
  shows "u64_add p (mem_last_index m) 1 = Some (mem_last_index m + 1)"
    and "unat (mem_last_index m + 1) = alog_last (mem_alog m) + 1"
  using u64_succ [of "mem_last_index m" p] mem_base_bound [OF assms] unat_mem_last_index [OF assms]
  by (simp_all add: alog_last_def)

text \<open>A range above the compacted prefix: an error beyond the log, an exact slice inside
  it, and no panic from the vector index.\<close>

lemma mem_entries_available:
  assumes ok: "mem_ok m" and lo: "base (mem_alog m) < unat lo"
  shows "mem_entries p m lo hi mx =
    (if alog_last (mem_alog m) + 1 < unat hi then Some (Inl (LogUnavailable hi))
     else case mx of
       None \<Rightarrow> Some (Inr (alog_slice (mem_alog m) (unat lo) (unat hi)))
     | Some c \<Rightarrow> map_option Inr
         (take_capped p c (alog_slice (mem_alog m) (unat lo) (unat hi)) 0 []))"
proof -
  let ?f = "of_nat (base (mem_alog m) + 1) :: u64"
  have f: "unat ?f = base (mem_alog m) + 1"
    using ok by (rule unat_mem_first)
  have flo: "?f \<le> lo"
    using f lo by (simp add: word_le_nat_alt)
  show ?thesis
  proof (cases "alog_last (mem_alog m) + 1 < unat hi")
    case True
    then have "mem_last_index m + 1 < hi"
      using mem_beyond [OF ok] by (simp add: word_less_nat_alt)
    then show ?thesis
      using True flo by (simp add: mem_entries_def mem_first_index_spec [OF ok] mem_beyond [OF ok] leD)
  next
    case inside: False
    then have nb: "\<not> mem_last_index m + 1 < hi"
      using mem_beyond [OF ok] by (simp add: word_less_nat_alt)
    show ?thesis
    proof (cases "hi \<le> lo")
      case True
      then have "alog_slice (mem_alog m) (unat lo) (unat hi) = []"
        by (simp add: alog_slice_def word_le_nat_alt)
      then show ?thesis
        using True nb inside flo
        by (simp add: mem_entries_def mem_first_index_spec [OF ok] mem_beyond [OF ok] leD
            split: option.splits)
    next
      case False
      then have fhi: "?f \<le> hi" using flo by simp
      have lohi: "unat lo < unat hi" using False by (simp add: word_le_nat_alt)
      have off: "unat (lo - ?f) = unat lo - base (mem_alog m) - 1"
        "unat (hi - ?f) = unat hi - base (mem_alog m) - 1"
        using unat_u64_sub [OF flo] unat_u64_sub [OF fhi] f by simp_all
      have "unat (hi - ?f) \<le> length (entries m)" "unat (lo - ?f) \<le> unat (hi - ?f)"
        unfolding off using inside lohi by (auto simp: alog_last_def)
      moreover have "take (unat (hi - ?f) - unat (lo - ?f)) (drop (unat (lo - ?f)) (entries m)) =
          alog_slice (mem_alog m) (unat lo) (unat hi)"
        unfolding off alog_slice_def using lo by simp
      ultimately show ?thesis
        using False nb inside flo fhi
        by (simp add: mem_entries_def mem_first_index_spec [OF ok] mem_beyond [OF ok] leD
            u64_sub_exact split: option.splits)
    qed
  qed
qed

lemma data_bytes_alog_slice: "data_bytes (alog_slice l lo hi) \<le> data_bytes (ents l)"
  unfolding alog_slice_def
  using data_bytes_take_le [of "hi - lo" "drop (lo - base l - 1) (ents l)"]
    data_bytes_drop_le [of "lo - base l - 1" "ents l"]
  by linarith

lemma mem_entries_capped:
  assumes "mem_ok m" "base (mem_alog m) < unat lo" "unat hi \<le> alog_last (mem_alog m) + 1"
  defines "sl \<equiv> alog_slice (mem_alog m) (unat lo) (unat hi)"
  shows "\<exists>n \<le> length sl. mem_entries p m lo hi (Some c) = Some (Inr (take n sl)) \<and>
    (sl \<noteq> [] \<longrightarrow> 0 < n) \<and>
    (n < length sl \<longrightarrow> unat c < data_bytes (take (Suc n) sl)) \<and>
    (1 < n \<longrightarrow> data_bytes (take n sl) \<le> unat c)"
proof -
  have "unat (0 :: u64) + data_bytes sl < 2 ^ 64"
    using assms(1) data_bytes_alog_slice [of "mem_alog m" "unat lo" "unat hi"]
    by (simp add: sl_def mem_ok_def alog_ok_def)
  from take_capped_result [OF this, of p c "[]"] show ?thesis
    using assms(3) by (auto simp: mem_entries_available [OF assms(1,2)] sl_def)
qed

subsection \<open>Writing\<close>

lemma alog_mem_entries_update [simp]:
  "mem_alog (m\<lparr>entries := es\<rparr>) = (mem_alog m)\<lparr>ents := es\<rparr>"
  "mem_alog (m\<lparr>hard_state := h\<rparr>) = mem_alog m"
  by (simp_all add: mem_alog_def)

text \<open>Where the batch leaves a well-formed log, the vector operations of
  \<^verbatim>\<open>append_entries\<close> are the abstract append, in both build profiles.\<close>

lemma mem_append_spec:
  assumes ok: "mem_ok m" and ok': "alog_ok (alog_append (mem_alog m) es)"
  shows "mem_append_entries p m es =
    Some (m\<lparr>entries := ents (alog_append (mem_alog m) es)\<rparr>, Inr ())"
proof (cases "es = []")
  case True
  then show ?thesis by (simp add: mem_append_entries_def alog_append_def)
next
  case False
  let ?k = "le_index (hd es)"
  obtain f where f: "mem_first_index p m = Some f" "unat f = base (mem_alog m) + 1"
    using ok by (rule mem_first_indexE)
  have k: "base (mem_alog m) < unat ?k" "unat ?k \<le> alog_last (mem_alog m) + 1"
    using alog_append_ok_start [OF ok' False] by simp_all
  have fk: "f \<le> ?k"
    using f(2) k(1) by (simp add: word_le_nat_alt)
  have off: "unat (?k - f) = unat ?k - base (mem_alog m) - 1"
    using unat_u64_sub [OF fk] f(2) by simp
  have last: "?k \<le> mem_last_index m \<longleftrightarrow> unat ?k \<le> alog_last (mem_alog m)"
    by (simp add: word_le_nat_alt unat_mem_last_index [OF ok])
  have "unat (?k - f) < length (entries m) \<longleftrightarrow> unat ?k \<le> alog_last (mem_alog m)"
    unfolding off using k(1) by (auto simp: alog_last_def)
  then show ?thesis
    using False last off
    by (simp add: mem_append_entries_def f(1) u64_sub_exact [OF fk] alog_append_def
        alog_last_def not_le Let_def)
qed

lemma mem_apply_snapshot_spec:
  assumes ok: "mem_ok m" and newer: "base (mem_alog m) \<le> unat (last_included_index (metadata sn))"
    and bound: "unat (last_included_index (metadata sn)) < 2 ^ 64 - 1"
  shows "mem_apply_snapshot p m sn = Some (m\<lparr>
    entries := drop (unat (last_included_index (metadata sn)) - base (mem_alog m)) (entries m),
    snapshot := Some sn\<rparr>, Inr ())"
proof -
  let ?i = "last_included_index (metadata sn)"
  obtain f where f: "mem_first_index p m = Some f" "unat f = base (mem_alog m) + 1"
    using ok by (rule mem_first_indexE)
  show ?thesis
  proof (cases "f \<le> ?i")
    case True
    have "base (mem_alog m) < unat ?i"
      using True f(2) by (simp add: word_le_nat_alt)
    moreover have "unat (?i - f) = unat ?i - base (mem_alog m) - 1"
      using unat_u64_sub [OF True] f(2) by simp
    ultimately have "unat (?i - f) < 2 ^ 64 - 1" and n: "unat (?i - f) + 1 = unat ?i - base (mem_alog m)"
      using bound by linarith+
    then have "u64_add p (?i - f) 1 = Some (?i - f + 1)"
      "unat (?i - f + 1) = unat ?i - base (mem_alog m)"
      using u64_succ [of "?i - f" p] by simp_all
    then show ?thesis
      using True by (simp add: mem_apply_snapshot_def Let_def f(1) u64_sub_exact [OF True])
  next
    case False
    then have "unat ?i - base (mem_alog m) = 0"
      using f(2) by (simp add: word_le_nat_alt)
    then show ?thesis
      using False by (simp add: mem_apply_snapshot_def Let_def f(1))
  qed
qed

lemma mem_alog_installed:
  "mem_alog (m\<lparr>entries := drop (unat (last_included_index (metadata sn)) - base (mem_alog m)) (entries m),
     snapshot := Some sn\<rparr>) =
   alog_compact (mem_alog m) (unat (last_included_index (metadata sn)))
     (last_included_term (metadata sn))"
  by (simp add: mem_alog_def alog_compact_def)

lemma mem_ok_new [simp]: "mem_ok mem_new"
  by (simp add: mem_ok_def mem_new_def mem_alog_def alog_ok_def)

lemma mem_ok_with_snapshot:
  "unat (last_included_index (metadata sn)) < 2 ^ 64 - 1 \<Longrightarrow> mem_ok (mem_with_snapshot sn)"
  by (simp add: mem_ok_def mem_with_snapshot_def mem_new_def mem_alog_def alog_ok_def)

subsection \<open>MemStorage implements the contract\<close>

lemma mem_storage_simps [simp]:
  "save_hard_state (mem_storage p) = mem_save_hard_state"
  "load_hard_state (mem_storage p) m = Some (Inr (hard_state m))"
  "first_index (mem_storage p) m = map_option Inr (mem_first_index p m)"
  "last_index (mem_storage p) m = Some (Inr (mem_last_index m))"
  "log_term (mem_storage p) = mem_term p"
  "log_entries (mem_storage p) = mem_entries p"
  "append_entries (mem_storage p) = mem_append_entries p"
  "get_snapshot (mem_storage p) m = Some (Inr (snapshot m))"
  "apply_snapshot (mem_storage p) = mem_apply_snapshot p"
  by (simp_all add: mem_storage_def)

lemma mem_read_range:
  assumes "mem_ok m" "base (mem_alog m) < unat lo" "unat hi \<le> alog_last (mem_alog m) + 1"
  shows "\<exists>es. mem_entries p m lo hi mx = Some (Inr es) \<and>
    prefix es (alog_slice (mem_alog m) (unat lo) (unat hi)) \<and>
    (alog_slice (mem_alog m) (unat lo) (unat hi) \<noteq> [] \<longrightarrow> es \<noteq> []) \<and>
    (mx = None \<longrightarrow> es = alog_slice (mem_alog m) (unat lo) (unat hi))"
proof (cases mx)
  case None
  then show ?thesis
    using assms by (simp add: mem_entries_available)
next
  case (Some c)
  then show ?thesis
    using mem_entries_capped [OF assms, of p c] by (auto simp: take_is_prefix)
qed

lemma mem_install:
  assumes "mem_ok m" "base (mem_alog m) \<le> unat (last_included_index (metadata sn))"
    and "unat (last_included_index (metadata sn)) < 2 ^ 64 - 1"
  shows "\<exists>m'. mem_apply_snapshot p m sn = Some (m', Inr ()) \<and> mem_ok m' \<and>
    mem_alog m' = alog_compact (mem_alog m) (unat (last_included_index (metadata sn)))
      (last_included_term (metadata sn)) \<and>
    hard_state m' = hard_state m \<and> snapshot m' = Some sn"
  using assms
  by (simp add: mem_apply_snapshot_spec mem_alog_installed mem_ok_def alog_compact_ok)

lemma ents_alog_append_update [simp]: "l\<lparr>ents := ents (alog_append l es)\<rparr> = alog_append l es"
  by (simp add: alog_append_def)

lemma mem_write_simps:
  "mem_ok m \<Longrightarrow> alog_ok (mem_alog m)"
  "mem_save_hard_state m h = Some (m\<lparr>hard_state := h\<rparr>, Inr ())"
  "mem_ok (m\<lparr>hard_state := h\<rparr>) = mem_ok m"
  "mem_ok (m\<lparr>entries := ents (alog_append (mem_alog m) es)\<rparr>) =
     alog_ok (alog_append (mem_alog m) es)"
  by (simp_all add: mem_ok_def mem_save_hard_state_def)

lemma mem_no_snapshot: "snapshot m = None \<Longrightarrow> base (mem_alog m) = 0"
  by (simp add: mem_alog_def)

interpretation mem: storage_contract "mem_storage p" mem_ok mem_alog hard_state snapshot for p
proof unfold_locales
  fix m mx and lo hi :: LogIndex
  assume "mem_ok m" "base (mem_alog m) < unat lo" "unat hi \<le> alog_last (mem_alog m) + 1"
  then show "\<exists>es. log_entries (mem_storage p) m lo hi mx = Some (Inr es) \<and>
      prefix es (alog_slice (mem_alog m) (unat lo) (unat hi)) \<and>
      (alog_slice (mem_alog m) (unat lo) (unat hi) \<noteq> [] \<longrightarrow> es \<noteq> []) \<and>
      (mx = None \<longrightarrow> es = alog_slice (mem_alog m) (unat lo) (unat hi))"
    by (simp add: mem_read_range)
next
  fix m and sn :: Snapshot
  assume "mem_ok m" "base (mem_alog m) \<le> unat (last_included_index (metadata sn))"
    "unat (last_included_index (metadata sn)) < 2 ^ 64 - 1"
  then show "\<exists>m'. apply_snapshot (mem_storage p) m sn = Some (m', Inr ()) \<and> mem_ok m' \<and>
      mem_alog m' = alog_compact (mem_alog m) (unat (last_included_index (metadata sn)))
        (last_included_term (metadata sn)) \<and>
      hard_state m' = hard_state m \<and> snapshot m' = Some sn"
    by (simp add: mem_install)
next
  fix m and sn :: Snapshot
  assume "mem_ok m" "snapshot m = Some sn"
  then show "unat (last_included_index (metadata sn)) = base (mem_alog m) \<and>
      last_included_term (metadata sn) = base_term (mem_alog m)"
    by (simp add: mem_alog_def)
qed (simp_all add: mem_first_index_spec mem_last_index_spec mem_term_spec mem_entries_compacted
    mem_entries_available mem_append_spec mem_write_simps mem_no_snapshot)

text \<open>The hard state is kept whatever the log looks like.\<close>

interpretation mem_hs: hard_state_store "mem_storage p" hard_state for p
  by unfold_locales
    (auto simp: mem_save_hard_state_def mem_append_entries_def mem_apply_snapshot_def Let_def
      bind_eq_Some_conv split: if_splits)

subsection \<open>The two build profiles\<close>

lemma mem_first_index_agrees [agreement]: "agrees (mem_first_index Debug m) (mem_first_index Release m)"
  unfolding mem_first_index_def by (intro agreement)

lemma mem_term_in_log_agrees [agreement]: "agrees (mem_term_in_log Debug m i) (mem_term_in_log Release m i)"
  unfolding mem_term_in_log_def by (intro agreement)

lemma take_capped_agrees [agreement]:
  "agrees (take_capped Debug mx es t acc) (take_capped Release mx es t acc)"
  by (induction es arbitrary: t acc) (auto intro!: agreement)

lemma mem_ops_agree [agreement]:
  "agrees (mem_term Debug m i) (mem_term Release m i)"
  "agrees (mem_entries Debug m lo hi mx) (mem_entries Release m lo hi mx)"
  "agrees (mem_append_entries Debug m es) (mem_append_entries Release m es)"
  "agrees (mem_apply_snapshot Debug m sn) (mem_apply_snapshot Release m sn)"
  unfolding mem_term_def mem_entries_def mem_append_entries_def mem_apply_snapshot_def
  by (intro agreement)+

subsection \<open>Properties\<close>

text \<open>A storage whose snapshot covers entries 1 and 2 and which holds 3 and 4; the concrete
  input of the witnesses below.\<close>

definition sample_entry :: "Term \<Rightarrow> LogIndex \<Rightarrow> LogEntry" where
  "sample_entry t i = \<lparr>le_term = t, le_index = i, le_data = [7, 7], le_type = Normal\<rparr>"

definition sample_snapshot :: "LogIndex \<Rightarrow> Snapshot" where
  "sample_snapshot i = \<lparr>snap_data = [9], metadata =
     \<lparr>last_included_index = i, last_included_term = 1, conf_nodes = []\<rparr>\<rparr>"

definition sample_mem :: MemStorageInner where
  "sample_mem = \<lparr>hard_state = default_hard_state,
     entries = [sample_entry 1 3, sample_entry 2 4], snapshot = Some (sample_snapshot 2)\<rparr>"

lemma sample_simps [simp]:
  "le_term (sample_entry t i) = t" "le_index (sample_entry t i) = i"
  "le_data (sample_entry t i) = [7, 7]"
  "last_included_index (metadata (sample_snapshot i)) = i"
  "last_included_term (metadata (sample_snapshot i)) = 1"
  "entries sample_mem = [sample_entry 1 3, sample_entry 2 4]"
  by (simp_all add: sample_entry_def sample_snapshot_def sample_mem_def)

lemma sample_mem_alog:
  "mem_alog sample_mem =
     \<lparr>base = 2, base_term = 1, ents = [sample_entry 1 3, sample_entry 2 4]\<rparr>"
  by (simp add: mem_alog_def sample_mem_def sample_snapshot_def)

lemma sample_mem_ok: "mem_ok sample_mem"
  by (simp add: mem_ok_def sample_mem_alog alog_ok_def contiguous_def less_Suc_eq)

text \<open>C19 (round trip): appending a consecutive batch that starts inside the log or right after it
  never panics, keeps the store well-formed, truncates what the batch replaces, and a read of
  its range returns the batch; the terms below it, the hard state and the snapshot stay.\<close>

theorem mem_append_roundtrip:
  assumes "mem_ok m" "contiguous k es" "es \<noteq> []"
    and "base (mem_alog m) < k" "k \<le> alog_last (mem_alog m) + 1"
    and "k + length es < 2 ^ 64" "data_bytes (entries m) + data_bytes es < 2 ^ 64"
  shows "\<exists>m'. mem_append_entries p m es = Some (m', Inr ()) \<and> mem_ok m' \<and>
    mem_entries p m' (of_nat k) (of_nat (k + length es)) None = Some (Inr es) \<and>
    unat (mem_last_index m') = k + length es - 1 \<and>
    (\<forall>i. unat i < k \<longrightarrow> mem_term p m' i = mem_term p m i) \<and>
    hard_state m' = hard_state m \<and> snapshot m' = snapshot m"
proof -
  let ?l = "alog_append (mem_alog m) es"
  let ?m = "m\<lparr>entries := ents ?l\<rparr>"
  have ok: "alog_ok ?l"
    using assms by (intro alog_append_ok) (auto simp: mem_ok_def)
  have al: "mem_alog ?m = ?l" by simp
  then have ok': "mem_ok ?m" using ok by (simp add: mem_ok_def)
  have b: "base ?l = base (mem_alog m)" by (simp add: alog_append_def)
  have k: "unat (of_nat k :: u64) = k" "unat (of_nat (k + length es) :: u64) = k + length es"
    using assms(6) by (intro of_nat_u64; simp)+
  have la: "alog_last ?l + 1 = k + length es"
    using assms by (intro alog_append_last)
  have rd: "mem_entries p ?m (of_nat k) (of_nat (k + length es)) None = Some (Inr es)"
    using mem_entries_available [OF ok', of "of_nat k" p "of_nat (k + length es)" None] k la al b
      assms(4) alog_append_slice [OF assms(2,4,5)] by simp
  have tm: "mem_term p ?m i = mem_term p m i" if "unat i < k" for i
    using that assms alog_append_term_below [OF assms(2,4,5,3)]
    by (simp add: mem_term_spec [OF ok'] mem_term_spec [OF assms(1)])
  have "unat (mem_last_index ?m) = k + length es - 1"
    using la al by (simp add: unat_mem_last_index [OF ok'])
  then show ?thesis
    using mem_append_spec [OF assms(1) ok, of p] ok' rd tm by auto
qed

theorem mem_append_roundtrip_witness:
  "\<exists>m'. mem_append_entries Debug sample_mem [sample_entry 3 4, sample_entry 3 5] = Some (m', Inr ()) \<and>
    mem_ok m' \<and> unat (mem_last_index m') = 5 \<and>
    mem_entries Debug m' 4 6 None = Some (Inr [sample_entry 3 4, sample_entry 3 5])"
proof -
  have "contiguous 4 [sample_entry 3 4, sample_entry 3 5]"
    by (simp add: contiguous_def less_Suc_eq)
  then show ?thesis
    using mem_append_roundtrip [OF sample_mem_ok, of 4 "[sample_entry 3 4, sample_entry 3 5]" Debug]
    by (auto simp: sample_mem_alog alog_last_def)
qed

text \<open>C20 (functional): a range read is classified completely. Below the first held entry it is
  \<^verbatim>\<open>LogCompacted\<close>, beyond the log \<^verbatim>\<open>LogUnavailable\<close>, and otherwise it
  returns the entries of the range: all of them without a cap; with a cap the longest prefix
  within it, but at least one entry.\<close>

theorem mem_entries_range:
  assumes ok: "mem_ok m"
  shows "let l = mem_alog m; sl = alog_slice l (unat lo) (unat hi) in
    if unat lo \<le> base l
    then mem_entries p m lo hi mx = Some (Inl (LogCompacted lo (of_nat (base l + 1))))
    else if alog_last l + 1 < unat hi
    then mem_entries p m lo hi mx = Some (Inl (LogUnavailable hi))
    else \<exists>n \<le> length sl. mem_entries p m lo hi mx = Some (Inr (take n sl)) \<and>
      (case mx of
         None \<Rightarrow> n = length sl
       | Some c \<Rightarrow> (sl \<noteq> [] \<longrightarrow> 0 < n) \<and> (1 < n \<longrightarrow> data_bytes (take n sl) \<le> unat c) \<and>
           (n < length sl \<longrightarrow> unat c < data_bytes (take (Suc n) sl)))"
proof (cases "base (mem_alog m) < unat lo")
  case False
  then show ?thesis
    using mem_entries_compacted [OF ok] by (simp add: Let_def)
next
  case lo: True
  show ?thesis
  proof (cases "unat hi \<le> alog_last (mem_alog m) + 1")
    case False
    then show ?thesis
      using lo mem_entries_available [OF ok lo] by (simp add: Let_def)
  next
    case hi: True
    show ?thesis
    proof (cases mx)
      case None
      then show ?thesis
        using lo hi mem_entries_available [OF ok lo] by (auto simp: Let_def)
    next
      case (Some c)
      then show ?thesis
        using lo hi mem_entries_capped [OF ok lo hi, of p c] by (auto simp: Let_def)
    qed
  qed
qed

theorem mem_entries_range_witness:
  "mem_entries Debug sample_mem 2 5 None = Some (Inl (LogCompacted 2 3)) \<and>
   mem_entries Debug sample_mem 3 6 None = Some (Inl (LogUnavailable 6)) \<and>
   mem_entries Debug sample_mem 3 5 None = Some (Inr [sample_entry 1 3, sample_entry 2 4])"
  using mem_entries_range [OF sample_mem_ok, of 2 5 Debug None]
    mem_entries_range [OF sample_mem_ok, of 3 6 Debug None]
    mem_entries_range [OF sample_mem_ok, of 3 5 Debug None]
  by (simp add: sample_mem_alog alog_last_def alog_slice_def Let_def)

text \<open>C38 (functional): installing a snapshot that is not older than the one held compacts the log
  up to it and keeps the suffix: terms above the snapshot are unchanged, its own index has its
  term, and below it a read is \<^verbatim>\<open>LogCompacted\<close>.\<close>

theorem mem_snapshot_install:
  assumes ok: "mem_ok m"
    and newer: "base (mem_alog m) \<le> unat (last_included_index (metadata sn))"
    and bound: "unat (last_included_index (metadata sn)) < 2 ^ 64 - 1"
  shows "\<exists>m'. mem_apply_snapshot p m sn = Some (m', Inr ()) \<and> mem_ok m' \<and>
    snapshot m' = Some sn \<and> hard_state m' = hard_state m \<and>
    mem_first_index p m' = Some (last_included_index (metadata sn) + 1) \<and>
    mem_last_index m' = max (mem_last_index m) (last_included_index (metadata sn)) \<and>
    (\<forall>i. last_included_index (metadata sn) < i \<longrightarrow> mem_term p m' i = mem_term p m i) \<and>
    (0 < last_included_index (metadata sn) \<longrightarrow>
       mem_term p m' (last_included_index (metadata sn)) = Some (Inr (last_included_term (metadata sn)))) \<and>
    (\<forall>i. 0 < i \<and> i < last_included_index (metadata sn) \<longrightarrow>
       mem_term p m' i = Some (Inl (LogCompacted i (last_included_index (metadata sn) + 1))))"
proof -
  let ?i = "last_included_index (metadata sn)"
  let ?m = "m\<lparr>entries := drop (unat ?i - base (mem_alog m)) (entries m), snapshot := Some sn\<rparr>"
  let ?l = "alog_compact (mem_alog m) (unat ?i) (last_included_term (metadata sn))"
  have al: "mem_alog ?m = ?l" by (rule mem_alog_installed)
  then have ok': "mem_ok ?m"
    using assms by (simp add: mem_ok_def alog_compact_ok)
  have l: "alog_last ?l = max (alog_last (mem_alog m)) (unat ?i)"
    using newer by (auto simp: alog_last_def alog_compact_def)
  have "unat (mem_last_index ?m) = unat (max (mem_last_index m) ?i)"
    using l al ok by (auto simp: unat_mem_last_index [OF ok'] unat_mem_last_index max_def word_le_nat_alt)
  then have la: "mem_last_index ?m = max (mem_last_index m) ?i"
    by (simp add: word_unat_eq_iff)
  have above: "mem_term p ?m i = mem_term p m i" if "?i < i" for i
  proof -
    have "unat ?i < unat i" using that by (simp add: word_less_nat_alt)
    moreover have "i \<noteq> 0" using that by auto
    ultimately have "alog_term ?l i = alog_term (mem_alog m) i"
      using newer l by (auto simp: alog_term_def alog_compact_def alog_last_def)
    then show ?thesis
      by (simp add: mem_term_spec [OF ok'] mem_term_spec [OF ok] al)
  qed
  have at: "mem_term p ?m ?i = Some (Inr (last_included_term (metadata sn)))" if "0 < ?i"
    using that by (auto simp: mem_term_def Let_def)
  have below: "mem_term p ?m i = Some (Inl (LogCompacted i (?i + 1)))" if "0 < i" "i < ?i" for i
    using that u64_succ [OF bound, of p] by (auto simp: mem_term_def Let_def)
  have "mem_first_index p ?m = Some (?i + 1)"
    using u64_succ [OF bound, of p] by (simp add: mem_first_index_def)
  then show ?thesis
    using mem_apply_snapshot_spec [OF assms, of p] ok' la above at below by auto
qed

theorem mem_snapshot_install_witness:
  "\<exists>m'. mem_apply_snapshot Release sample_mem (sample_snapshot 3) = Some (m', Inr ()) \<and> mem_ok m' \<and>
    mem_first_index Release m' = Some 4 \<and> mem_last_index m' = 4 \<and>
    mem_term Release m' 2 = Some (Inl (LogCompacted 2 4))"
  using mem_snapshot_install [OF sample_mem_ok, of "sample_snapshot 3" Release]
  by (auto simp: sample_mem_alog mem_last_index_def)

text \<open>C18 (refinement): any sequence of writes inside the contract runs on the in-memory backend
  without a panic or an error, keeps it well-formed, and acts on its abstract log as the
  specification does; the hard state is the one saved last.\<close>

theorem mem_writes_refine:
  assumes "mem_ok m" "writes_ok (mem_alog m) ws"
  shows "\<exists>m'. run_writes (mem_storage p) ws m = Some (Inr m') \<and> mem_ok m' \<and>
    mem_alog m' = fold alog_write ws (mem_alog m) \<and>
    hard_state m' = last_hard_state (hard_state m) ws"
  using assms by (rule mem.writes_simulate)

definition sample_writes :: "StorageWrite list" where
  "sample_writes = [WriteSnapshot (sample_snapshot 3), WriteEntries [sample_entry 3 5],
     WriteSnapshot (sample_snapshot 9)]"

theorem mem_writes_refine_witness:
  "\<exists>m'. run_writes (mem_storage Debug) sample_writes sample_mem = Some (Inr m') \<and>
    mem_ok m' \<and> mem_alog m' = \<lparr>base = 9, base_term = 1, ents = []\<rparr>"
proof -
  have "writes_ok (mem_alog sample_mem) sample_writes"
    "fold alog_write sample_writes (mem_alog sample_mem) = \<lparr>base = 9, base_term = 1, ents = []\<rparr>"
    by (simp_all add: sample_writes_def sample_mem_alog alog_compact_def alog_append_def
        alog_ok_def contiguous_def less_Suc_eq)
  then show ?thesis
    using mem_writes_refine [OF sample_mem_ok, of sample_writes Debug] by auto
qed

text \<open>C35 (error): a batch that starts at or below the snapshot is not handled. The offset
  computation underflows: a dev build panics; a release build wraps around, truncates nothing
  and appends the batch behind the newer entries.\<close>

theorem mem_append_below_snapshot:
  assumes "mem_ok m" "es \<noteq> []" "unat (le_index (hd es)) \<le> base (mem_alog m)"
  shows "mem_append_entries Debug m es = None \<and>
    mem_append_entries Release m es = Some (m\<lparr>entries := entries m @ es\<rparr>, Inr ())"
proof -
  let ?k = "le_index (hd es)"
  obtain f where f: "\<And>p. mem_first_index p m = Some f" "unat f = base (mem_alog m) + 1"
    using assms(1) mem_first_index_spec [OF assms(1)] unat_mem_first [OF assms(1)] by blast
  have lt: "\<not> f \<le> ?k"
    using f(2) assms(3) by (simp add: word_le_nat_alt)
  have le: "?k \<le> mem_last_index m"
    using assms(3) by (simp add: word_le_nat_alt unat_mem_last_index [OF assms(1)] alog_last_def)
  have "unat (?k - f) = 2 ^ 64 + unat ?k - unat f"
    using lt f(2) u64_range [of f] u64_range [of ?k] by (simp add: unat_sub_if_size word_le_nat_alt word_size)
  then have w: "\<not> unat (?k - f) < length (entries m)"
    using mem_base_bound [OF assms(1)] f(2) by simp
  show ?thesis
    using assms(2) le lt f(1) w by (simp add: mem_append_entries_def u64_sub_def Let_def)
qed

theorem mem_append_below_snapshot_witness:
  "mem_append_entries Debug sample_mem [sample_entry 1 2] = None \<and>
   (case mem_append_entries Release sample_mem [sample_entry 1 2] of
      Some (m', _) \<Rightarrow> entries m' = [sample_entry 1 3, sample_entry 2 4, sample_entry 1 2]
    | None \<Rightarrow> False)"
  using mem_append_below_snapshot [OF sample_mem_ok, of "[sample_entry 1 2]"]
  by (simp add: sample_mem_alog)

text \<open>C39 (error): a snapshot older than the one held is installed without any check. The entries
  stay where they are under a smaller base, so the store is then well-formed only if it holds
  no entry at all.\<close>

theorem mem_stale_snapshot:
  assumes "mem_ok m" "unat (last_included_index (metadata sn)) < base (mem_alog m)"
  shows "mem_apply_snapshot p m sn = Some (m\<lparr>snapshot := Some sn\<rparr>, Inr ()) \<and>
    (mem_ok (m\<lparr>snapshot := Some sn\<rparr>) \<longleftrightarrow> entries m = [])"
proof
  let ?i = "last_included_index (metadata sn)"
  obtain f where f: "mem_first_index p m = Some f" "unat f = base (mem_alog m) + 1"
    using assms(1) by (rule mem_first_indexE)
  have "\<not> f \<le> ?i" using f(2) assms(2) by (simp add: word_le_nat_alt)
  then show "mem_apply_snapshot p m sn = Some (m\<lparr>snapshot := Some sn\<rparr>, Inr ())"
    using f(1) by (simp add: mem_apply_snapshot_def Let_def)
  have "contiguous (unat ?i + 1) (entries m) \<longleftrightarrow> entries m = []"
    using mem_contiguous [OF assms(1)] assms(2)
      contiguous_hd [of "unat ?i + 1" "entries m"]
      contiguous_hd [of "base (mem_alog m) + 1" "entries m"] by (auto simp del: contiguous_hd)
  then show "mem_ok (m\<lparr>snapshot := Some sn\<rparr>) \<longleftrightarrow> entries m = []"
    using mem_base_bound [OF assms(1)] assms by (auto simp: mem_ok_def alog_ok_def mem_alog_def)
qed

theorem mem_stale_snapshot_witness:
  "(case mem_apply_snapshot Debug sample_mem (sample_snapshot 1) of
      Some (m', _) \<Rightarrow> \<not> mem_ok m' | None \<Rightarrow> False)"
  using mem_stale_snapshot [OF sample_mem_ok, of "sample_snapshot 1" Debug]
  by (simp add: sample_mem_alog)

end
