(* ===== verification/Node_Votes.thy ===== *)
theory Node_Votes
  imports Raft_Loop Mem_Storage
begin

text \<open>
  What each operation of the node does to its vote: the term, the candidate voted for, the
  role and the votes received. Every operation but a granted vote request, a vote response
  and the start of an election either leaves these alone or steps down to a higher term; and
  every operation leaves the saved hard state equal to the one in memory. The facts are
  proved once for any storage that keeps its hard state (\<open>hard_state_store\<close>).
\<close>

subsection \<open>Quiet operations\<close>

definition keeps_vote :: "RaftStateMachine \<Rightarrow> RaftStateMachine \<Rightarrow> bool" where
  "keeps_vote s s' \<longleftrightarrow>
     current_term s' = current_term s \<and> voted_for s' = voted_for s \<and>
       role s' = role s \<and> votes_received s' = votes_received s \<or>
     current_term s < current_term s' \<and> voted_for s' = None \<and>
       role s' = Follower \<and> votes_received s' = {}"

definition vote_tasks :: "RpcTask list \<Rightarrow> RpcTask list" where
  "vote_tasks ts = filter (\<lambda>t. case t of VoteTask _ _ \<Rightarrow> True | _ \<Rightarrow> False) ts"

text \<open>The hard state in storage is the one in memory.\<close>

definition synced :: "('s \<Rightarrow> HardState) \<Rightarrow> 's RaftNodeInner \<Rightarrow> bool" where
  "synced hard g \<longleftrightarrow> hard (storage g) = hard_state_of (sm g)"

definition quiet :: "('s \<Rightarrow> HardState) \<Rightarrow> 's RaftNodeInner \<Rightarrow> 's RaftNodeInner \<Rightarrow> bool" where
  "quiet hard g g' \<longleftrightarrow> keeps_vote (sm g) (sm g') \<and> config g' = config g \<and>
     vote_tasks (spawned g') = vote_tasks (spawned g) \<and> (synced hard g \<longrightarrow> synced hard g')"

lemma keeps_vote_refl [simp]: "keeps_vote s s"
  by (simp add: keeps_vote_def)

lemma keeps_vote_trans: "keeps_vote a b \<Longrightarrow> keeps_vote b c \<Longrightarrow> keeps_vote a c"
  by (auto simp: keeps_vote_def)

lemma keeps_vote_term: "keeps_vote s s' \<Longrightarrow> current_term s \<le> current_term s'"
  by (auto simp: keeps_vote_def)

lemma keeps_vote_frame:
  "current_term s' = current_term s \<Longrightarrow> voted_for s' = voted_for s \<Longrightarrow> role s' = role s \<Longrightarrow>
   votes_received s' = votes_received s \<Longrightarrow> keeps_vote s s'"
  by (simp add: keeps_vote_def)

lemma become_follower_keeps_vote: "current_term s < t \<Longrightarrow> keeps_vote s (become_follower t l s)"
  by (simp add: keeps_vote_def become_follower_def)

lemma quiet_refl [simp]: "quiet hard g g"
  by (simp add: quiet_def)

lemma quiet_trans: "quiet hard a b \<Longrightarrow> quiet hard b c \<Longrightarrow> quiet hard a c"
  by (auto simp: quiet_def intro: keeps_vote_trans)

lemma hard_state_of_eq:
  "current_term s' = current_term s \<Longrightarrow> voted_for s' = voted_for s \<Longrightarrow>
   commit_index s' = commit_index s \<Longrightarrow> hard_state_of s' = hard_state_of s"
  by (simp add: hard_state_of_def)

text \<open>A change that touches neither the vote nor the hard state is quiet.\<close>

lemma quietI_frame:
  assumes "current_term (sm g') = current_term (sm g)" "voted_for (sm g') = voted_for (sm g)"
    "role (sm g') = role (sm g)" "votes_received (sm g') = votes_received (sm g)"
    "commit_index (sm g') = commit_index (sm g)" "config g' = config g"
    "vote_tasks (spawned g') = vote_tasks (spawned g)" "hard (storage g') = hard (storage g)"
  shows "quiet hard g g'"
  using assms hard_state_of_eq [of "sm g'" "sm g"]
  by (simp add: quiet_def synced_def keeps_vote_frame)

lemma vote_tasks_append [simp]: "vote_tasks (xs @ ys) = vote_tasks xs @ vote_tasks ys"
  by (simp add: vote_tasks_def)

lemma vote_tasks_simps [simp]:
  "vote_tasks [] = []"
  "vote_tasks [AppendTask a i r] = []"
  "vote_tasks [SnapshotTask a i r'] = []"
  "vote_tasks (map (\<lambda>x. VoteTask x req) ps) = map (\<lambda>x. VoteTask x req) ps"
  by (simp_all add: vote_tasks_def filter_map comp_def)

lemma spawn_append_quiet: "spawn_append p g peer i t es = Some g' \<Longrightarrow> quiet hard g g'"
  by (auto simp: spawn_append_def intro!: quietI_frame elim!: bind_SomeE)

lemma send_snapshot_quiet: "send_snapshot_to S g peer = Some g' \<Longrightarrow> quiet hard g g'"
  by (auto simp: send_snapshot_to_def intro!: quietI_frame elim!: bind_SomeE
      split: sum.splits option.splits)

lemma replicate_to_quiet: "replicate_to p S g peer = Some g' \<Longrightarrow> quiet hard g g'"
  by (auto simp: replicate_to_def
      elim!: bind_SomeE split: option.splits if_splits sum.splits RaftError.splits)
    (erule spawn_append_quiet send_snapshot_quiet)+

lemma replicate_peers_quiet: "replicate_peers p S ps g = Some g' \<Longrightarrow> quiet hard g g'"
  by (induction ps arbitrary: g)
    (auto elim!: bind_SomeE intro: quiet_trans replicate_to_quiet)

lemma replicate_all_quiet: "replicate_all p S g = Some g' \<Longrightarrow> quiet hard g g'"
  by (auto simp: replicate_all_def intro: replicate_peers_quiet split: if_splits)

lemma replicate_to_sm: "replicate_to p S g peer = Some g' \<Longrightarrow> sm g' = sm g"
  by (auto simp: replicate_to_def spawn_append_def send_snapshot_to_def elim!: bind_SomeE
      split: option.splits if_splits sum.splits RaftError.splits)

lemma replicate_peers_sm: "replicate_peers p S ps g = Some g' \<Longrightarrow> sm g' = sm g"
  by (induction ps arbitrary: g) (auto elim!: bind_SomeE dest: replicate_to_sm)

lemma replicate_all_sm: "replicate_all p S g = Some g' \<Longrightarrow> sm g' = sm g"
  by (auto simp: replicate_all_def dest: replicate_peers_sm split: if_splits)

lemma notify_pending_quiet [simp]: "quiet hard g (notify_pending g)"
  by (simp add: notify_pending_def Let_def quietI_frame)

lemma send_opt_quiet [simp]: "quiet hard g (send_opt tx r g)"
  by (simp add: send_opt_def quietI_frame split: option.split)

lemma fold_apply_entry_quiet: "quiet hard g (fold apply_entry es g)"
proof (induction es arbitrary: g)
  case Nil
  then show ?case by simp
next
  case (Cons e es)
  have "quiet hard g (apply_entry e g)"
    by (simp add: apply_entry_def quietI_frame)
  with Cons.IH [of "apply_entry e g"] show ?case
    by (auto intro: quiet_trans)
qed

lemma apply_committed_quiet: "apply_committed p S g = Some g' \<Longrightarrow> quiet hard g g'"
  by (auto simp: apply_committed_def Let_def fold_apply_entry_quiet
      elim!: bind_SomeE split: if_splits sum.splits)

lemma with_progress_quiet: "with_progress peer f g = Some g' \<Longrightarrow> quiet hard g g'"
  by (auto simp: with_progress_def elim!: bind_SomeE split: option.splits intro!: quietI_frame)

subsection \<open>Operations that save the hard state\<close>

text \<open>What a save changes: the storage and the term gauge, nothing else.\<close>

lemma node_save_frame:
  assumes "node_save_hard_state S g = Some g'"
  obtains st r f where "g' = metrics_update f (g\<lparr>storage := st\<rparr>)"
    "save_hard_state S (storage g) (hard_state_of (sm g)) = Some (st, r)"
  using assms by (auto simp: node_save_hard_state_def elim!: bind_SomeE)

lemma commit_scan_ge:
  "commit_scan S st pr q t c n = Some c' \<Longrightarrow> c \<le> c'"
proof (induction S st pr q t c n rule: commit_scan.induct)
  case (1 S st pr q t c n)
  show ?case
  proof (cases "c < n")
    case True
    with "1.prems" obtain r where r: "log_term S st n = Some r"
      "(if unwrap_or r 0 = t \<and> q \<le> replicated pr n then Some n
        else commit_scan S st pr q t c (n - 1)) = Some c'"
      by (auto simp: commit_scan_unfold [of S st pr q t c n] elim!: bind_SomeE)
    then show ?thesis
      using True "1.IH" [OF True r(1)] by (auto split: if_splits)
  next
    case False
    with "1.prems" show ?thesis by (simp add: commit_scan_unfold [of S st pr q t c n])
  qed
qed

lemma start_facts:
  "boot S cfg st now j = Some r \<Longrightarrow>
   restore S (node_new cfg st) = Some (inner r) \<and> rx r = [] \<and> running r"
  by (auto simp: boot_eq elim!: bind_SomeE)

context hard_state_store
begin

lemma save_synced:
  assumes "node_save_hard_state S g = Some g'"
  shows "synced hard g'" "sm g' = sm g" "config g' = config g" "spawned g' = spawned g"
    "pending g' = pending g" "snapshot_buf g' = snapshot_buf g" "sent g' = sent g"
    "applied g' = applied g"
  using assms hs_save by (auto simp: synced_def elim!: node_save_frame)

lemma save_facts:
  "node_save_hard_state S g = Some g' \<Longrightarrow> hard (storage g') = hard_state_of (sm g') \<and>
     sm g' = sm g \<and> config g' = config g \<and> spawned g' = spawned g"
  using save_synced [of g g'] by (auto simp: synced_def)

lemma save_quiet:
  assumes "node_save_hard_state S (sm_update f g) = Some g'" "keeps_vote (sm g) (f (sm g))"
  shows "quiet hard g g'"
  using save_synced [OF assms(1)] assms(2) by (simp add: quiet_def)

lemma observe_term_quiet: "observe_term S t l g = Some g' \<Longrightarrow> quiet hard g g'"
  by (auto simp: observe_term_def become_follower_keeps_vote split: if_splits
      intro: save_quiet [where f = "become_follower t l"])

lemma observe_term_ge: "observe_term S t l g = Some g' \<Longrightarrow> t \<le> current_term (sm g')"
  by (auto simp: observe_term_def become_follower_def save_synced split: if_splits)

lemma accept_entries_quiet:
  assumes "accept_entries S g req = Some (g', r)"
  shows "quiet hard g g'"
proof -
  obtain st x where app: "(if ae_entries req \<noteq> []
      then append_entries S (storage g) (map proto_entry_to_log_entry (ae_entries req))
      else Some (storage g, Inr ())) = Some (st, x)"
    and rest: "(case x of Inl e \<Rightarrow> Some (g\<lparr>storage := st\<rparr>, Inl e)
      | Inr _ \<Rightarrow> (if commit_index (sm g) < leader_commit req
          then last_index_or_0 S st \<bind> (\<lambda>l. node_save_hard_state S
            (sm_update (\<lambda>s. s\<lparr>commit_index := min (leader_commit req) l\<rparr>) (g\<lparr>storage := st\<rparr>)))
          else Some (g\<lparr>storage := st\<rparr>)) \<bind>
        (\<lambda>g'. Some (metrics_update
           (\<lambda>m. m\<lparr>append_entries_received := append_entries_received m + 1\<rparr>) g',
          Inr \<lparr>aer_term = current_term (sm g'), success = True, conflict_index = 0,
            conflict_term = 0\<rparr>))) = Some (g', r)"
    using assms unfolding accept_entries_def by (auto elim!: bind_SomeE)
  have st: "hard st = hard (storage g)"
    using app hs_append by (auto split: if_splits)
  have q1: "quiet hard g (g\<lparr>storage := st\<rparr>)"
    by (rule quietI_frame) (simp_all add: st)
  have saved: "quiet hard (g\<lparr>storage := st\<rparr>) g1"
    if "node_save_hard_state S
      (sm_update (\<lambda>s. s\<lparr>commit_index := c\<rparr>) (g\<lparr>storage := st\<rparr>)) = Some g1" for c g1
    using that by (rule save_quiet) (simp add: keeps_vote_def)
  have metric: "quiet hard g1 (metrics_update f g1)" for f and g1 :: "'s RaftNodeInner"
    by (rule quietI_frame) simp_all
  from rest show ?thesis
    using q1 by (auto split: sum.splits if_splits elim!: bind_SomeE
        intro: quiet_trans metric dest: saved)
qed

lemma on_append_entries_quiet:
  assumes "on_append_entries p S g req = Some (g', r)"
  shows "quiet hard g g'"
proof -
  obtain g1 where g1: "observe_term S (ae_term req) (Some (ae_leader_id req)) g = Some g1"
    using assms by (auto simp: on_append_entries_def elim!: bind_SomeE)
  let ?g2 = "sm_update (\<lambda>s. s\<lparr>leader_id := Some (ae_leader_id req)\<rparr>) g1"
  have q1: "quiet hard g g1" using g1 by (rule observe_term_quiet)
  have q2: "quiet hard g1 ?g2" by (rule quietI_frame) simp_all
  consider "g' = g1" | "g' = ?g2" | "accept_entries S ?g2 req = Some (g', r)"
    using assms g1 by (auto simp: on_append_entries_def Let_def elim!: bind_SomeE
        split: if_splits option.splits)
  then show ?thesis
    using q1 q2 by cases (auto intro: quiet_trans accept_entries_quiet)
qed

lemma finish_snapshot_quiet:
  "finish_snapshot S g meta buf i = Some (g', r) \<Longrightarrow> quiet hard g g'"
  by (auto simp: finish_snapshot_def quiet_def keeps_vote_def synced_def
      elim!: bind_SomeE split: sum.splits dest!: save_facts hs_install)

lemma on_install_snapshot_quiet:
  assumes "on_install_snapshot S g req = Some (g', r)"
  shows "quiet hard g g'"
proof -
  obtain g1 where g1: "observe_term S (is_term req) (Some (is_leader_id req)) g = Some g1"
    using assms by (auto simp: on_install_snapshot_def elim!: bind_SomeE)
  obtain meta buf where mb: "buffer_chunk (snapshot_buf g1) req = (meta, buf)"
    by fastforce
  let ?g2 = "g1\<lparr>snapshot_buf := Some (meta, buf)\<rparr>"
  have q1: "quiet hard g g1" using g1 by (rule observe_term_quiet)
  have q2: "quiet hard g1 ?g2" by (rule quietI_frame) simp_all
  consider "g' = g1" | "g' = ?g2"
    | "finish_snapshot S ?g2 meta buf (is_last_included_index req) = Some (g', r)"
    using assms g1 mb by (auto simp: on_install_snapshot_def Let_def split: if_splits)
  then show ?thesis
    using q1 q2 by cases (auto intro: quiet_trans finish_snapshot_quiet)
qed

lemma maybe_advance_commit_quiet:
  assumes "maybe_advance_commit p S g = Some g'"
  shows "quiet hard g g'"
proof (cases "role (sm g) = Leader")
  case False
  with assms show ?thesis by (simp add: maybe_advance_commit_def)
next
  case True
  with assms obtain c g1 where g': "g' = notify_pending g1"
    and g1: "(if commit_index (sm g) < c
      then node_save_hard_state S (sm_update (\<lambda>s. s\<lparr>commit_index := c\<rparr>) g) \<bind> (\<lambda>g'.
        u64_sub p c (last_applied (sm g')) \<bind> (\<lambda>d.
          Some (metrics_update (\<lambda>m. m\<lparr>entries_committed := entries_committed m + d,
            commit_index_gauge := as_i64 c\<rparr>) g')))
      else Some g) = Some g1"
    by (auto simp: maybe_advance_commit_def elim!: bind_SomeE)
  have "quiet hard g g1"
    using g1 by (auto simp: quiet_def synced_def keeps_vote_def split: if_splits
        elim!: bind_SomeE dest!: save_facts)
  then show ?thesis
    unfolding g' by (rule quiet_trans) simp
qed

lemma handle_append_response_quiet:
  "handle_append_response p S g peer i resp = Some g' \<Longrightarrow> quiet hard g g'"
  by (auto simp: handle_append_response_def elim!: bind_SomeE split: if_splits
      intro: observe_term_quiet quiet_trans [OF with_progress_quiet maybe_advance_commit_quiet])

lemma handle_snapshot_response_quiet:
  "handle_snapshot_response p S g peer i resp = Some g' \<Longrightarrow> quiet hard g g'"
  by (auto simp: handle_snapshot_response_def elim!: bind_SomeE split: if_splits
      intro: observe_term_quiet quiet_trans [OF with_progress_quiet maybe_advance_commit_quiet])

lemma on_proposal_quiet:
  assumes "on_proposal p S g pr = Some g'"
  shows "quiet hard g g'"
proof (cases "role (sm g) = Leader")
  case False
  with assms show ?thesis by (auto simp: on_proposal_def)
next
  case True
  with assms obtain es st x i where app: "append_entries S (storage g) es = Some (st, x)"
    and rest: "(case x of
        Inl e \<Rightarrow> Some (send_opt (prop_tx pr) (ProposeReply (Inl e)) (g\<lparr>storage := st\<rparr>))
      | Inr _ \<Rightarrow> replicate_all p S (case prop_tx pr of
            None \<Rightarrow> g\<lparr>storage := st\<rparr>
          | Some c \<Rightarrow> g\<lparr>storage := st, pending := pending (g\<lparr>storage := st\<rparr>) @ [(i, c)]\<rparr>)) = Some g'"
    by (auto simp: on_proposal_def Let_def elim!: bind_SomeE)
  have q: "quiet hard g (g\<lparr>storage := st\<rparr>)"
    by (rule quietI_frame) (simp_all add: hs_append [OF app])
  moreover have "quiet hard g (case prop_tx pr of
            None \<Rightarrow> g\<lparr>storage := st\<rparr>
          | Some c \<Rightarrow> g\<lparr>storage := st, pending := pending (g\<lparr>storage := st\<rparr>) @ [(i, c)]\<rparr>)"
    by (rule quietI_frame) (simp_all add: hs_append [OF app] split: option.split)
  ultimately show ?thesis
    using rest by (cases x) (auto intro: quiet_trans send_opt_quiet replicate_all_quiet)
qed

lemma restore_synced:
  assumes "restore S g = Some g'" "role (sm g) = Follower" "votes_received (sm g) = {}"
  shows "role (sm g') = Follower" "votes_received (sm g') = {}" "config g' = config g"
    "current_term (sm g') = hs_term (hard (storage g))"
    "voted_for (sm g') = (if hs_vote (hard (storage g)) = 0 then None
       else Some (hs_vote (hard (storage g))))"
    "spawned g' = spawned g" "synced hard g'"
  using assms by (auto simp: restore_def hs_load synced_def hard_state_of_def)

subsection \<open>Votes and elections\<close>

text \<open>The two outcomes of a vote request: after the term has been observed, the vote is
  denied and nothing changes, or it is granted, recorded and saved.\<close>

lemma on_request_vote_outcome:
  assumes "on_request_vote S g req = Some (g', r)"
  obtains g1 resp where "r = Inr resp" "observe_term S (rv_term req) None g = Some g1"
    "rvr_term resp = current_term (sm g')"
    "vote_granted resp = False \<and> g' = g1 \<or>
     vote_granted resp = True \<and> current_term (sm g1) = rv_term req \<and>
       voted_for (sm g1) \<in> {None, Some (candidate_id req)} \<and>
       sm g' = (sm g1)\<lparr>voted_for := Some (candidate_id req)\<rparr> \<and> config g' = config g1 \<and>
       spawned g' = spawned g1 \<and> synced hard g'"
proof -
  from assms obtain g1 where g1: "observe_term S (rv_term req) None g = Some g1"
    by (auto simp: on_request_vote_def elim!: bind_SomeE)
  have ge: "rv_term req \<le> current_term (sm g1)"
    using g1 by (rule observe_term_ge)
  show thesis
  proof (cases "r = Inr \<lparr>rvr_term = current_term (sm g1), vote_granted = False\<rparr> \<and> g' = g1")
    case True
    then show thesis using g1 by (auto intro: that)
  next
    case False
    with assms g1 obtain g2 where g2:
      "node_save_hard_state S (sm_update (\<lambda>s. s\<lparr>voted_for := Some (candidate_id req)\<rparr>) g1) = Some g2"
      and res: "\<not> rv_term req < current_term (sm g1)"
        "voted_for (sm g1) \<in> {None, Some (candidate_id req)}"
        "r = Inr \<lparr>rvr_term = current_term (sm g2), vote_granted = True\<rparr>"
        "g' = metrics_update (\<lambda>m. m\<lparr>votes_granted := votes_granted m + 1\<rparr>) g2"
      by (auto simp: on_request_vote_def Let_def elim!: bind_SomeE split: if_splits option.splits)
    show thesis
      using g1 ge res save_synced [OF g2] by (intro that) (auto simp: synced_def)
  qed
qed

lemma win_election_outcome:
  assumes "win_election p S g = Some g'"
  shows "current_term (sm g') = current_term (sm g)" "voted_for (sm g') = voted_for (sm g)"
    "role (sm g') = Leader" "votes_received (sm g') = votes_received (sm g)"
    "config g' = config g" "vote_tasks (spawned g') = vote_tasks (spawned g)"
    "synced hard g \<Longrightarrow> synced hard g'"
proof -
  from assms obtain s m pr where s: "s = (sm g)\<lparr>role := Leader, leader_id := Some (cfg_id (config g)),
      progress := pr\<rparr>"
    and g': "replicate_all p S (metrics_update m (g\<lparr>sm := s\<rparr>)) = Some g'"
    by (auto simp: win_election_def become_leader_def elim!: bind_SomeE)
  let ?g1 = "metrics_update m (g\<lparr>sm := s\<rparr>)"
  have q: "quiet hard ?g1 g'" using g' by (rule replicate_all_quiet)
  have "role (sm g') = Leader \<and> current_term (sm g') = current_term (sm g) \<and>
      voted_for (sm g') = voted_for (sm g) \<and> votes_received (sm g') = votes_received (sm g)"
    using replicate_all_sm [OF g'] by (simp add: s)
  then show "current_term (sm g') = current_term (sm g)" "voted_for (sm g') = voted_for (sm g)"
    "role (sm g') = Leader" "votes_received (sm g') = votes_received (sm g)"
    by simp_all
  show "config g' = config g" "vote_tasks (spawned g') = vote_tasks (spawned g)"
    using q by (simp_all add: quiet_def)
  show "synced hard g'" if "synced hard g"
    using q that by (simp add: quiet_def synced_def s hard_state_of_def)
qed

lemma handle_vote_response_outcome:
  assumes "handle_vote_response p S g peer resp = Some g'"
  shows "quiet hard g g' \<or>
    vote_granted resp \<and> rvr_term resp \<le> current_term (sm g) \<and> role (sm g) = Candidate \<and>
    current_term (sm g') = current_term (sm g) \<and> voted_for (sm g') = voted_for (sm g) \<and>
    votes_received (sm g') = insert peer (votes_received (sm g)) \<and>
    (role (sm g') = Candidate \<or>
      role (sm g') = Leader \<and> quorum (config g) \<le> card (insert peer (votes_received (sm g)))) \<and>
    config g' = config g \<and> vote_tasks (spawned g') = vote_tasks (spawned g) \<and>
    (synced hard g \<longrightarrow> synced hard g')"
proof -
  let ?g1 = "sm_update (\<lambda>s. s\<lparr>votes_received := insert peer (votes_received s)\<rparr>) g"
  have sync: "synced hard g \<Longrightarrow> synced hard ?g1"
    by (simp add: synced_def hard_state_of_def)
  consider "observe_term S (rvr_term resp) None g = Some g'" | "g' = g"
    | "vote_granted resp" "rvr_term resp \<le> current_term (sm g)" "role (sm g) = Candidate"
      "g' = ?g1"
    | "vote_granted resp" "rvr_term resp \<le> current_term (sm g)" "role (sm g) = Candidate"
      "quorum (config g) \<le> card (insert peer (votes_received (sm g)))"
      "win_election p S ?g1 = Some g'"
    using assms by (fastforce simp: handle_vote_response_def Let_def split: if_splits)
  then show ?thesis
  proof cases
    case 1
    then show ?thesis by (simp add: observe_term_quiet)
  next
    case 4
    then show ?thesis using win_election_outcome [OF 4(5)] sync by simp
  qed (simp_all add: sync)
qed

lemma start_election_outcome:
  assumes "start_election p S g = Some g'"
  obtains t req where "u64_add p (current_term (sm g)) 1 = Some t" "current_term (sm g') = t"
    "voted_for (sm g') = Some (cfg_id (config g))"
    "votes_received (sm g') = {cfg_id (config g)}"
    "role (sm g') = Candidate \<or> role (sm g') = Leader \<and> quorum (config g) \<le> 1"
    "config g' = config g" "synced hard g'"
    "vote_tasks (spawned g') = vote_tasks (spawned g) @ map (\<lambda>x. VoteTask x req) (peers (config g))"
    "candidate_id req = cfg_id (config g)" "rv_term req = t"
proof -
  from assms obtain t g1 l lt where t: "u64_add p (current_term (sm g)) 1 = Some t"
    and g1: "node_save_hard_state S (g\<lparr>sm := (sm g)\<lparr>current_term := t, role := Candidate,
      voted_for := Some (cfg_id (config g)), leader_id := None,
      votes_received := {cfg_id (config g)}\<rparr>\<rparr>) = Some g1"
    and rest: "(let req = \<lparr>rv_term = current_term (sm g1), candidate_id = cfg_id (config g1),
          last_log_index = l, last_log_term = lt, pre_vote = False\<rparr>;
        g2 = (metrics_update (\<lambda>m. m\<lparr>elections_started := elections_started m + 1\<rparr>) g1)\<lparr>
          spawned := spawned g1 @ map (\<lambda>peer. VoteTask peer req) (peers (config g1))\<rparr>
      in if quorum (config g2) \<le> card (votes_received (sm g2)) \<and> role (sm g2) = Candidate
        then win_election p S g2 else Some g2) = Some g'"
    by (auto simp: start_election_def become_candidate_def elim!: bind_SomeE)
  let ?req = "\<lparr>rv_term = current_term (sm g1), candidate_id = cfg_id (config g1),
    last_log_index = l, last_log_term = lt, pre_vote = False\<rparr>"
  let ?g2 = "(metrics_update (\<lambda>m. m\<lparr>elections_started := elections_started m + 1\<rparr>) g1)\<lparr>
    spawned := spawned g1 @ map (\<lambda>peer. VoteTask peer ?req) (peers (config g1))\<rparr>"
  note f1 = save_synced [OF g1, simplified]
  have sync2: "synced hard ?g2"
    using f1(1) by (simp add: synced_def)
  show thesis
  proof (cases "g' = ?g2")
    case True
    then show thesis using t f1 sync2 by (intro that [of t ?req]) simp_all
  next
    case False
    then have "win_election p S ?g2 = Some g'" "quorum (config g) \<le> 1"
      using rest f1 by (auto simp: Let_def split: if_splits)
    then show thesis
      using t f1 sync2 win_election_outcome [of p ?g2 g'] by (intro that [of t ?req]) simp_all
  qed
qed

end

end
