(* ===== verification/Raft_Network.thy ===== *)
theory Raft_Network
  imports Raft_Loop
begin

text \<open>
  What a node sees of the network: the traits \<^verbatim>\<open>NetworkTransport\<close> and
  \<^verbatim>\<open>RaftMessageHandler\<close> (\<^verbatim>\<open>src/iceraft-network/src/transport.rs\<close>), the
  node as a handler and the tasks it spawns (\<^verbatim>\<open>src/iceraft-node/src/node.rs\<close>), the no-op
  transport (\<^verbatim>\<open>src/iceraft/src/lib.rs\<close>) and the loopback transport of the example
  (\<^verbatim>\<open>src/examples/three_node_cluster.rs\<close>).

  A trait is a record of operations. A call changes the state \<open>'w\<close> of the world behind the
  transport and returns a \<^verbatim>\<open>Result\<close>; \<open>None\<close> is a panic of the handler.
\<close>

subsection \<open>The traits\<close>

record 'h RaftMessageHandler =
  handle_append_entries ::
    "'h \<Rightarrow> AppendEntriesRequest \<Rightarrow> ('h \<times> AppendEntriesResponse result) option"
  handle_request_vote ::
    "'h \<Rightarrow> RequestVoteRequest \<Rightarrow> ('h \<times> RequestVoteResponse result) option"
  handle_install_snapshot ::
    "'h \<Rightarrow> InstallSnapshotRequest \<Rightarrow> ('h \<times> InstallSnapshotResponse result) option"

record 'w NetworkTransport =
  send_append_entries ::
    "'w \<Rightarrow> NodeId \<Rightarrow> AppendEntriesRequest \<Rightarrow> ('w \<times> AppendEntriesResponse result) option"
  send_request_vote ::
    "'w \<Rightarrow> NodeId \<Rightarrow> RequestVoteRequest \<Rightarrow> ('w \<times> RequestVoteResponse result) option"
  send_install_snapshot ::
    "'w \<Rightarrow> NodeId \<Rightarrow> InstallSnapshotRequest \<Rightarrow> ('w \<times> InstallSnapshotResponse result) option"

text \<open>\<^verbatim>\<open>impl RaftMessageHandler for RaftNode\<close>: take the lock, call the method.\<close>

definition node_handler :: "profile \<Rightarrow> 's Storage \<Rightarrow> 's RaftNodeInner RaftMessageHandler" where
  "node_handler p S = \<lparr>
     handle_append_entries = on_append_entries p S,
     handle_request_vote = on_request_vote S,
     handle_install_snapshot = on_install_snapshot S\<rparr>"

text \<open>The spawned RPC tasks: send the request and, unless the call fails, queue the response for
  the event loop.\<close>

fun run_task :: "'w NetworkTransport \<Rightarrow> 'w \<Rightarrow> RpcTask \<Rightarrow> ('w \<times> RaftMessage option) option" where
  "run_task T w (VoteTask peer req) = do {
     (w', r) \<leftarrow> send_request_vote T w peer req;
     ret (w', case r of Inr resp \<Rightarrow> Some (VoteResponse peer resp) | Inl _ \<Rightarrow> None)
   }"
| "run_task T w (AppendTask peer req_last_index req) = do {
     (w', r) \<leftarrow> send_append_entries T w peer req;
     ret (w', case r of Inr resp \<Rightarrow> Some (AppendResponse peer req_last_index resp) | Inl _ \<Rightarrow> None)
   }"
| "run_task T w (SnapshotTask peer req_last_index req) = do {
     (w', r) \<leftarrow> send_install_snapshot T w peer req;
     ret (w', case r of Inr resp \<Rightarrow> Some (SnapshotResponse peer req_last_index resp) | Inl _ \<Rightarrow> None)
   }"

subsection \<open>NoopTransport and Loopback\<close>

definition noop_transport :: "'w NetworkTransport" where
  "noop_transport = \<lparr>
     send_append_entries = \<lambda>w _ _. ret (w, Inl (NetworkError ''noop transport'')),
     send_request_vote = \<lambda>w _ _. ret (w, Inl (NetworkError ''noop transport'')),
     send_install_snapshot = \<lambda>w _ _. ret (w, Inl (NetworkError ''noop transport''))\<rparr>"

text \<open>The registered handlers of the loopback transport.\<close>

type_synonym 'h peers_map = "NodeId \<Rightarrow> 'h option"

definition loopback_new :: "'h peers_map" where
  "loopback_new = (\<lambda>_. None)"

definition loopback_add :: "NodeId \<Rightarrow> 'h \<Rightarrow> 'h peers_map \<Rightarrow> 'h peers_map" where
  "loopback_add i h w = w(i \<mapsto> h)"

definition call_peer ::
  "('h \<Rightarrow> 'q \<Rightarrow> ('h \<times> 'r result) option) \<Rightarrow> 'h peers_map \<Rightarrow> NodeId \<Rightarrow> 'q \<Rightarrow>
   ('h peers_map \<times> 'r result) option" where
  "call_peer handle w target req =
     (case w target of
        None \<Rightarrow> ret (w, Inl (NetworkError ''unknown peer''))
      | Some h \<Rightarrow> do {
          (h', r) \<leftarrow> handle h req;
          ret (w(target \<mapsto> h'), r)
        })"

definition loopback :: "'h RaftMessageHandler \<Rightarrow> 'h peers_map NetworkTransport" where
  "loopback H = \<lparr>
     send_append_entries = call_peer (handle_append_entries H),
     send_request_vote = call_peer (handle_request_vote H),
     send_install_snapshot = call_peer (handle_install_snapshot H)\<rparr>"

subsection \<open>Calls through the transports\<close>

lemma loopback_simps [simp]:
  "send_append_entries (loopback H) = call_peer (handle_append_entries H)"
  "send_request_vote (loopback H) = call_peer (handle_request_vote H)"
  "send_install_snapshot (loopback H) = call_peer (handle_install_snapshot H)"
  by (simp_all add: loopback_def)

lemma node_handler_simps [simp]:
  "handle_append_entries (node_handler p S) = on_append_entries p S"
  "handle_request_vote (node_handler p S) = on_request_vote S"
  "handle_install_snapshot (node_handler p S) = on_install_snapshot S"
  by (simp_all add: node_handler_def)

end
