(* ===== verification/Raft_Cluster.thy ===== *)
theory Raft_Cluster
  imports Node_Votes Mem_Storage Raft_Network
begin

text \<open>
  A cluster of nodes and the leader election between them. A state holds the nodes, the
  requests and the responses on their way, and the history of the votes held. The steps are
  the ones the code can take, in any interleaving:
  \<^item> \<open>client\<close>: the public interface puts a message into a node's channel;
  \<^item> \<open>recv\<close>, \<open>tick\<close>: an iteration of a node's event loop (message arm, timeout arm);
  \<^item> \<open>dispatch\<close>: a spawned task hands its request to the transport;
  \<^item> \<open>deliver\<close>: the transport calls the handler of the target and brings back the
    response. The transport is the loopback transport of the example: a request for
    a node that is not registered fails;
  \<^item> \<open>arrive\<close>: the task queues the response in the channel of its node;
  \<^item> \<open>restart\<close>: a node stops and starts again on the same storage.

  Requests and responses stay on their way for ever and can be taken any number of times, late
  or never: losses, delays, reordering and duplicates are all included. The parameter
  \<open>env\<close> restricts which message a node may process and when its timer may fire; \<open>any\<close>
  restricts nothing.
\<close>

subsection \<open>State and steps\<close>

record 's Cluster =
  procs :: "NodeId \<Rightarrow> 's RaftNode"
  net :: "(NodeId \<times> RpcTask) set"
  replies :: "(NodeId \<times> RaftMessage) set"
  votes_cast :: "(NodeId \<times> Term \<times> NodeId) set"

definition held_vote :: "NodeId \<Rightarrow> 's RaftNodeInner \<Rightarrow> (NodeId \<times> Term \<times> NodeId) set" where
  "held_vote n g = (case voted_for (sm g) of
     None \<Rightarrow> {} | Some x \<Rightarrow> {(n, current_term (sm g), x)})"

definition put :: "NodeId \<Rightarrow> 's RaftNode \<Rightarrow> 's Cluster \<Rightarrow> 's Cluster" where
  "put n r c = c\<lparr>procs := (procs c)(n := r), votes_cast := votes_cast c \<union> held_vote n (inner r)\<rparr>"

fun is_client :: "RaftMessage \<Rightarrow> bool" where
  "is_client (AppendResponse _ _ _) = False"
| "is_client (VoteResponse _ _) = False"
| "is_client (SnapshotResponse _ _ _) = False"
| "is_client _ = True"

fun task_target :: "RpcTask \<Rightarrow> NodeId" where
  "task_target (VoteTask to _) = to"
| "task_target (AppendTask to _ _) = to"
| "task_target (SnapshotTask to _ _) = to"

text \<open>A delivery is the spawned task run over the loopback transport, where its target is
  registered: the state of the target afterwards, and the message the task will queue.\<close>

definition deliver_task ::
  "profile \<Rightarrow> 's Storage \<Rightarrow> RpcTask \<Rightarrow> 's RaftNodeInner \<Rightarrow>
   ('s RaftNodeInner \<times> RaftMessage option) option" where
  "deliver_task p S t g = do {
     (w, reply) \<leftarrow> run_task (loopback (node_handler p S)) (loopback_add (task_target t) g loopback_new) t;
     map_option (\<lambda>g'. (g', reply)) (w (task_target t))
   }"

lemma deliver_task_simps [simp, code]:
  "deliver_task p S (VoteTask to vreq) g = do {
     (g', r) \<leftarrow> on_request_vote S g vreq;
     ret (g', case r of Inr resp \<Rightarrow> Some (VoteResponse to resp) | Inl _ \<Rightarrow> None)
   }"
  "deliver_task p S (AppendTask to i areq) g = do {
     (g', r) \<leftarrow> on_append_entries p S g areq;
     ret (g', case r of Inr resp \<Rightarrow> Some (AppendResponse to i resp) | Inl _ \<Rightarrow> None)
   }"
  "deliver_task p S (SnapshotTask to i sreq) g = do {
     (g', r) \<leftarrow> on_install_snapshot S g sreq;
     ret (g', case r of Inr resp \<Rightarrow> Some (SnapshotResponse to i resp) | Inl _ \<Rightarrow> None)
   }"
  by (auto simp: deliver_task_def call_peer_def loopback_add_def split: bind_split)

type_synonym 's env = "'s RaftNodeInner \<Rightarrow> RaftMessage option \<Rightarrow> bool"

inductive cluster_step ::
  "profile \<Rightarrow> 's Storage \<Rightarrow> NodeId set \<Rightarrow> 's env \<Rightarrow> 's Cluster \<Rightarrow> 's Cluster \<Rightarrow> bool"
  for p S M env where
  client: "n \<in> M \<Longrightarrow> is_client m \<Longrightarrow> api_send (procs c n) m = Inr r \<Longrightarrow>
    cluster_step p S M env c (put n r c)"
| recv: "n \<in> M \<Longrightarrow> running (procs c n) \<Longrightarrow> rx (procs c n) = m # ms \<Longrightarrow>
    env (inner (procs c n)) (Some m) \<Longrightarrow> on_recv p S (procs c n) = Some r \<Longrightarrow>
    cluster_step p S M env c (put n r c)"
| tick: "n \<in> M \<Longrightarrow> running (procs c n) \<Longrightarrow> env (inner (procs c n)) None \<Longrightarrow>
    wake_at (procs c n) \<le> now \<Longrightarrow> now \<le> now' \<Longrightarrow> jitter_ok (config (inner (procs c n))) j \<Longrightarrow>
    on_timeout p S now now' j (procs c n) = Some r \<Longrightarrow>
    cluster_step p S M env c (put n r c)"
| dispatch: "n \<in> M \<Longrightarrow> spawned (inner (procs c n)) = t # ts \<Longrightarrow>
    cluster_step p S M env c
      ((put n (inner_update (\<lambda>g. g\<lparr>spawned := ts\<rparr>) (procs c n)) c)\<lparr>net := insert (n, t) (net c)\<rparr>)"
| deliver: "(n, t) \<in> net c \<Longrightarrow> task_target t \<in> M \<Longrightarrow>
    deliver_task p S t (inner (procs c (task_target t))) = Some (g, reply) \<Longrightarrow>
    cluster_step p S M env c
      ((put (task_target t) ((procs c (task_target t))\<lparr>inner := g\<rparr>) c)\<lparr>
        replies := (case reply of None \<Rightarrow> replies c | Some m \<Rightarrow> insert (n, m) (replies c))\<rparr>)"
| arrive: "(n, m) \<in> replies c \<Longrightarrow> n \<in> M \<Longrightarrow> running (procs c n) \<Longrightarrow>
    cluster_step p S M env c (put n ((procs c n)\<lparr>rx := rx (procs c n) @ [m]\<rparr>) c)"
| restart: "n \<in> M \<Longrightarrow> jitter_ok (config (inner (procs c n))) j \<Longrightarrow>
    boot S (config (inner (procs c n))) (storage (inner (procs c n))) now j = Some r \<Longrightarrow>
    cluster_step p S M env c (put n r c)"

inductive_cases cluster_stepE: "cluster_step p S M env c c'"

text \<open>Every node starts on some storage, with a configuration that names it and the whole
  cluster; no node has the identifier 0, which the hard state uses for "no vote".\<close>

definition cluster_init :: "'s Storage \<Rightarrow> NodeId set \<Rightarrow> 's Cluster \<Rightarrow> bool" where
  "cluster_init S M c \<longleftrightarrow> 0 \<notin> M \<and> net c = {} \<and> replies c = {} \<and>
     votes_cast c = (\<Union>n \<in> M. held_vote n (inner (procs c n))) \<and>
     (\<forall>n \<in> M. members (config (inner (procs c n))) = M \<and>
       cfg_id (config (inner (procs c n))) = n \<and>
       (\<exists>st now j. boot S (config (inner (procs c n))) st now j = Some (procs c n)))"

inductive reachable ::
  "profile \<Rightarrow> 's Storage \<Rightarrow> NodeId set \<Rightarrow> 's env \<Rightarrow> 's Cluster \<Rightarrow> bool"
  for p S M env where
  initial: "cluster_init S M c \<Longrightarrow> reachable p S M env c"
| step: "reachable p S M env c \<Longrightarrow> cluster_step p S M env c c' \<Longrightarrow> reachable p S M env c'"

definition any :: "'s env" where
  "any g m = True"

text \<open>
  The environment under which elections are safe: a granted vote is processed only while its
  candidate is still in the term of that vote, and no term counter wraps around (in the dev
  profile it cannot).
\<close>

definition timely :: "profile \<Rightarrow> 's env" where
  "timely p g m = (case m of
     Some (VoteResponse _ resp) \<Rightarrow>
       vote_granted resp \<longrightarrow> current_term (sm g) \<le> rvr_term resp
   | None \<Rightarrow> p = Debug \<or> unat (current_term (sm g)) < 2 ^ 64 - 1
   | _ \<Rightarrow> True)"

definition is_leader :: "'s Cluster \<Rightarrow> NodeId \<Rightarrow> Term \<Rightarrow> bool" where
  "is_leader c n t \<longleftrightarrow> role (sm (inner (procs c n))) = Leader \<and>
     current_term (sm (inner (procs c n))) = t"

subsection \<open>The invariant\<close>

definition reply_ok ::
  "NodeId set \<Rightarrow> (NodeId \<times> Term \<times> NodeId) set \<Rightarrow> NodeId \<Rightarrow> RaftMessage \<Rightarrow> bool" where
  "reply_ok M V n m = (case m of
     VoteResponse v resp \<Rightarrow> vote_granted resp \<longrightarrow> v \<in> M \<and> (v, rvr_term resp, n) \<in> V
   | _ \<Rightarrow> True)"

definition task_ok :: "NodeId set \<Rightarrow> NodeId \<Rightarrow> RpcTask \<Rightarrow> bool" where
  "task_ok M n t = (case t of VoteTask to req \<Rightarrow> n \<in> M \<and> candidate_id req = n | _ \<Rightarrow> True)"

text \<open>What holds of the vote of node \<open>n\<close>, given the history \<open>V\<close>.\<close>

definition vote_inv ::
  "NodeId set \<Rightarrow> (NodeId \<times> Term \<times> NodeId) set \<Rightarrow> NodeId \<Rightarrow> RaftStateMachine \<Rightarrow> RaftConfig \<Rightarrow> bool" where
  "vote_inv M V n s cfg \<longleftrightarrow>
     voted_for s \<noteq> Some 0 \<and>
     (\<forall>x. voted_for s = Some x \<longrightarrow> (n, current_term s, x) \<in> V) \<and>
     (\<forall>t x. (n, t, x) \<in> V \<longrightarrow> t \<le> current_term s \<and> (t = current_term s \<longrightarrow> voted_for s = Some x)) \<and>
     (role s \<noteq> Follower \<longrightarrow>
       (\<forall>v \<in> votes_received s. v \<in> M \<and> (v, current_term s, n) \<in> V)) \<and>
     (role s = Leader \<longrightarrow> quorum cfg \<le> card (votes_received s))"

definition node_inv ::
  "('s \<Rightarrow> HardState) \<Rightarrow> NodeId set \<Rightarrow> (NodeId \<times> Term \<times> NodeId) set \<Rightarrow> NodeId \<Rightarrow> 's RaftNode \<Rightarrow> bool" where
  "node_inv hard M V n r \<longleftrightarrow>
     members (config (inner r)) = M \<and> cfg_id (config (inner r)) = n \<and>
     synced hard (inner r) \<and> vote_inv M V n (sm (inner r)) (config (inner r)) \<and>
     (\<forall>m \<in> set (rx r). reply_ok M V n m) \<and>
     (\<forall>t \<in> set (vote_tasks (spawned (inner r))). task_ok M n t)"

definition one_vote :: "(NodeId \<times> Term \<times> NodeId) set \<Rightarrow> bool" where
  "one_vote V \<longleftrightarrow> (\<forall>v t x y. (v, t, x) \<in> V \<longrightarrow> (v, t, y) \<in> V \<longrightarrow> x = y)"

definition cluster_inv :: "('s \<Rightarrow> HardState) \<Rightarrow> NodeId set \<Rightarrow> 's Cluster \<Rightarrow> bool" where
  "cluster_inv hard M c \<longleftrightarrow> 0 \<notin> M \<and> one_vote (votes_cast c) \<and>
     (\<forall>n \<in> M. node_inv hard M (votes_cast c) n (procs c n)) \<and>
     (\<forall>(n, m) \<in> replies c. reply_ok M (votes_cast c) n m) \<and>
     (\<forall>(n, t) \<in> net c. task_ok M n t)"

subsection \<open>Preservation\<close>

lemma reply_ok_mono: "reply_ok M V n m \<Longrightarrow> V \<subseteq> V' \<Longrightarrow> reply_ok M V' n m"
  by (auto simp: reply_ok_def split: RaftMessage.splits)

lemma node_inv_mono:
  assumes "node_inv hard M V m r" "V \<subseteq> V'" "\<And>t x. (m, t, x) \<in> V' \<Longrightarrow> (m, t, x) \<in> V"
  shows "node_inv hard M V' m r"
proof -
  have "vote_inv M V' m (sm (inner r)) (config (inner r))"
    using assms unfolding node_inv_def vote_inv_def by blast
  moreover have "\<forall>msg \<in> set (rx r). reply_ok M V' m msg"
    using assms(1,2) by (auto simp: node_inv_def intro: reply_ok_mono)
  ultimately show ?thesis
    using assms(1) by (simp add: node_inv_def)
qed

lemma held_vote_node: "(m, t, x) \<in> held_vote n g \<Longrightarrow> m = n"
  by (auto simp: held_vote_def split: option.splits)

text \<open>Replacing one node keeps the invariant if the new node and the extended history do.\<close>

lemma put_inv:
  assumes inv: "cluster_inv hard M c" and n: "n \<in> M"
    and V: "V = votes_cast c \<union> held_vote n (inner r)"
    and r: "node_inv hard M V n r" and one: "one_vote V"
  shows "cluster_inv hard M (put n r c)"
proof -
  have "node_inv hard M V m (if m = n then r else procs c m)" if "m \<in> M" for m
  proof (cases "m = n")
    case False
    have "node_inv hard M (votes_cast c) m (procs c m)"
      using inv that by (simp add: cluster_inv_def)
    then have "node_inv hard M V m (procs c m)"
      by (rule node_inv_mono) (use False in \<open>auto simp: V dest: held_vote_node\<close>)
    then show ?thesis using False by simp
  qed (simp add: r)
  moreover have "\<forall>(m, msg) \<in> replies c. reply_ok M V m msg"
    using inv by (auto simp: cluster_inv_def V intro: reply_ok_mono)
  ultimately show ?thesis
    using inv one by (auto simp: cluster_inv_def put_def V [symmetric])
qed

text \<open>A quiet operation adds nothing to the history.\<close>

lemma quiet_vote_inv:
  assumes "vote_inv M V n s cfg" "keeps_vote s s'"
  shows "vote_inv M V n s' cfg"
  using assms unfolding vote_inv_def keeps_vote_def by fastforce

lemma vote_inv_held: "vote_inv M V n (sm g) cfg \<Longrightarrow> V \<union> held_vote n g = V"
  by (auto simp: vote_inv_def held_vote_def split: option.splits)

lemma quiet_node_inv:
  assumes "node_inv hard M V n r" "quiet hard (inner r) (inner r')"
    and "\<forall>m \<in> set (rx r'). reply_ok M V n m"
  shows "node_inv hard M V n r'" "V \<union> held_vote n (inner r') = V"
proof -
  show *: "node_inv hard M V n r'"
    using assms quiet_vote_inv [of M V n "sm (inner r)"] by (simp add: node_inv_def quiet_def)
  then show "V \<union> held_vote n (inner r') = V"
    unfolding node_inv_def by (blast dest: vote_inv_held)
qed

lemma put_quiet_inv:
  assumes "cluster_inv hard M c" "n \<in> M" "quiet hard (inner (procs c n)) (inner r)"
    and "\<forall>m \<in> set (rx r). reply_ok M (votes_cast c) n m"
  shows "cluster_inv hard M (put n r c)" "votes_cast (put n r c) = votes_cast c"
proof -
  have inv: "node_inv hard M (votes_cast c) n (procs c n)" and one: "one_vote (votes_cast c)"
    using assms(1,2) by (simp_all add: cluster_inv_def)
  note q = quiet_node_inv [OF inv assms(3,4)]
  show "cluster_inv hard M (put n r c)"
    using assms(1,2) q(2) [symmetric] q(1) one by (rule put_inv)
  show "votes_cast (put n r c) = votes_cast c"
    by (simp add: put_def q(2))
qed

lemma cluster_node_inv:
  "cluster_inv hard M c \<Longrightarrow> n \<in> M \<Longrightarrow> node_inv hard M (votes_cast c) n (procs c n)"
  by (simp add: cluster_inv_def)

lemma cluster_inv_extra:
  assumes "cluster_inv hard M c" "\<forall>(n, m) \<in> R. reply_ok M (votes_cast c) n m"
    and "\<forall>(n, t) \<in> N. task_ok M n t"
  shows "cluster_inv hard M (c\<lparr>replies := R\<rparr>)" "cluster_inv hard M (c\<lparr>net := N\<rparr>)"
  using assms by (simp_all add: cluster_inv_def)

text \<open>A node takes a vote it did not hold: in a term in which it had none, or in a new
  term.\<close>

lemma one_vote_new:
  assumes "one_vote V" "\<And>y. (n, t, y) \<in> V \<Longrightarrow> y = x"
  shows "one_vote (V \<union> {(n, t, x)})"
  using assms by (auto simp: one_vote_def)

lemma u64_add_one_greater:
  assumes "u64_add p a 1 = Some b" "p = Debug \<or> unat a < 2 ^ 64 - 1"
  shows "a < b"
proof -
  have "unat a < 2 ^ 64 - 1"
    using assms by (auto simp: u64_add_nat split: if_splits)
  then show ?thesis
    using u64_succ [of a p] assms(1) by (simp add: word_less_nat_alt)
qed

subsection \<open>Every step keeps the invariant\<close>

context hard_state_store
begin

text \<open>A vote request: the only way a node comes to hold a vote for another.\<close>

lemma deliver_vote_inv:
  assumes inv: "cluster_inv hard M c" and to: "to \<in> M"
    and task: "task_ok M n (VoteTask to req)"
    and req: "on_request_vote S (inner (procs c to)) req = Some (g', r)"
  shows "cluster_inv hard M (put to ((procs c to)\<lparr>inner := g'\<rparr>) c)"
    and "r = Inr resp \<Longrightarrow>
      reply_ok M (votes_cast (put to ((procs c to)\<lparr>inner := g'\<rparr>) c)) n (VoteResponse to resp)"
proof -
  let ?r = "(procs c to)\<lparr>inner := g'\<rparr>" and ?V = "votes_cast c"
  have node: "node_inv hard M ?V to (procs c to)" and one: "one_vote ?V"
    using inv to by (simp_all add: cluster_inv_def)
  obtain g1 resp' where out: "r = Inr resp'" "observe_term S (rv_term req) None (inner (procs c to)) = Some g1"
    "rvr_term resp' = current_term (sm g')"
    "vote_granted resp' = False \<and> g' = g1 \<or>
     vote_granted resp' = True \<and> current_term (sm g1) = rv_term req \<and>
       voted_for (sm g1) \<in> {None, Some (candidate_id req)} \<and>
       sm g' = (sm g1)\<lparr>voted_for := Some (candidate_id req)\<rparr> \<and> config g' = config g1 \<and>
       spawned g' = spawned g1 \<and> synced hard g'"
    using req by (rule on_request_vote_outcome)
  have q: "quiet hard (inner (procs c to)) g1"
    using out(2) by (rule observe_term_quiet)
  have "\<forall>m \<in> set (rx (procs c to)). reply_ok M ?V to m"
    using node by (simp add: node_inv_def)
  note q1 = quiet_node_inv [OF node, of "(procs c to)\<lparr>inner := g1\<rparr>", simplified, OF q this]
  have goal: "cluster_inv hard M (put to ?r c) \<and>
    (r = Inr resp \<longrightarrow> reply_ok M (votes_cast (put to ?r c)) n (VoteResponse to resp))"
  proof (cases "vote_granted resp'")
    case False
    then have "g' = g1" using out(4) by simp
    then show ?thesis
      using put_quiet_inv [OF inv to, of ?r] q q1 node out(1) False
      by (auto simp: node_inv_def reply_ok_def)
  next
    case True
    let ?x = "candidate_id req" and ?t = "current_term (sm g1)"
    have g': "voted_for (sm g1) \<in> {None, Some ?x}" "sm g' = (sm g1)\<lparr>voted_for := Some ?x\<rparr>"
      "config g' = config g1" "spawned g' = spawned g1" "synced hard g'"
      using out(4) True by auto
    have x: "?x = n" "n \<in> M" "n \<noteq> 0"
      using task inv by (auto simp: task_ok_def cluster_inv_def)
    have v1: "vote_inv M ?V to (sm g1) (config g1)"
      using q1(1) by (simp add: node_inv_def)
    have new: "y = ?x" if "(to, ?t, y) \<in> ?V" for y
      using v1 g'(1) that unfolding vote_inv_def by auto
    define V where "V = ?V \<union> {(to, ?t, ?x)}"
    have V: "V = ?V \<union> held_vote to (inner ?r)"
      by (simp add: V_def held_vote_def g'(2))
    have oneV: "one_vote V"
      unfolding V_def using one new by (rule one_vote_new)
    have "vote_inv M V to (sm g') (config g')"
      using v1 x new unfolding vote_inv_def g'(2,3) V_def by (auto simp: g'(2))
    then have "node_inv hard M V to ?r"
      using q1(1) g' by (auto simp: node_inv_def V_def intro: reply_ok_mono)
    then have "cluster_inv hard M (put to ?r c)"
      using inv to V oneV by (intro put_inv)
    moreover have "votes_cast (put to ?r c) = V"
      by (simp add: put_def V)
    ultimately show ?thesis
      using out(1,3) x to by (auto simp: reply_ok_def V_def g'(2))
  qed
  then show "cluster_inv hard M (put to ?r c)"
    and "r = Inr resp \<Longrightarrow> reply_ok M (votes_cast (put to ?r c)) n (VoteResponse to resp)"
    by simp_all
qed

text \<open>The start of an election: a new term, and a vote for oneself in it.\<close>

lemma start_election_inv:
  assumes inv: "cluster_inv hard M c" and n: "n \<in> M"
    and el: "start_election p S (inner (procs c n)) = Some g'"
    and bound: "p = Debug \<or> unat (current_term (sm (inner (procs c n)))) < 2 ^ 64 - 1"
    and r: "inner r = g'" "rx r = rx (procs c n)"
  shows "cluster_inv hard M (put n r c)"
proof -
  let ?g = "inner (procs c n)" and ?V = "votes_cast c"
  have node: "node_inv hard M ?V n (procs c n)" and one: "one_vote ?V" and M0: "0 \<notin> M"
    using inv n by (simp_all add: cluster_inv_def)
  then have id: "cfg_id (config ?g) = n" by (simp add: node_inv_def)
  obtain t req where raw: "u64_add p (current_term (sm ?g)) 1 = Some t" "current_term (sm g') = t"
    "voted_for (sm g') = Some (cfg_id (config ?g))"
    "votes_received (sm g') = {cfg_id (config ?g)}"
    "role (sm g') = Candidate \<or> role (sm g') = Leader \<and> quorum (config ?g) \<le> 1"
    "config g' = config ?g" "synced hard g'"
    "vote_tasks (spawned g') = vote_tasks (spawned ?g) @ map (\<lambda>x. VoteTask x req) (peers (config ?g))"
    "candidate_id req = cfg_id (config ?g)" "rv_term req = t"
    using el by (rule start_election_outcome)
  note out = raw [unfolded id]
  have t: "current_term (sm ?g) < t"
    using out(1) bound by (rule u64_add_one_greater)
  define V where "V = ?V \<union> {(n, t, n)}"
  have V: "V = ?V \<union> held_vote n (inner r)"
    by (simp add: V_def held_vote_def r(1) out(2,3))
  have older: "s < t" if "(n, s, x) \<in> ?V" for s x
  proof -
    have "s \<le> current_term (sm ?g)"
      using node that unfolding node_inv_def vote_inv_def by blast
    then show ?thesis using t by (rule order.strict_trans1)
  qed
  have "one_vote V"
    unfolding V_def by (rule one_vote_new [OF one]) (use older in blast)
  moreover have "vote_inv M V n (sm g') (config g')"
    using out n M0 older unfolding vote_inv_def V_def
    by (auto dest: order.strict_implies_order)
  then have "node_inv hard M V n r"
    using node r out n by (auto simp: node_inv_def V_def task_ok_def intro: reply_ok_mono)
  ultimately show ?thesis
    using inv n V by (intro put_inv)
qed

text \<open>A vote response. It is here that the environment matters: the vote counted must have
  been cast in the term of the candidate.\<close>

lemma vote_response_inv:
  assumes inv: "cluster_inv hard M c" and n: "n \<in> M"
    and resp: "handle_vote_response p S (inner (procs c n)) peer resp = Some g'"
    and ok: "reply_ok M (votes_cast c) n (VoteResponse peer resp)"
    and env: "vote_granted resp \<longrightarrow> current_term (sm (inner (procs c n))) \<le> rvr_term resp"
    and r: "inner r = g'" "\<forall>m \<in> set (rx r). reply_ok M (votes_cast c) n m"
  shows "cluster_inv hard M (put n r c)"
proof (cases "quiet hard (inner (procs c n)) g'")
  case True
  then show ?thesis
    using inv n r by (intro put_quiet_inv(1)) simp_all
next
  case False
  let ?g = "inner (procs c n)" and ?V = "votes_cast c"
  have node: "node_inv hard M ?V n (procs c n)" and one: "one_vote ?V"
    using inv n by (simp_all add: cluster_inv_def)
  have out: "vote_granted resp" "rvr_term resp = current_term (sm ?g)" "role (sm ?g) = Candidate"
    "current_term (sm g') = current_term (sm ?g)" "voted_for (sm g') = voted_for (sm ?g)"
    "votes_received (sm g') = insert peer (votes_received (sm ?g))"
    "role (sm g') = Candidate \<or>
      role (sm g') = Leader \<and> quorum (config ?g) \<le> card (insert peer (votes_received (sm ?g)))"
    "config g' = config ?g" "vote_tasks (spawned g') = vote_tasks (spawned ?g)"
    "synced hard ?g \<longrightarrow> synced hard g'"
    using handle_vote_response_outcome [OF resp] False env by (auto intro: order.antisym)
  have peer: "peer \<in> M" "(peer, current_term (sm ?g), n) \<in> ?V"
    using ok out(1,2) by (simp_all add: reply_ok_def)
  have v: "vote_inv M ?V n (sm g') (config g')"
    using node out peer unfolding node_inv_def vote_inv_def by auto
  then have "node_inv hard M ?V n r"
    using node r out by (simp add: node_inv_def)
  moreover have "?V = ?V \<union> held_vote n (inner r)"
    using vote_inv_held [OF v] r(1) by simp
  ultimately show ?thesis
    using inv n one by (intro put_inv)
qed

lemma handle_message_quiet:
  assumes "handle_message p S g m = Some (g', b)" "\<And>v resp. m \<noteq> VoteResponse v resp"
  shows "quiet hard g g'"
proof -
  have sent: "quiet hard g (g\<lparr>sent := xs\<rparr>)" for xs
    by (rule quietI_frame) simp_all
  show ?thesis
    using assms by (cases m) (auto simp: sent elim!: bind_SomeE intro: on_proposal_quiet
        handle_append_response_quiet handle_snapshot_response_quiet)
qed

lemma deliver_quiet:
  assumes "deliver_task p S t g = Some (g', reply)" "\<And>to req. t \<noteq> VoteTask to req"
  shows "quiet hard g g'" "reply = Some m \<Longrightarrow> reply_ok M V n m"
  using assms by (cases t; auto simp: reply_ok_def elim!: bind_SomeE
      intro: on_append_entries_quiet on_install_snapshot_quiet split: sum.splits)+

lemma recv_inv:
  assumes inv: "cluster_inv hard M c" and n: "n \<in> M" and rx: "rx (procs c n) = m # ms"
    and env: "timely p (inner (procs c n)) (Some m)"
    and step: "on_recv p S (procs c n) = Some r"
  shows "cluster_inv hard M (put n r c)"
proof -
  have ok: "\<forall>m' \<in> set (m # ms). reply_ok M (votes_cast c) n m'"
    using cluster_node_inv [OF inv n] rx by (simp add: node_inv_def)
  obtain g' b where g': "handle_message p S (inner (procs c n)) m = Some (g', b)"
    "inner r = g'" "rx r = (if b then ms else [])"
    using step rx by (auto simp: on_recv_def elim!: bind_SomeE)
  have rx': "\<forall>m' \<in> set (rx r). reply_ok M (votes_cast c) n m'"
    using ok g'(3) by simp
  show ?thesis
  proof (cases "\<exists>v resp. m = VoteResponse v resp")
    case True
    then obtain v resp where m: "m = VoteResponse v resp" by blast
    have "handle_vote_response p S (inner (procs c n)) v resp = Some g'"
      using g'(1) m by (auto elim!: bind_SomeE)
    then show ?thesis
      using inv n ok env g'(2) rx' m by (intro vote_response_inv) (auto simp: timely_def)
  next
    case False
    then show ?thesis
      using inv n g' rx' handle_message_quiet [OF g'(1)] by (intro put_quiet_inv(1)) auto
  qed
qed

lemma tick_inv:
  assumes inv: "cluster_inv hard M c" and n: "n \<in> M"
    and env: "timely p (inner (procs c n)) None"
    and step: "on_timeout p S now now' j (procs c n) = Some r"
  shows "cluster_inv hard M (put n r c)"
proof -
  have rx: "\<forall>m \<in> set (rx (procs c n)). reply_ok M (votes_cast c) n m"
    using cluster_node_inv [OF inv n] by (simp add: node_inv_def)
  have same: "rx r = rx (procs c n)"
    using step by (auto simp: on_timeout_def Let_def elim!: bind_SomeE split: if_splits)
  consider (elect) "start_election p S (inner (procs c n)) = Some (inner r)"
    | (beat) g1 g2 where "replicate_all p S (inner (procs c n)) = Some g1"
      "maybe_advance_commit p S g1 = Some g2" "apply_committed p S g2 = Some (inner r)"
    | (idle) "inner r = inner (procs c n)"
    using step by (auto simp: on_timeout_def Let_def elim!: bind_SomeE split: if_splits)
  then show ?thesis
  proof cases
    case elect
    then show ?thesis
      using inv n env same by (intro start_election_inv) (simp_all add: timely_def)
  next
    case beat
    have "quiet hard (inner (procs c n)) (inner r)"
      using replicate_all_quiet [OF beat(1)] maybe_advance_commit_quiet [OF beat(2)]
        apply_committed_quiet [OF beat(3)] by (blast intro: quiet_trans)
    then show ?thesis
      using inv n rx same by (intro put_quiet_inv(1)) simp_all
  next
    case idle
    then show ?thesis
      using inv n rx same by (intro put_quiet_inv(1)) simp_all
  qed
qed

lemma restart_inv:
  assumes inv: "cluster_inv hard M c" and n: "n \<in> M"
    and step: "boot S (config (inner (procs c n))) (storage (inner (procs c n))) now j = Some r"
  shows "cluster_inv hard M (put n r c)"
proof -
  let ?g = "inner (procs c n)" and ?V = "votes_cast c"
  have node: "node_inv hard M ?V n (procs c n)" and one: "one_vote ?V"
    using inv n by (simp_all add: cluster_inv_def)
  have r: "restore S (node_new (config ?g) (storage ?g)) = Some (inner r)" "rx r = []"
    using step by (auto dest: start_facts)
  note f = restore_synced [OF r(1), simplified node_new_def sm_new_def, simplified]
  have hard: "hard (storage ?g) = hard_state_of (sm ?g)"
    using node by (simp add: node_inv_def synced_def)
  have v0: "vote_inv M ?V n (sm ?g) (config ?g)"
    using node by (simp add: node_inv_def)
  then have "voted_for (sm ?g) \<noteq> Some 0"
    by (simp add: vote_inv_def)
  then have same: "current_term (sm (inner r)) = current_term (sm ?g)"
      "voted_for (sm (inner r)) = voted_for (sm ?g)"
    unfolding f(4,5) by (auto simp: hard hard_state_of_def split: option.splits)
  have v: "vote_inv M ?V n (sm (inner r)) (config (inner r))"
    using v0 unfolding vote_inv_def same f(1-3) by simp
  then have "node_inv hard M ?V n r"
    using node f r(2) by (simp add: node_inv_def)
  then show ?thesis
    using inv n vote_inv_held [OF v] one by (intro put_inv [of hard M c n ?V]) simp_all
qed

lemma dispatch_inv:
  assumes inv: "cluster_inv hard M c" and n: "n \<in> M"
    and sp: "spawned (inner (procs c n)) = t # ts"
  shows "cluster_inv hard M
    ((put n (inner_update (\<lambda>g. g\<lparr>spawned := ts\<rparr>) (procs c n)) c)\<lparr>net := insert (n, t) (net c)\<rparr>)"
proof -
  let ?r = "inner_update (\<lambda>g. g\<lparr>spawned := ts\<rparr>) (procs c n)" and ?V = "votes_cast c"
  have node: "node_inv hard M ?V n (procs c n)" and one: "one_vote ?V"
    using inv n by (simp_all add: cluster_inv_def)
  have "vote_inv M ?V n (sm (inner ?r)) (config (inner ?r))"
    using node by (simp add: node_inv_def)
  then have V: "?V = ?V \<union> held_vote n (inner ?r)"
    by (simp add: vote_inv_held)
  have "set (vote_tasks ts) \<subseteq> set (vote_tasks (t # ts))"
    by (auto simp: vote_tasks_def)
  then have "node_inv hard M ?V n ?r"
    using node sp by (auto simp: node_inv_def synced_def)
  then have "cluster_inv hard M (put n ?r c)"
    using inv n one V by (intro put_inv)
  moreover have "task_ok M n t"
    using node sp n by (auto simp: node_inv_def vote_tasks_def task_ok_def split: RpcTask.splits)
  moreover have "\<forall>(m, u) \<in> net c. task_ok M m u"
    using inv by (simp add: cluster_inv_def)
  ultimately show ?thesis
    by (simp add: cluster_inv_def)
qed

lemma deliver_inv:
  assumes inv: "cluster_inv hard M c" and t: "(n, t) \<in> net c" and to: "task_target t \<in> M"
    and step: "deliver_task p S t (inner (procs c (task_target t))) = Some (g, reply)"
  shows "cluster_inv hard M ((put (task_target t) ((procs c (task_target t))\<lparr>inner := g\<rparr>) c)\<lparr>
    replies := (case reply of None \<Rightarrow> replies c | Some m \<Rightarrow> insert (n, m) (replies c))\<rparr>)"
proof -
  let ?to = "task_target t"
  let ?c = "put ?to ((procs c ?to)\<lparr>inner := g\<rparr>) c"
  have task: "task_ok M n t"
    using inv t by (auto simp: cluster_inv_def)
  have "cluster_inv hard M ?c \<and> (\<forall>m. reply = Some m \<longrightarrow> reply_ok M (votes_cast ?c) n m)"
  proof (cases "\<exists>to req. t = VoteTask to req")
    case True
    then obtain to req where t': "t = VoteTask to req" by blast
    then obtain r where r: "on_request_vote S (inner (procs c to)) req = Some (g, r)"
      "reply = (case r of Inr resp \<Rightarrow> Some (VoteResponse to resp) | Inl _ \<Rightarrow> None)"
      using step by (auto elim!: bind_SomeE)
    have "to \<in> M" "task_ok M n (VoteTask to req)" using task to t' by simp_all
    from deliver_vote_inv [OF inv this r(1)] show ?thesis
      using r(2) t' by (auto split: sum.splits)
  next
    case False
    then have q: "quiet hard (inner (procs c ?to)) g"
      and ok: "\<And>m. reply = Some m \<Longrightarrow> reply_ok M (votes_cast ?c) n m"
      using deliver_quiet [OF step] by blast+
    have "\<forall>m \<in> set (rx (procs c ?to)). reply_ok M (votes_cast c) ?to m"
      using cluster_node_inv [OF inv to] by (simp add: node_inv_def)
    then show ?thesis
      using put_quiet_inv(1) [OF inv to, of "(procs c ?to)\<lparr>inner := g\<rparr>"] q ok by simp
  qed
  moreover have "replies ?c = replies c"
    by (simp add: put_def)
  ultimately show ?thesis
    by (auto simp: cluster_inv_def split: option.splits)
qed

lemma cluster_step_inv:
  assumes "cluster_step p S M (timely p) c c'" "cluster_inv hard M c"
  shows "cluster_inv hard M c'"
  using assms
proof (cases rule: cluster_step.cases)
  case (client n m r)
  have "inner r = inner (procs c n)" "rx r = rx (procs c n) @ [m]"
    using client(4) by (auto simp: api_send_def split: if_splits)
  moreover have "reply_ok M (votes_cast c) n m"
    using client(3) by (cases m) (simp_all add: reply_ok_def)
  ultimately show ?thesis
    using assms(2) client(1,2) cluster_node_inv [OF assms(2) client(2)]
    by (simp add: put_quiet_inv(1) node_inv_def)
next
  case (recv n m ms r)
  then show ?thesis using assms(2) by (simp add: recv_inv)
next
  case (tick n now now' j r)
  then show ?thesis using assms(2) by (simp add: tick_inv)
next
  case (dispatch n t ts)
  then show ?thesis using assms(2) by (simp add: dispatch_inv)
next
  case (deliver n t g reply)
  then show ?thesis using assms(2) by (simp add: deliver_inv)
next
  case (arrive n m)
  then have "reply_ok M (votes_cast c) n m"
    using assms(2) by (auto simp: cluster_inv_def)
  then show ?thesis
    using assms(2) arrive cluster_node_inv [OF assms(2) arrive(3)]
    by (simp add: put_quiet_inv(1) node_inv_def)
next
  case (restart n j now r)
  then show ?thesis using assms(2) by (simp add: restart_inv)
qed

lemma cluster_init_inv:
  assumes "cluster_init S M c"
  shows "cluster_inv hard M c"
proof -
  have V: "votes_cast c = (\<Union>n \<in> M. held_vote n (inner (procs c n)))"
    using assms by (simp add: cluster_init_def)
  have node: "node_inv hard M (votes_cast c) n (procs c n)" if n: "n \<in> M" for n
  proof -
    let ?g = "inner (procs c n)"
    obtain st now j where "boot S (config ?g) st now j = Some (procs c n)"
      using assms n by (auto simp: cluster_init_def)
    then have r: "restore S (node_new (config ?g) st) = Some ?g" "rx (procs c n) = []"
      by (auto dest: start_facts)
    note f = restore_synced [OF r(1), simplified node_new_def sm_new_def, simplified]
    have mine: "(n, t, x) \<in> votes_cast c \<longleftrightarrow> (n, t, x) \<in> held_vote n ?g" for t x
      using n by (auto simp: V dest: held_vote_node)
    have "voted_for (sm ?g) \<noteq> Some 0"
      unfolding f(5) by simp
    then have "vote_inv M (votes_cast c) n (sm ?g) (config ?g)"
      unfolding vote_inv_def mine f(1) by (auto simp: held_vote_def split: option.splits)
    then show ?thesis
      using assms n f r(2) by (simp add: node_inv_def cluster_init_def)
  qed
  have "one_vote (votes_cast c)"
    unfolding one_vote_def V
    by (auto simp: held_vote_def split: option.splits)
  then show ?thesis
    using assms node by (simp add: cluster_inv_def cluster_init_def)
qed

lemma reachable_inv: "reachable p S M (timely p) c \<Longrightarrow> cluster_inv hard M c"
  by (induction rule: reachable.induct) (auto intro: cluster_init_inv cluster_step_inv)

text \<open>Two leaders of the same term hold the votes of two quorums, which share a voter.\<close>

lemma one_leader_per_term:
  assumes "reachable p S M (timely p) c" "n \<in> M" "n' \<in> M" "is_leader c n t" "is_leader c n' t"
  shows "n = n'"
proof -
  have inv: "cluster_inv hard M c"
    using assms(1) by (rule reachable_inv)
  have leader: "votes_received (sm (inner (procs c m))) \<subseteq> members (config (inner (procs c m)))"
      "quorum (config (inner (procs c m))) \<le> card (votes_received (sm (inner (procs c m))))"
      "\<forall>v \<in> votes_received (sm (inner (procs c m))). (v, t, m) \<in> votes_cast c"
      "members (config (inner (procs c m))) = M"
    if "m \<in> M" "is_leader c m t" for m
    using cluster_node_inv [OF inv that(1)] that(2)
    by (auto simp: node_inv_def vote_inv_def is_leader_def)
  note L = leader [OF assms(2,4)] and L' = leader [OF assms(3,5)]
  have "card M < quorum (config (inner (procs c n))) + quorum (config (inner (procs c n')))"
    using members_less_two_quorums [of "config (inner (procs c n))"]
      members_less_two_quorums [of "config (inner (procs c n'))"] L(4) L'(4) by simp
  then have "card M < card (votes_received (sm (inner (procs c n)))) +
      card (votes_received (sm (inner (procs c n'))))"
    using L(2) L'(2) by linarith
  then have "votes_received (sm (inner (procs c n))) \<inter> votes_received (sm (inner (procs c n'))) \<noteq> {}"
    using L(1,4) L'(1,4) finite_members [of "config (inner (procs c n))"]
    by (intro quorum_sizes_meet) simp_all
  then obtain v where "(v, t, n) \<in> votes_cast c" "(v, t, n') \<in> votes_cast c"
    using L(3) L'(3) by blast
  then show ?thesis
    using inv by (auto simp: cluster_inv_def one_vote_def)
qed

end

end
