(* ===== verification/Cluster_Runs.thy ===== *)
theory Cluster_Runs
  imports Raft_Cluster
begin

text \<open>
  Concrete runs of a cluster. An event names one step of \<open>cluster_step\<close>; a schedule is a list
  of events and can be evaluated. Every state a schedule leads to is reachable.
\<close>

datatype ClusterEvent =
    EvClient NodeId RaftMessage
  | EvRecv NodeId
  | EvTick NodeId nat u64
  | EvDispatch NodeId
  | EvDeliver NodeId RpcTask
  | EvArrive NodeId RaftMessage
  | EvRestart NodeId nat u64

fun apply_event ::
  "profile \<Rightarrow> 's Storage \<Rightarrow> NodeId set \<Rightarrow> 's env \<Rightarrow> ClusterEvent \<Rightarrow> 's Cluster \<Rightarrow> 's Cluster option" where
  "apply_event p S M env (EvClient n m) c =
     (if n \<in> M \<and> is_client m then
        (case api_send (procs c n) m of Inr r \<Rightarrow> Some (put n r c) | Inl _ \<Rightarrow> None)
      else None)"
| "apply_event p S M env (EvRecv n) c =
     (case rx (procs c n) of
        [] \<Rightarrow> None
      | m # _ \<Rightarrow>
          if n \<in> M \<and> running (procs c n) \<and> env (inner (procs c n)) (Some m)
          then map_option (\<lambda>r. put n r c) (on_recv p S (procs c n)) else None)"
| "apply_event p S M env (EvTick n now j) c =
     (if n \<in> M \<and> running (procs c n) \<and> env (inner (procs c n)) None \<and>
         wake_at (procs c n) \<le> now \<and> jitter_ok (config (inner (procs c n))) j
      then map_option (\<lambda>r. put n r c) (on_timeout p S now now j (procs c n)) else None)"
| "apply_event p S M env (EvDispatch n) c =
     (case spawned (inner (procs c n)) of
        [] \<Rightarrow> None
      | t # ts \<Rightarrow>
          if n \<in> M then Some ((put n (inner_update (\<lambda>g. g\<lparr>spawned := ts\<rparr>) (procs c n)) c)\<lparr>
            net := insert (n, t) (net c)\<rparr>) else None)"
| "apply_event p S M env (EvDeliver n t) c =
     (if (n, t) \<in> net c \<and> task_target t \<in> M then
        (case deliver_task p S t (inner (procs c (task_target t))) of
           None \<Rightarrow> None
         | Some (g, reply) \<Rightarrow>
             Some ((put (task_target t) ((procs c (task_target t))\<lparr>inner := g\<rparr>) c)\<lparr>
               replies := (case reply of
                 None \<Rightarrow> replies c | Some m \<Rightarrow> insert (n, m) (replies c))\<rparr>))
      else None)"
| "apply_event p S M env (EvArrive n m) c =
     (if (n, m) \<in> replies c \<and> n \<in> M \<and> running (procs c n)
      then Some (put n ((procs c n)\<lparr>rx := rx (procs c n) @ [m]\<rparr>) c) else None)"
| "apply_event p S M env (EvRestart n now j) c =
     (if n \<in> M \<and> jitter_ok (config (inner (procs c n))) j then
        map_option (\<lambda>r. put n r c)
          (boot S (config (inner (procs c n))) (storage (inner (procs c n))) now j)
      else None)"

fun run_events ::
  "profile \<Rightarrow> 's Storage \<Rightarrow> NodeId set \<Rightarrow> 's env \<Rightarrow> ClusterEvent list \<Rightarrow> 's Cluster \<Rightarrow> 's Cluster option" where
  "run_events p S M env [] c = Some c"
| "run_events p S M env (e # es) c = apply_event p S M env e c \<bind> run_events p S M env es"

lemma apply_event_step:
  assumes "apply_event p S M env e c = Some c'"
  shows "cluster_step p S M env c c'"
proof (cases e)
  case (EvClient n m)
  then show ?thesis
    using assms by (auto split: if_splits sum.splits intro: cluster_step.client)
next
  case (EvRecv n)
  then show ?thesis
    using assms by (auto split: if_splits list.splits intro: cluster_step.recv)
next
  case (EvTick n now j)
  then show ?thesis
    using assms by (auto split: if_splits intro: cluster_step.tick)
next
  case (EvDispatch n)
  then show ?thesis
    using assms by (auto split: if_splits list.splits intro: cluster_step.dispatch)
next
  case (EvDeliver n t)
  then show ?thesis
    using assms by (auto split: if_splits option.splits dest: cluster_step.deliver)
next
  case (EvArrive n m)
  then show ?thesis
    using assms by (auto split: if_splits intro: cluster_step.arrive)
next
  case (EvRestart n now j)
  then show ?thesis
    using assms by (auto split: if_splits intro: cluster_step.restart)
qed

lemma run_events_reachable:
  "reachable p S M env c \<Longrightarrow> run_events p S M env es c = Some c' \<Longrightarrow> reachable p S M env c'"
  by (induction es arbitrary: c)
    (auto elim!: bind_SomeE dest: apply_event_step intro: reachable.step)

subsection \<open>A cluster of three\<close>

definition node_ids :: "NodeId set" where
  "node_ids = {1, 2, 3}"

text \<open>The configuration of the example program; every node starts at time 0 on an empty store and
  draws the longest election timeout.\<close>

definition demo_config :: "NodeId \<Rightarrow> RaftConfig" where
  "demo_config n = default_config\<lparr>cfg_id := n, peers := filter (\<lambda>x. x \<noteq> n) [1, 2, 3],
     heartbeat_interval_ms := 50, election_timeout_min_ms := 150, election_timeout_max_ms := 300\<rparr>"

definition demo_node :: "NodeId \<Rightarrow> MemStorageInner RaftNode" where
  "demo_node n = \<lparr>inner = node_new (demo_config n) mem_new, rx = [],
     deadlines = \<lparr>heartbeat_deadline = 50, election_deadline = 300\<rparr>, running = True\<rparr>"

definition demo_cluster :: "MemStorageInner Cluster" where
  "demo_cluster = \<lparr>procs = demo_node, net = {}, replies = {}, votes_cast = {}\<rparr>"

definition vote_req :: "Term \<Rightarrow> NodeId \<Rightarrow> RequestVoteRequest" where
  "vote_req t n = \<lparr>rv_term = t, candidate_id = n, last_log_index = 0, last_log_term = 0,
     pre_vote = False\<rparr>"

lemma demo_node_start: "boot (mem_storage p) (demo_config n) mem_new 0 300 = Some (demo_node n)"
  by (simp add: boot_eq restore_def demo_node_def demo_config_def node_new_def mem_new_def
      default_hard_state_def next_election_deadline_def default_config_def sm_new_def)

lemma demo_cluster_init: "cluster_init (mem_storage p) node_ids demo_cluster"
proof -
  have "\<exists>st now j. boot (mem_storage p) (demo_config n) st now j = Some (demo_node n)" for n
    using demo_node_start by blast
  then show ?thesis
    by (auto simp: cluster_init_def demo_cluster_def node_ids_def held_vote_def demo_node_def
        node_new_def sm_new_def demo_config_def members_def default_config_def)
qed

end
