(* ===== verification/Node_Commit.thy ===== *)
theory Node_Commit
  imports Raft_Node Mem_Storage
begin

text \<open>
  Commit and apply: what the two implementations of the commit rule compute
  (\<^verbatim>\<open>RaftStateMachine::maybe_commit\<close> and the scan of
  \<^verbatim>\<open>maybe_advance_commit\<close>), what a commit means for the members of the cluster,
  which callers are notified, and which entries reach the application.
\<close>

subsection \<open>The commit rule\<close>

text \<open>The rule of the Raft paper: an entry of the current term that a quorum holds.\<close>

definition committable ::
  "(NodeId \<times> Progress) list \<Rightarrow> nat \<Rightarrow> Term \<Rightarrow> (LogIndex \<Rightarrow> Term option) \<Rightarrow> LogIndex \<Rightarrow> bool" where
  "committable pr q t term_at n \<longleftrightarrow> term_at n = Some t \<and> q \<le> replicated pr n"

lemma between_pred:
  assumes "m < (n :: u64)"
  shows "m < k \<and> k \<le> n \<longleftrightarrow> k = n \<or> m < k \<and> k \<le> n - 1"
proof -
  have "unat (n - 1) = unat n - 1" "unat m < unat n"
    using u64_pred [OF assms, of Debug] assms by (simp_all add: word_less_nat_alt)
  then show ?thesis
    by (auto simp: word_le_nat_alt word_less_nat_alt word_unat_eq_iff)
qed

lemma maybe_commit_loop_result:
  "case maybe_commit_loop pr q t term_at commit n of
     None \<Rightarrow> \<forall>k. commit < k \<and> k \<le> n \<longrightarrow> \<not> committable pr q t term_at k
   | Some c \<Rightarrow> commit < c \<and> c \<le> n \<and> committable pr q t term_at c \<and>
       (\<forall>k. c < k \<and> k \<le> n \<longrightarrow> \<not> committable pr q t term_at k)"
proof (induction pr q t term_at commit n rule: maybe_commit_loop.induct)
  case (1 pr q t term_at commit n)
  let ?r = "maybe_commit_loop pr q t term_at commit (n - 1)"
  show ?case
  proof (cases "commit < n \<and> \<not> committable pr q t term_at n")
    case True
    then have lt: "commit < n" by simp
    have eq: "maybe_commit_loop pr q t term_at commit n = ?r"
      using True by (subst maybe_commit_loop.simps) (auto simp: committable_def)
    have "case ?r of
        None \<Rightarrow> \<forall>k. commit < k \<and> k \<le> n - 1 \<longrightarrow> \<not> committable pr q t term_at k
      | Some c \<Rightarrow> commit < c \<and> c \<le> n - 1 \<and> committable pr q t term_at c \<and>
          (\<forall>k. c < k \<and> k \<le> n - 1 \<longrightarrow> \<not> committable pr q t term_at k)"
      using 1 True by (auto simp: committable_def)
    moreover have "c < n \<and> c \<le> n" if "commit < c" "c \<le> n - 1" for c
      using that lt between_pred [OF lt, of c] u64_pred [OF lt, of Debug]
      by (auto simp: word_le_nat_alt word_less_nat_alt)
    ultimately show ?thesis
      unfolding eq using True between_pred by (auto split: option.splits)
  next
    case False
    then show ?thesis
      by (subst maybe_commit_loop.simps) (auto simp: committable_def)
  qed
qed

text \<open>The scan of the node is the same loop, where the term of an unreadable entry counts as 0:
  no term of an elected leader is 0.\<close>

definition readable_term :: "'s Storage \<Rightarrow> 's \<Rightarrow> LogIndex \<Rightarrow> Term option" where
  "readable_term S st i = (case log_term S st i of Some (Inr t) \<Rightarrow> Some t | _ \<Rightarrow> None)"

lemma commit_scan_is_maybe_commit:
  assumes "t \<noteq> 0" "\<And>i. log_term S st i \<noteq> None"
  shows "commit_scan S st pr q t commit n =
    Some (case maybe_commit_loop pr q t (readable_term S st) commit n of
      None \<Rightarrow> commit | Some c \<Rightarrow> c)"
  using assms
proof (induction S st pr q t commit n rule: commit_scan.induct)
  case (1 S st pr q t commit n)
  show ?case
  proof (cases "commit < n")
    case False
    then show ?thesis by (simp add: commit_scan_unfold maybe_commit_loop.simps)
  next
    case True
    obtain r where r: "log_term S st n = Some r"
      using 1(3) [of n] by blast
    have same: "unwrap_or r 0 = t \<longleftrightarrow> readable_term S st n = Some t"
      using r 1(2) by (cases r) (auto simp: readable_term_def)
    show ?thesis
      using 1(1) [OF True r] 1(2,3) True r same
      by (subst commit_scan_unfold, subst maybe_commit_loop.simps) auto
  qed
qed

subsection \<open>What a commit means for the members\<close>

text \<open>The tracked progress has one record per peer; the members known to hold entry \<open>n\<close> are
  the leader and the peers whose match index reached \<open>n\<close>.\<close>

definition progress_ok :: "RaftConfig \<Rightarrow> (NodeId \<times> Progress) list \<Rightarrow> bool" where
  "progress_ok c pr \<longleftrightarrow> distinct (map fst pr) \<and> fst ` set pr = set (peers c)"

definition holders :: "RaftConfig \<Rightarrow> (NodeId \<times> Progress) list \<Rightarrow> LogIndex \<Rightarrow> NodeId set" where
  "holders c pr n = insert (cfg_id c) {x. \<exists>q. map_of pr x = Some q \<and> n \<le> match_index q}"

lemma replicated_card:
  assumes "progress_ok c pr" "cfg_id c \<notin> set (peers c)"
  shows "card (holders c pr n) = replicated pr n" and "holders c pr n \<subseteq> members c"
proof -
  let ?f = "filter (\<lambda>(_, q). n \<le> match_index q) pr"
  have d: "distinct (map fst pr)" "fst ` set pr = set (peers c)"
    using assms(1) by (simp_all add: progress_ok_def)
  have eq: "{x. \<exists>q. map_of pr x = Some q \<and> n \<le> match_index q} = set (map fst ?f)"
    using d(1) by (force simp: map_of_eq_Some_iff)
  have "distinct (map fst ?f)"
    using d(1) by (rule distinct_map_filter)
  then have "card (set (map fst ?f)) = length ?f"
    by (simp only: distinct_card length_map)
  moreover have sub: "set (map fst ?f) \<subseteq> set (peers c)"
    using d(2) by auto
  ultimately show "card (holders c pr n) = replicated pr n"
    unfolding holders_def eq replicated_def using assms(2) by (subst card_insert_disjoint) auto
  show "holders c pr n \<subseteq> members c"
    unfolding holders_def eq members_def using sub by blast
qed

lemma keys_update: "fst ` set (AList.update k v al) = insert k (fst ` set al)"
  using dom_update [of k v al] by (simp add: dom_map_of_conv_image_fst)

lemma insert_progress_result:
  assumes "insert_progress p l ps acc = Some pr"
  shows "fst ` set pr = fst ` set acc \<union> set ps"
    and "distinct (map fst acc) \<Longrightarrow> distinct (map fst pr)"
    and "map_of pr x = (if x \<in> set ps then Some (progress_new (l + 1)) else map_of acc x)"
  using assms
proof (induction ps arbitrary: acc)
  case (Cons y ps)
  {
    case 1
    then obtain n where "insert_progress p l ps (AList.update y (progress_new n) acc) = Some pr"
      by (auto elim!: bind_SomeE)
    from Cons.IH(1) [OF this] show ?case
      by (auto simp: keys_update)
  next
    case 2
    then obtain n where "insert_progress p l ps (AList.update y (progress_new n) acc) = Some pr"
      by (auto elim!: bind_SomeE)
    from Cons.IH(2) [OF distinct_update this] show ?case
      using 2(1) .
  next
    case 3
    then have "u64_add p l 1 = Some (l + 1)"
      by (auto elim!: bind_SomeE simp: u64_add_def split: if_splits)
    then show ?case
      using 3 Cons.IH(3) [of "AList.update y (progress_new (l + 1)) acc"]
      by (auto simp: update_conv')
  }
qed simp_all

lemma become_leader_progress_ok:
  assumes "become_leader p i l (peers c) s = Some s'"
  shows "progress_ok c (progress s')"
proof -
  obtain pr where pr: "insert_progress p l (peers c) [] = Some pr" and "progress s' = pr"
    using assms by (auto simp: become_leader_def elim!: bind_SomeE)
  then show ?thesis
    using insert_progress_result(1,2) [OF pr] by (simp add: progress_ok_def)
qed

lemma with_progress_ok:
  assumes "with_progress peer f g = Some g'" "progress_ok c (progress (sm g))"
  shows "progress_ok c (progress (sm g'))"
proof -
  consider "g' = g" | q x where "map_of (progress (sm g)) peer = Some q"
      "progress (sm g') = AList.update peer x (progress (sm g))"
    using assms(1) by (auto simp: with_progress_def elim!: bind_SomeE split: option.splits)
  then show ?thesis
  proof cases
    case (2 q x)
    then have "peer \<in> fst ` set (progress (sm g))"
      using map_of_SomeD by force
    then show ?thesis
      using 2 assms(2) by (simp add: progress_ok_def distinct_update keys_update insert_absorb)
  qed (use assms(2) in simp)
qed

subsection \<open>The leader's commit step\<close>

text \<open>The new commit index as a function of the node: the greatest committable index above the
  old one, else the old one.\<close>

definition next_commit :: "'s Storage \<Rightarrow> 's RaftNodeInner \<Rightarrow> LogIndex \<Rightarrow> LogIndex" where
  "next_commit S g l =
     (case maybe_commit_loop (progress (sm g)) (quorum (config g)) (current_term (sm g))
         (readable_term S (storage g)) (commit_index (sm g)) l of
        None \<Rightarrow> commit_index (sm g) | Some c \<Rightarrow> c)"

lemma next_commit_ge: "commit_index (sm g) \<le> next_commit S g l"
  using maybe_commit_loop_result [where pr = "progress (sm g)" and q = "quorum (config g)" and
      t = "current_term (sm g)" and term_at = "readable_term S (storage g)" and
      commit = "commit_index (sm g)" and n = l]
  by (auto simp: next_commit_def split: option.splits)

context storage_contract
begin

lemma node_save_ok:
  assumes "invar (storage g)"
  shows "\<exists>g'. node_save_hard_state S g = Some g' \<and> invar (storage g') \<and>
    alog (storage g') = alog (storage g) \<and> hard (storage g') = hard_state_of (sm g) \<and>
    snap (storage g') = snap (storage g) \<and>
    sm g' = sm g \<and> config g' = config g \<and> pending g' = pending g \<and> sent g' = sent g \<and>
    spawned g' = spawned g \<and> applied g' = applied g \<and> snapshot_buf g' = snapshot_buf g"
  using save [OF assms, of "hard_state_of (sm g)"] by (auto simp: node_save_hard_state_def)

lemma last_index_ok:
  "invar s \<Longrightarrow> last_index_or_0 S s = Some (of_nat (alog_last (alog s)))"
  by (simp add: last_index_or_0_def last)

lemma advance_commit:
  assumes "invar (storage g)" "role (sm g) = Leader" "current_term (sm g) \<noteq> 0"
    and "last_applied (sm g) \<le> commit_index (sm g)"
  defines "c \<equiv> next_commit S g (of_nat (alog_last (alog (storage g))))"
  shows "\<exists>g'. maybe_advance_commit p S g = Some g' \<and> invar (storage g') \<and>
    alog (storage g') = alog (storage g) \<and>
    sm g' = (sm g)\<lparr>commit_index := c\<rparr> \<and> config g' = config g \<and>
    pending g' = filter (\<lambda>(i, _). \<not> i \<le> c) (pending g) \<and>
    sent g' = sent g @ map (\<lambda>(i, tx). (tx, ProposeReply (Inr i)))
      (filter (\<lambda>(i, _). i \<le> c) (pending g)) \<and>
    spawned g' = spawned g \<and> applied g' = applied g \<and>
    (commit_index (sm g) < c \<longrightarrow> hs_commit (hard (storage g')) = c)"
proof -
  have scan: "commit_scan S (storage g) (progress (sm g)) (quorum (config g))
      (current_term (sm g)) (commit_index (sm g)) (of_nat (alog_last (alog (storage g)))) = Some c"
    unfolding c_def next_commit_def using assms(1,3)
    by (intro commit_scan_is_maybe_commit) (simp_all add: read_term)
  show ?thesis
  proof (cases "commit_index (sm g) < c")
    case True
    obtain g1 where g1: "node_save_hard_state S (upd_sm (\<lambda>s. s\<lparr>commit_index := c\<rparr>) g) = Some g1"
        "invar (storage g1)" "alog (storage g1) = alog (storage g)"
        "hard (storage g1) = hard_state_of ((sm g)\<lparr>commit_index := c\<rparr>)"
        "sm g1 = (sm g)\<lparr>commit_index := c\<rparr>" "config g1 = config g" "pending g1 = pending g"
        "sent g1 = sent g" "spawned g1 = spawned g" "applied g1 = applied g"
      using node_save_ok [of "upd_sm (\<lambda>s. s\<lparr>commit_index := c\<rparr>) g"] assms(1) by auto
    moreover have "u64_sub p c (last_applied (sm g)) = Some (c - last_applied (sm g))"
      using True assms(4) by (intro u64_sub_exact) simp
    ultimately show ?thesis
      using True assms(1,2) scan
      by (simp add: maybe_advance_commit_def last_index_ok notify_pending_def Let_def hard_state_of_def)
  next
    case False
    then have "c = commit_index (sm g)"
      using next_commit_ge [of g S] by (auto simp: c_def intro: antisym)
    then show ?thesis
      using assms(1,2) scan
      by (simp add: maybe_advance_commit_def last_index_ok notify_pending_def Let_def)
  qed
qed

end

subsection \<open>Applying committed entries\<close>

lemma fold_apply_entry:
  "fold apply_entry es g = g\<lparr>applied := applied g @ es,
     sm := (sm g)\<lparr>last_applied := (if es = [] then last_applied (sm g) else le_index (last es))\<rparr>\<rparr>"
  by (induction es arbitrary: g) (simp_all add: apply_entry_def)

lemma alog_slice_facts:
  assumes "alog_ok l" "base l < lo" "hi \<le> alog_last l + 1"
  shows "contiguous lo (alog_slice l lo hi)" and "length (alog_slice l lo hi) = hi - lo"
proof -
  have "contiguous (base l + 1 + (lo - base l - 1)) (drop (lo - base l - 1) (ents l))"
    using assms(1) by (intro contiguous_drop) (simp add: alog_ok_def)
  then show "contiguous lo (alog_slice l lo hi)"
    unfolding alog_slice_def using assms(2) by (intro contiguous_take) simp
  show "length (alog_slice l lo hi) = hi - lo"
    using assms(2,3) by (auto simp: alog_slice_def alog_last_def)
qed

context storage_contract
begin

lemma invar_commit_bound:
  assumes "invar s" "unat i \<le> alog_last (alog s)"
  shows "u64_add p i 1 = Some (i + 1) \<and> unat (i + 1) = unat i + 1"
  using u64_succ [of i p] log_ok [OF assms(1)] assms(2) by (simp_all add: alog_ok_def alog_last_def)

lemma apply_range:
  assumes "invar (storage g)" "base (alog (storage g)) \<le> unat (last_applied (sm g))"
    and "last_applied (sm g) \<le> commit_index (sm g)"
    and "unat (commit_index (sm g)) \<le> alog_last (alog (storage g))"
  shows "apply_committed p S g = Some (g\<lparr>
    applied := applied g @ alog_slice (alog (storage g)) (unat (last_applied (sm g)) + 1)
      (unat (commit_index (sm g)) + 1),
    sm := (sm g)\<lparr>last_applied := commit_index (sm g)\<rparr>\<rparr>)"
proof -
  let ?a = "last_applied (sm g)" and ?c = "commit_index (sm g)" and ?l = "alog (storage g)"
  let ?sl = "alog_slice ?l (unat ?a + 1) (unat ?c + 1)"
  have le: "unat ?a \<le> unat ?c" using assms(3) by (simp add: word_le_nat_alt)
  have fa: "u64_add p ?a 1 = Some (?a + 1)" "unat (?a + 1) = unat ?a + 1"
    using invar_commit_bound [OF assms(1), of ?a p] le assms(4) by simp_all
  have fc: "u64_add p ?c 1 = Some (?c + 1)" "unat (?c + 1) = unat ?c + 1"
    using invar_commit_bound [OF assms(1), of ?c p] assms(4) by simp_all
  have sl: "contiguous (unat ?a + 1) ?sl" "length ?sl = unat ?c - unat ?a"
    using alog_slice_facts [OF log_ok [OF assms(1)], of "unat ?a + 1" "unat ?c + 1"] assms(2,4)
    by simp_all
  show ?thesis
  proof (cases "?a = ?c")
    case True
    then show ?thesis
      using fa by (simp add: apply_committed_def Let_def alog_slice_def word_less_nat_alt)
  next
    case False
    then have lt: "unat ?a < unat ?c" using le by (simp add: word_unat_eq_iff)
    have ne: "?sl \<noteq> []" using sl(2) lt by auto
    then have "le_index (List.last ?sl) = ?c"
      using contiguous_last [OF sl(1) ne] sl(2) lt by (simp add: word_unat_eq_iff)
    moreover have "log_entries S (storage g) (?a + 1) (?c + 1) None = Some (Inr ?sl)"
      using read_range [OF assms(1), of "?a + 1" "?c + 1" None] fa(2) fc(2) assms(2,4) by auto
    moreover have "\<not> ?c < ?a + 1"
      using fa(2) lt by (simp add: word_less_nat_alt)
    ultimately show ?thesis
      using ne by (simp add: apply_committed_def Let_def fa(1) fc(1) fold_apply_entry)
  qed
qed

text \<open>Where the range cannot be read nothing is applied.\<close>

lemma apply_stuck:
  assumes "invar (storage g)" "last_applied (sm g) < commit_index (sm g)"
    and "unat (last_applied (sm g)) < base (alog (storage g)) \<or>
      alog_last (alog (storage g)) < unat (commit_index (sm g))"
    and "unat (commit_index (sm g)) < 2 ^ 64 - 1"
  shows "apply_committed p S g = Some g"
proof -
  let ?a = "last_applied (sm g)" and ?c = "commit_index (sm g)" and ?l = "alog (storage g)"
  have lt: "unat ?a < unat ?c" using assms(2) by (simp add: word_less_nat_alt)
  have fa: "u64_add p ?a 1 = Some (?a + 1)" "unat (?a + 1) = unat ?a + 1"
    using u64_succ [of ?a p] lt assms(4) by simp_all
  have fc: "u64_add p ?c 1 = Some (?c + 1)" "unat (?c + 1) = unat ?c + 1"
    using u64_succ [of ?c p] assms(4) by simp_all
  have "\<exists>e. log_entries S (storage g) (?a + 1) (?c + 1) None = Some (Inl e)"
  proof (cases "unat ?a < base ?l")
    case True
    then show ?thesis using read_compacted [OF assms(1)] fa(2) by simp
  next
    case False
    then show ?thesis using read_beyond [OF assms(1)] fa(2) fc(2) assms(3) by simp
  qed
  moreover have "\<not> ?c < ?a + 1" using fa(2) lt by (simp add: word_less_nat_alt)
  ultimately show ?thesis
    using fa(1) fc(1) by (auto simp: apply_committed_def Let_def)
qed

end

subsection \<open>Proposals\<close>

context storage_contract
begin

text \<open>A proposal to a leader: one new entry of its term right after its log, and the caller is
  registered for its index before anything is sent.\<close>

lemma proposal_appends:
  assumes "invar (storage g)" "role (sm g) = Leader"
    and "alog_last (alog (storage g)) + 1 < 2 ^ 64 - 1"
    and "data_bytes (ents (alog (storage g))) + length (prop_data pr) < 2 ^ 64"
  shows "\<exists>i g1. unat i = alog_last (alog (storage g)) + 1 \<and>
    on_proposal p S g pr = replicate_all p S g1 \<and> invar (storage g1) \<and>
    ents (alog (storage g1)) = ents (alog (storage g)) @
      [\<lparr>le_term = current_term (sm g), le_index = i, le_data = prop_data pr, le_type = Normal\<rparr>] \<and>
    base (alog (storage g1)) = base (alog (storage g)) \<and>
    sm g1 = sm g \<and> config g1 = config g \<and> sent g1 = sent g \<and>
    pending g1 = pending g @ (case prop_tx pr of None \<Rightarrow> [] | Some tx \<Rightarrow> [(i, tx)])"
proof -
  let ?l = "alog (storage g)"
  define i :: LogIndex where "i = of_nat (alog_last ?l) + 1"
  let ?e = "\<lparr>le_term = current_term (sm g), le_index = i, le_data = prop_data pr, le_type = Normal\<rparr>"
  have last: "unat (of_nat (alog_last ?l) :: LogIndex) = alog_last ?l"
    using assms(3) by (intro of_nat_u64) simp
  then have i: "u64_add p (of_nat (alog_last ?l)) 1 = Some i" "unat i = alog_last ?l + 1"
    using u64_succ [of "of_nat (alog_last ?l)" p] assms(3) by (simp_all add: i_def)
  have app: "alog_append ?l [?e] = ?l\<lparr>ents := ents ?l @ [?e]\<rparr>"
    using i(2) by (simp add: alog_append_def alog_last_def)
  have "alog_ok (alog_append ?l [?e])"
    using i(2) assms(3,4) log_ok [OF assms(1)]
    by (intro alog_append_ok [where k = "alog_last ?l + 1"])
      (simp_all add: contiguous_def alog_last_def)
  then obtain st where st: "append_entries S (storage g) [?e] = Some (st, Inr ())" "invar st"
      "alog st = ?l\<lparr>ents := ents ?l @ [?e]\<rparr>"
    using append [OF assms(1), of "[?e]"] app by auto
  show ?thesis
    using i st assms(2)
    by (intro exI [of _ i]
        exI [of _ "case prop_tx pr of None \<Rightarrow> g\<lparr>storage := st\<rparr>
          | Some tx \<Rightarrow> g\<lparr>storage := st, pending := pending g @ [(i, tx)]\<rparr>"])
      (auto simp: on_proposal_def last_index_ok [OF assms(1)] Let_def split: option.split)
qed

end

subsection \<open>Properties\<close>

text \<open>A leader of term 3 whose log continues \<open>sample_mem\<close> by one entry of its term; its peer has
  acknowledged nothing yet.\<close>

definition sample_leader :: "MemStorageInner RaftNodeInner" where
  "sample_leader = (node_new (default_config\<lparr>cfg_id := 2, peers := [1]\<rparr>)
     (sample_mem\<lparr>entries := [sample_entry 1 3, sample_entry 2 4, sample_entry 3 5]\<rparr>))\<lparr>
     sm := sm_new\<lparr>current_term := 3, role := Leader, commit_index := 4,
       progress := [(1, progress_new 5)]\<rparr>\<rparr>"

lemma sample_leader_alog:
  "mem_alog (storage sample_leader) = \<lparr>base = 2, base_term = 1,
     ents = [sample_entry 1 3, sample_entry 2 4, sample_entry 3 5]\<rparr>"
  by (simp add: sample_leader_def node_new_def mem_alog_def sample_mem_def)

lemma sample_leader_ok: "mem_ok (storage sample_leader)"
  by (simp add: mem_ok_def sample_leader_alog alog_ok_def contiguous_def less_Suc_eq)

text \<open>C21 (functional): \<^verbatim>\<open>maybe_commit\<close> finds the greatest index above the commit index, up
  to the last one, whose entry is of the current term and held by a quorum: the leader and the
  peers whose match index reached it are at least \<open>q\<close> members. It commits that index if there is
  one and changes nothing otherwise. Every peer is tracked by one record and the leader is none of
  them.\<close>

theorem maybe_commit_greatest:
  assumes "progress_ok cfg (progress s)" "cfg_id cfg \<notin> set (peers cfg)"
  shows "case maybe_commit q last_log t term_at s of
     (s', None) \<Rightarrow> s' = s \<and>
       (\<forall>k. commit_index s < k \<and> k \<le> last_log \<longrightarrow>
         \<not> (term_at k = Some t \<and> q \<le> card (holders cfg (progress s) k)))
   | (s', Some n) \<Rightarrow> s' = s\<lparr>commit_index := n\<rparr> \<and> commit_index s < n \<and> n \<le> last_log \<and>
       term_at n = Some t \<and> q \<le> card (holders cfg (progress s) n) \<and>
       (\<forall>k. n < k \<and> k \<le> last_log \<longrightarrow>
         \<not> (term_at k = Some t \<and> q \<le> card (holders cfg (progress s) k)))"
  using maybe_commit_loop_result [where pr = "progress s" and q = q and t = t and
      term_at = term_at and commit = "commit_index s" and n = last_log]
  by (auto simp: maybe_commit_def committable_def replicated_card [OF assms] split: option.splits)

theorem maybe_commit_greatest_witness:
  "let cfg = default_config\<lparr>cfg_id := 1, peers := [7, 8]\<rparr>;
     pr = [(7, \<lparr>next_index = 5, match_index = 4, in_flight = False\<rparr>), (8, progress_new 2)]
   in snd (maybe_commit 2 5 3 (\<lambda>_. Some 3) (sm_new\<lparr>commit_index := 1, progress := pr\<rparr>)) = Some 4 \<and>
     2 \<le> card (holders cfg pr 4) \<and> card (holders cfg pr 5) < 2"
proof -
  let ?pr = "[(7, \<lparr>next_index = 5, match_index = 4, in_flight = False\<rparr>), (8, progress_new 2)]"
  let ?s = "sm_new\<lparr>commit_index := 1, progress := ?pr\<rparr>"
  let ?cfg = "default_config\<lparr>cfg_id := 1, peers := [7, 8]\<rparr>"
  have "snd (maybe_commit 2 5 3 (\<lambda>_. Some 3) ?s) = Some 4" by code_simp
  moreover have "progress_ok ?cfg (progress ?s)" "cfg_id ?cfg \<notin> set (peers ?cfg)"
    by (simp_all add: progress_ok_def insert_commute)
  ultimately show ?thesis
    using maybe_commit_greatest [where cfg = ?cfg and s = ?s and q = 2 and last_log = 5 and t = 3 and
        term_at = "\<lambda>_. Some 3"]
    by (auto simp: Let_def not_le split: prod.splits)
qed

text \<open>The scan inside the node's \<^verbatim>\<open>maybe_advance_commit\<close> computes what
  \<^verbatim>\<open>RaftStateMachine::maybe_commit\<close> computes on the terms of the log, for a leader
  of a positive term: reading an unreadable term as 0 makes no difference.\<close>

theorem commit_scan_equivalence:
  assumes "mem_ok m" "t \<noteq> 0"
  shows "commit_scan (mem_storage p) m (progress s) q t (commit_index s) last_log =
    Some (case snd (maybe_commit q last_log t (readable_term (mem_storage p) m) s) of
      None \<Rightarrow> commit_index s | Some c \<Rightarrow> c)"
  using commit_scan_is_maybe_commit [OF assms(2), of "mem_storage p" m] assms(1)
  by (simp add: maybe_commit_def mem_term_spec split: option.split)

theorem commit_scan_equivalence_witness:
  "commit_scan (mem_storage Debug) sample_mem [] 1 2 2 4 = Some 4 \<and>
   snd (maybe_commit 1 4 2 (readable_term (mem_storage Debug) sample_mem)
     (sm_new\<lparr>commit_index := 2\<rparr>)) = Some 4"
proof -
  have "commit_scan (mem_storage Debug) sample_mem [] 1 2 2 4 = Some 4" by code_simp
  then show ?thesis
    using commit_scan_equivalence [OF sample_mem_ok, of 2 Debug "sm_new\<lparr>commit_index := 2\<rparr>" 1 4]
    by (simp add: sm_new_def split: option.splits)
qed

text \<open>What two commits mean for the cluster. The members that hold a committable
  entry are really members and are counted without duplicates, and the holders of any two
  committable entries, of the same or of different leaders of one cluster, have a member in
  common.\<close>

theorem commit_quorums_intersect:
  assumes "progress_ok c pr" "cfg_id c \<notin> set (peers c)" "committable pr (quorum c) t term_at n"
    and "progress_ok c' pr'" "cfg_id c' \<notin> set (peers c')" "committable pr' (quorum c') t' term_at' n'"
    and "members c' = members c" "quorum c' = quorum c"
  shows "card (holders c pr n) = replicated pr n \<and> holders c pr n \<subseteq> members c \<and>
    holders c pr n \<inter> holders c' pr' n' \<noteq> {}"
proof -
  have h: "card (holders c pr n) = replicated pr n" "holders c pr n \<subseteq> members c"
    "card (holders c' pr' n') = replicated pr' n'" "holders c' pr' n' \<subseteq> members c"
    using replicated_card [OF assms(1,2)] replicated_card [OF assms(4,5)] assms(7) by simp_all
  then have "holders c pr n \<inter> holders c' pr' n' \<noteq> {}"
    using assms(3,6,8) by (intro cfg_quorum.quorums_meet [of _ c]) (simp_all add: committable_def)
  then show ?thesis using h by simp
qed

theorem commit_quorums_intersect_witness:
  "let c = default_config\<lparr>peers := [2, 3]\<rparr>; c' = default_config\<lparr>cfg_id := 2, peers := [1, 3]\<rparr>;
     pr = [(2, progress_new 1), (3, \<lparr>next_index = 5, match_index = 4, in_flight = False\<rparr>)];
     pr' = [(1, progress_new 1), (3, \<lparr>next_index = 7, match_index = 6, in_flight = False\<rparr>)]
   in holders c pr 4 \<inter> holders c' pr' 6 \<noteq> {}"
proof -
  let ?c = "default_config\<lparr>peers := [2, 3]\<rparr>" and ?c' = "default_config\<lparr>cfg_id := 2, peers := [1, 3]\<rparr>"
  let ?pr = "[(2, progress_new 1), (3, \<lparr>next_index = 5, match_index = 4, in_flight = False\<rparr>)]"
  let ?pr' = "[(1, progress_new 1), (3, \<lparr>next_index = 7, match_index = 6, in_flight = False\<rparr>)]"
  have "members ?c' = members ?c" by (auto simp: members_def default_config_def)
  then show ?thesis
    using commit_quorums_intersect [of ?c ?pr 1 "\<lambda>_. Some 1" 4 ?c' ?pr' 2 "\<lambda>_. Some 2" 6]
    by (simp add: progress_ok_def committable_def replicated_def quorum_def default_config_def
        progress_new_def Let_def)
qed

text \<open>C14 (functional): the commit step of a leader. It never panics, moves the commit index to the
  greatest committable index or leaves it, saves it in the hard state if it moved, answers
  every waiting proposal up to it with its index, in order and once, keeps the others waiting,
  and changes nothing else of the Raft state.\<close>

theorem leader_commit_step:
  assumes "mem_ok (storage g)" "role (sm g) = Leader" "current_term (sm g) \<noteq> 0"
    and "last_applied (sm g) \<le> commit_index (sm g)"
    and "c = next_commit (mem_storage p) g (mem_last_index (storage g))"
  shows "\<exists>g'. maybe_advance_commit p (mem_storage p) g = Some g' \<and> mem_ok (storage g') \<and>
    mem_alog (storage g') = mem_alog (storage g) \<and>
    sm g' = (sm g)\<lparr>commit_index := c\<rparr> \<and> commit_index (sm g) \<le> c \<and>
    pending g' = filter (\<lambda>(i, _). \<not> i \<le> c) (pending g) \<and>
    sent g' = sent g @ map (\<lambda>(i, tx). (tx, ProposeReply (Inr i)))
      (filter (\<lambda>(i, _). i \<le> c) (pending g)) \<and>
    (commit_index (sm g) < c \<longrightarrow> hs_commit (hard_state (storage g')) = c)"
  using mem.advance_commit [OF assms(1-4), of p p] assms(5) next_commit_ge [of g "mem_storage p"]
  by (auto simp: mem_last_index_spec [OF assms(1)])

theorem leader_commit_step_witness:
  "\<exists>g'. maybe_advance_commit Debug (mem_storage Debug)
      (sample_leader\<lparr>sm := (sm sample_leader)\<lparr>progress := [(1, \<lparr>next_index = 6, match_index = 5,
        in_flight = False\<rparr>)]\<rparr>, pending := [(5, 70), (6, 71)]\<rparr>) = Some g' \<and>
    commit_index (sm g') = 5 \<and> sent g' = [(70, ProposeReply (Inr 5))] \<and> pending g' = [(6, 71)] \<and>
    hs_commit (hard_state (storage g')) = 5"
proof -
  let ?g = "sample_leader\<lparr>sm := (sm sample_leader)\<lparr>progress := [(1, \<lparr>next_index = 6, match_index = 5,
      in_flight = False\<rparr>)]\<rparr>, pending := [(5, 70), (6, 71)]\<rparr>"
  have "5 = next_commit (mem_storage Debug) ?g (mem_last_index (storage ?g))" by code_simp
  moreover have "role (sm ?g) = Leader" "current_term (sm ?g) \<noteq> 0" "commit_index (sm ?g) = 4"
    "last_applied (sm ?g) \<le> commit_index (sm ?g)" "sent ?g = []" by code_simp+
  ultimately show ?thesis
    using leader_commit_step [of ?g 5 Debug] sample_leader_ok by auto
qed

text \<open>C22 (functional): the entries that reach the application. If the log still holds everything
  after the last applied entry and reaches the commit index, exactly the entries from there to
  the commit index are sent, each once and in log order, and the last applied index becomes the
  commit index. If part of the range is compacted or missing, nothing is sent.\<close>

theorem apply_committed_in_order:
  assumes "mem_ok (storage g)" "last_applied (sm g) \<le> commit_index (sm g)"
    and "unat (commit_index (sm g)) < 2 ^ 64 - 1"
  shows "\<exists>g' es. apply_committed p (mem_storage p) g = Some g' \<and> applied g' = applied g @ es \<and>
    (if base (mem_alog (storage g)) \<le> unat (last_applied (sm g)) \<and>
        unat (commit_index (sm g)) \<le> alog_last (mem_alog (storage g))
     then contiguous (unat (last_applied (sm g)) + 1) es \<and>
       length es = unat (commit_index (sm g)) - unat (last_applied (sm g)) \<and>
       es = alog_slice (mem_alog (storage g)) (unat (last_applied (sm g)) + 1)
         (unat (commit_index (sm g)) + 1) \<and>
       sm g' = (sm g)\<lparr>last_applied := commit_index (sm g)\<rparr>
     else g' = g)"
proof (cases "base (mem_alog (storage g)) \<le> unat (last_applied (sm g)) \<and>
    unat (commit_index (sm g)) \<le> alog_last (mem_alog (storage g))")
  case True
  then show ?thesis
    using mem.apply_range [of g p p] assms(1,2)
      alog_slice_facts [of "mem_alog (storage g)" "unat (last_applied (sm g)) + 1"
        "unat (commit_index (sm g)) + 1"]
    by (auto simp: mem_ok_def)
next
  case gap: False
  have "apply_committed p (mem_storage p) g = Some g"
  proof (cases "last_applied (sm g) = commit_index (sm g)")
    case True
    then show ?thesis
      using u64_succ [OF assms(3), of p]
      by (simp add: apply_committed_def Let_def word_less_nat_alt)
  next
    case False
    then have "last_applied (sm g) < commit_index (sm g)"
      using assms(2) by simp
    then show ?thesis
      using gap assms(1,3) by (intro mem.apply_stuck) auto
  qed
  then show ?thesis using gap by auto
qed

theorem apply_committed_in_order_witness:
  "\<exists>g'. apply_committed Debug (mem_storage Debug)
      (sample_leader\<lparr>sm := (sm sample_leader)\<lparr>last_applied := 2\<rparr>\<rparr>) = Some g' \<and>
    applied g' = [sample_entry 1 3, sample_entry 2 4] \<and> last_applied (sm g') = 4"
proof -
  let ?g = "sample_leader\<lparr>sm := (sm sample_leader)\<lparr>last_applied := 2\<rparr>\<rparr>"
  have "commit_index (sm ?g) = 4" "last_applied (sm ?g) = 2" "applied ?g = []" by code_simp+
  then show ?thesis
    using apply_committed_in_order [of ?g Debug] sample_leader_ok
    by (auto simp: sample_leader_alog alog_last_def alog_slice_def)
qed

text \<open>C23 (functional): a proposal. A node that is not the leader changes nothing but answers the
  caller with \<^verbatim>\<open>NotLeader\<close> and the leader it knows. A leader appends exactly one
  entry, of its term and at the next index, registers the caller for that index and then
  replicates.\<close>

theorem proposal_outcome:
  assumes "mem_ok (storage g)" "alog_last (mem_alog (storage g)) + 1 < 2 ^ 64 - 1"
    and "data_bytes (entries (storage g)) + length (prop_data pr) < 2 ^ 64"
  shows "if role (sm g) \<noteq> Leader
    then on_proposal p (mem_storage p) g pr = Some (g\<lparr>sent := sent g @
      (case prop_tx pr of None \<Rightarrow> [] | Some tx \<Rightarrow>
        [(tx, ProposeReply (Inl (NotLeader (leader_id (sm g)))))])\<rparr>)
    else \<exists>i g1. unat i = alog_last (mem_alog (storage g)) + 1 \<and>
      on_proposal p (mem_storage p) g pr = replicate_all p (mem_storage p) g1 \<and>
      mem_ok (storage g1) \<and> sm g1 = sm g \<and> sent g1 = sent g \<and>
      entries (storage g1) = entries (storage g) @ [\<lparr>le_term = current_term (sm g), le_index = i,
        le_data = prop_data pr, le_type = Normal\<rparr>] \<and>
      pending g1 = pending g @ (case prop_tx pr of None \<Rightarrow> [] | Some tx \<Rightarrow> [(i, tx)])"
proof (cases "role (sm g) = Leader")
  case True
  then show ?thesis
    using mem.proposal_appends [of g pr p p] assms by auto
next
  case False
  then show ?thesis
    by (simp add: on_proposal_def send_opt_def split: option.split)
qed

theorem proposal_outcome_witness:
  "\<exists>i g1. unat i = 6 \<and> on_proposal Debug (mem_storage Debug) sample_leader
      \<lparr>prop_data = [1], prop_tx = Some 70\<rparr> = replicate_all Debug (mem_storage Debug) g1 \<and>
    pending g1 = [(i, 70)] \<and> length (entries (storage g1)) = 4"
proof -
  have l: "role (sm sample_leader) = Leader" "pending sample_leader = []"
    "entries (storage sample_leader) = [sample_entry 1 3, sample_entry 2 4, sample_entry 3 5]"
    by code_simp+
  obtain i g1 where "unat i = 6" "on_proposal Debug (mem_storage Debug) sample_leader
      \<lparr>prop_data = [1], prop_tx = Some 70\<rparr> = replicate_all Debug (mem_storage Debug) g1"
    "length (entries (storage g1)) = 4" "pending g1 = [(i, 70)]"
    using proposal_outcome [of sample_leader "\<lparr>prop_data = [1], prop_tx = Some 70\<rparr>" Debug]
      sample_leader_ok l
    by (auto simp: sample_leader_alog alog_last_def)
  then show ?thesis by (intro exI [of _ i] exI [of _ g1]) simp
qed

end
