(* ===== verification/Node_Replication.thy ===== *)
theory Node_Replication
  imports Node_Commit
begin

text \<open>
  Log replication: the request a leader builds for a peer, what a follower does with it on
  every branch, the conflict index of a rejection,
  and that an accepted request makes the follower's log the leader's.
\<close>

subsection \<open>The first index of a term\<close>

definition term_of :: "AbsLog \<Rightarrow> nat \<Rightarrow> Term" where
  "term_of l i = le_term (ents l ! (i - base l - 1))"

definition term_sorted :: "AbsLog \<Rightarrow> bool" where
  "term_sorted l \<longleftrightarrow> sorted (map le_term (ents l))"

lemma term_sorted_mono:
  "term_sorted l \<Longrightarrow> base l < i \<Longrightarrow> i \<le> j \<Longrightarrow> j \<le> alog_last l \<Longrightarrow> term_of l i \<le> term_of l j"
  unfolding term_sorted_def term_of_def alog_last_def
  by (auto simp: sorted_iff_nth_mono)

lemma alog_term_inside:
  "base l < unat i \<Longrightarrow> unat i \<le> alog_last l \<Longrightarrow> alog_term l i = Inr (term_of l (unat i))"
  by (auto simp: alog_term_def term_of_def)

text \<open>The index that separates the terms below \<open>t\<close> from the rest, between \<open>lo\<close> and
  \<open>hi\<close>, and how one probe of the binary search narrows it.\<close>

definition splits_at :: "AbsLog \<Rightarrow> Term \<Rightarrow> nat \<Rightarrow> nat \<Rightarrow> nat \<Rightarrow> bool" where
  "splits_at l t lo hi r \<longleftrightarrow> lo \<le> r \<and> r \<le> hi \<and>
     (\<forall>i. lo \<le> i \<and> i < r \<longrightarrow> term_of l i < t) \<and> (\<forall>i. r \<le> i \<and> i < hi \<longrightarrow> t \<le> term_of l i)"

lemma splits_above:
  assumes "term_sorted l" "base l < lo" "lo \<le> mid" "mid < hi" "hi \<le> alog_last l + 1"
    and "term_of l mid < t" "splits_at l t (mid + 1) hi r"
  shows "splits_at l t lo hi r"
proof -
  have "term_of l i < t" if "lo \<le> i" "i < r" for i
  proof (cases "i \<le> mid")
    case True
    then have "term_of l i \<le> term_of l mid"
      using assms that by (intro term_sorted_mono) auto
    then show ?thesis using assms(6) by simp
  qed (use assms(7) that in \<open>simp add: splits_at_def\<close>)
  then show ?thesis
    using assms(3,7) by (simp add: splits_at_def)
qed

lemma splits_below:
  assumes "term_sorted l" "base l < lo" "lo \<le> mid" "mid < hi" "hi \<le> alog_last l + 1"
    and "t \<le> term_of l mid" "splits_at l t lo mid r"
  shows "splits_at l t lo hi r"
proof -
  have "t \<le> term_of l i" if "r \<le> i" "i < hi" for i
  proof (cases "mid \<le> i")
    case True
    then have "term_of l mid \<le> term_of l i"
      using assms that by (intro term_sorted_mono) auto
    then show ?thesis using assms(6) by simp
  qed (use assms(7) that in \<open>simp add: splits_at_def\<close>)
  then show ?thesis
    using assms(4,7) by (simp add: splits_at_def)
qed

lemma first_index_probe:
  assumes "lo < hi"
  obtains d mid where "u64_sub p hi lo = Some d" "u64_add p lo (d div 2) = Some mid"
proof -
  have "unat (hi - lo) = unat hi - unat lo" "unat lo < unat hi"
    using assms by (simp_all add: unat_u64_sub order.strict_implies_order word_less_nat_alt)
  moreover have "unat ((hi - lo) div 2) = unat (hi - lo) div 2"
    by (simp add: unat_div)
  ultimately have "unat lo + unat ((hi - lo) div 2) < 2 ^ 64"
    using u64_range [of hi] by linarith
  then show ?thesis
    using assms that by (simp add: u64_sub_exact u64_add_exact order.strict_implies_order)
qed

context storage_contract
begin

lemma first_index_loop_splits:
  assumes "invar s" "term_sorted (alog s)"
    and "base (alog s) < unat lo" "unat lo \<le> unat hi" "unat hi \<le> alog_last (alog s) + 1"
  shows "\<exists>r. first_index_loop p S s t lo hi = Some r \<and>
    splits_at (alog s) t (unat lo) (unat hi) (unat r)"
  using assms(3-5)
proof (induction "unat hi - unat lo" arbitrary: lo hi rule: less_induct)
  case less
  show ?case
  proof (cases "lo < hi")
    case False
    then show ?thesis
      using less.prems
      by (subst first_index_loop.simps) (auto simp: word_less_nat_alt splits_at_def)
  next
    case True
    then obtain d mid where dm: "u64_sub p hi lo = Some d" "u64_add p lo (d div 2) = Some mid"
      by (rule first_index_probe)
    note m = first_index_mid [OF True dm]
    have b: "unat lo \<le> unat mid" "unat mid < unat hi"
      using m(2,3) by (simp_all add: word_le_nat_alt word_less_nat_alt)
    have rd: "log_term S s mid = Some (Inr (term_of (alog s) (unat mid)))"
      using b less.prems by (simp add: read_term [OF assms(1)] alog_term_inside)
    show ?thesis
    proof (cases "term_of (alog s) (unat mid) < t")
      case below: True
      have "\<exists>r. first_index_loop p S s t (mid + 1) hi = Some r \<and>
          splits_at (alog s) t (unat (mid + 1)) (unat hi) (unat r)"
        using less.prems b m(5) by (intro less.hyps) auto
      then show ?thesis
        using True dm rd below m(4,5) splits_above [OF assms(2) less.prems(1) b less.prems(3) below]
        by (subst first_index_loop.simps) auto
    next
      case above: False
      have "\<exists>r. first_index_loop p S s t lo mid = Some r \<and>
          splits_at (alog s) t (unat lo) (unat mid) (unat r)"
        using less.prems b by (intro less.hyps) auto
      then show ?thesis
        using True dm rd above
          splits_below [OF assms(2) less.prems(1) b less.prems(3) above [unfolded not_less]]
        by (subst first_index_loop.simps) auto
    qed
  qed
qed

lemma invar_firstE:
  assumes "invar s"
  obtains f where "first_index S s = Some (Inr f)" "unat f = base (alog s) + 1"
proof -
  have "base (alog s) + 1 < 2 ^ 64" using log_ok [OF assms] by (simp add: alog_ok_def)
  then show ?thesis using that first [OF assms] by (metis of_nat_u64)
qed

lemma first_index_of_term_splits:
  assumes "invar s" "term_sorted (alog s)" "base (alog s) < unat upper"
    and "unat upper \<le> alog_last (alog s) + 1"
  shows "\<exists>r. first_index_of_term p S s t upper = Some r \<and>
    splits_at (alog s) t (base (alog s) + 1) (unat upper) (unat r)"
proof -
  obtain f where f: "first_index S s = Some (Inr f)" "unat f = base (alog s) + 1"
    using assms(1) by (rule invar_firstE)
  then show ?thesis
    using first_index_loop_splits [OF assms(1,2), of f upper p t] assms(3,4)
    by (simp add: first_index_of_term_def)
qed

lemma first_index_of_term_compacted:
  assumes "invar s" "unat upper \<le> base (alog s)"
  shows "\<exists>r. first_index_of_term p S s t upper = Some r \<and> unat r = base (alog s) + 1"
proof -
  obtain f where f: "first_index S s = Some (Inr f)" "unat f = base (alog s) + 1"
    using assms(1) by (rule invar_firstE)
  then show ?thesis
    using assms(2) by (simp add: first_index_of_term_def first_index_loop.simps word_less_nat_alt)
qed

end

subsection \<open>What the leader sends\<close>

text \<open>The request for a peer whose next index is still in the log: the entries from there on, or a
  prefix of them that the size cap allows (never empty if there is something to send), preceded
  by the index and the term of the entry before.\<close>

definition append_request_for ::
  "AbsLog \<Rightarrow> 's RaftNodeInner \<Rightarrow> LogIndex \<Rightarrow> nat \<Rightarrow> AppendEntriesRequest" where
  "append_request_for l g next n = \<lparr>
     ae_term = current_term (sm g),
     ae_leader_id = cfg_id (config g),
     prev_log_index = next - 1,
     prev_log_term = (if next = 1 then 0 else unwrap_or (alog_term l (next - 1)) 0),
     ae_entries = map log_entry_to_proto_entry
       (take n (alog_slice l (unat next) (alog_last l + 1))),
     leader_commit = commit_index (sm g)\<rparr>"

lemma prefix_take: "prefix xs ys \<Longrightarrow> xs = take (length xs) ys \<and> length xs \<le> length ys"
  by (auto simp: prefix_def)

lemma alog_lastE:
  assumes "alog_ok l"
  obtains i :: LogIndex where "i = of_nat (alog_last l)" "unat i = alog_last l"
    "\<And>p. u64_add p i 1 = Some (i + 1)" "unat (i + 1) = alog_last l + 1"
proof -
  have b: "alog_last l < 2 ^ 64 - 1" using assms by (simp add: alog_ok_def alog_last_def)
  then have "unat (of_nat (alog_last l) :: LogIndex) = alog_last l" by (intro of_nat_u64) simp
  then show ?thesis using that u64_succ [of "of_nat (alog_last l)"] b by simp
qed

context storage_contract
begin

lemma term_or_0_ok: "invar s \<Longrightarrow> term_or_0 S s i = Some (if i = 0 then 0 else unwrap_or (alog_term (alog s) i) 0)"
  by (simp add: term_or_0_def read_term word_neq_0_conv)

lemma replicate_append:
  assumes "invar (storage g)" "map_of (progress (sm g)) peer = Some pr"
    and "base (alog (storage g)) < unat (next_index pr)"
    and "unat (next_index pr) \<le> alog_last (alog (storage g)) + 1"
    and "u64_mul p (max_append_entries (config g)) 4096 = Some cap"
  shows "\<exists>n \<le> alog_last (alog (storage g)) + 1 - unat (next_index pr). \<exists>i.
    unat i = unat (next_index pr) - 1 + n \<and>
    (unat (next_index pr) \<le> alog_last (alog (storage g)) \<longrightarrow> 0 < n) \<and>
    replicate_to p S g peer = Some (g\<lparr>spawned := spawned g @
      [AppendTask peer i (append_request_for (alog (storage g)) g (next_index pr) n)]\<rparr>)"
proof -
  let ?l = "alog (storage g)" and ?next = "next_index pr"
  let ?sl = "alog_slice ?l (unat ?next) (alog_last ?l + 1)"
  have ok: "alog_ok ?l" using assms(1) by (rule log_ok)
  obtain last where last: "last = of_nat (alog_last ?l)" "unat last = alog_last ?l"
      "u64_add p last 1 = Some (last + 1)" "unat (last + 1) = alog_last ?l + 1"
    using ok by (metis alog_lastE)
  have prev: "u64_sub p ?next 1 = Some (?next - 1)" "unat (?next - 1) = unat ?next - 1"
    using u64_pred [of 0 ?next p] assms(3) by (simp_all add: word_less_nat_alt)
  have zero: "?next - 1 = 0 \<longleftrightarrow> ?next = 1" by simp
  have len: "length ?sl = alog_last ?l + 1 - unat ?next"
    using alog_slice_facts(2) [OF ok assms(3)] by simp
  have spawn: "\<exists>i. unat i = unat ?next - 1 + n \<and>
      spawn_append p g peer (?next - 1) (if ?next - 1 = 0 then 0 else unwrap_or (alog_term ?l (?next - 1)) 0)
        (map log_entry_to_proto_entry (take n ?sl)) =
      Some (g\<lparr>spawned := spawned g @ [AppendTask peer i (append_request_for ?l g ?next n)]\<rparr>)"
    if n: "n \<le> length ?sl" for n
  proof -
    have "alog_last ?l < 2 ^ 64 - 1" using ok by (simp add: alog_ok_def alog_last_def)
    then have "unat ?next - 1 + n < 2 ^ 64"
      using n [unfolded len] assms(3,4) by linarith
    then have "unat (of_nat n :: u64) = n" "unat (?next - 1) + unat (of_nat n :: u64) < 2 ^ 64"
      using prev(2) by (simp_all add: of_nat_u64)
    then show ?thesis
      using n prev(2)
      by (intro exI [of _ "?next - 1 + of_nat n"])
        (simp add: spawn_append_def append_request_for_def u64_add_exact unat_u64_add)
  qed
  have "\<exists>n \<le> length ?sl. (unat ?next \<le> alog_last ?l \<longrightarrow> 0 < n) \<and> replicate_to p S g peer =
      spawn_append p g peer (?next - 1) (if ?next - 1 = 0 then 0 else unwrap_or (alog_term ?l (?next - 1)) 0)
        (map log_entry_to_proto_entry (take n ?sl))"
  proof (cases "?next \<le> last")
    case True
    then obtain es where "log_entries S (storage g) ?next (last + 1) (Some cap) = Some (Inr es)"
        "prefix es ?sl" "?sl \<noteq> [] \<longrightarrow> es \<noteq> []"
      using read_range [OF assms(1,3), of "last + 1" "Some cap"] last by auto
    moreover have "?sl \<noteq> []"
      using True len last(2) by (auto simp: word_le_nat_alt)
    ultimately show ?thesis
      using prefix_take [of es ?sl] True assms(2,5) prev(1) last
      by (intro exI [of _ "length es"])
        (simp add: replicate_to_def term_or_0_ok [OF assms(1)] last_index_ok [OF assms(1)])
  next
    case False
    then show ?thesis
      using assms(2) prev(1) last
      by (intro exI [of _ 0])
        (simp add: word_le_nat_alt replicate_to_def term_or_0_ok [OF assms(1)] last_index_ok [OF assms(1)])
  qed
  then show ?thesis
    using spawn len by metis
qed

text \<open>A peer that lags behind the snapshot is sent the snapshot.\<close>

lemma replicate_snapshot:
  assumes "invar (storage g)" "map_of (progress (sm g)) peer = Some pr"
    and "next_index pr \<noteq> 0" "unat (next_index pr) \<le> base (alog (storage g))"
    and "u64_mul p (max_append_entries (config g)) 4096 = Some cap"
  shows "\<exists>sn. snap (storage g) = Some sn \<and> replicate_to p S g peer = Some (g\<lparr>spawned := spawned g @
    [SnapshotTask peer (last_included_index (metadata sn)) \<lparr>
       is_term = current_term (sm g), is_leader_id = cfg_id (config g),
       is_last_included_index = last_included_index (metadata sn),
       is_last_included_term = last_included_term (metadata sn),
       is_offset = 0, is_data = snap_data sn, is_done = True\<rparr>]\<rparr>)"
proof -
  let ?l = "alog (storage g)" and ?next = "next_index pr"
  have pos: "0 < ?next" using assms(3) by (simp add: word_neq_0_conv)
  obtain last where last: "last = of_nat (alog_last ?l)" "unat last = alog_last ?l"
      "u64_add p last 1 = Some (last + 1)"
    using log_ok [OF assms(1)] by (metis alog_lastE)
  obtain sn where sn: "snap (storage g) = Some sn"
    using no_snapshot_base [OF assms(1)] assms(4) pos
    by (cases "snap (storage g)") (auto simp: word_less_nat_alt)
  moreover have "?next \<le> last"
    using assms(4) last(2) by (simp add: word_le_nat_alt alog_last_def)
  ultimately show ?thesis
    using u64_pred [OF pos, of p] assms(2,5) last read_compacted [OF assms(1,4)]
      read_snapshot [OF assms(1)]
    by (auto simp: replicate_to_def term_or_0_ok [OF assms(1)] last_index_ok [OF assms(1)]
        send_snapshot_to_def)
qed

end

subsection \<open>What the follower does\<close>

text \<open>The consistency check: the log holds the previous entry with the same term, or there is no
  previous entry, or it has been compacted.\<close>

definition consistent :: "AbsLog \<Rightarrow> AppendEntriesRequest \<Rightarrow> bool" where
  "consistent l req \<longleftrightarrow> prev_log_index req = 0 \<or> unat (prev_log_index req) < base l \<or>
     alog_term l (prev_log_index req) = Inr (prev_log_term req)"

text \<open>The log and the commit index after an accepted request.\<close>

definition request_entries :: "AppendEntriesRequest \<Rightarrow> LogEntry list" where
  "request_entries req = map proto_entry_to_log_entry (ae_entries req)"

definition follower_commit :: "LogIndex \<Rightarrow> AppendEntriesRequest \<Rightarrow> AbsLog \<Rightarrow> LogIndex" where
  "follower_commit c req l =
     (if c < leader_commit req then min (leader_commit req) (of_nat (alog_last l)) else c)"

context storage_contract
begin

lemma first_index_loop_bounds:
  assumes "invar s" "unat lo \<le> unat hi"
  shows "\<exists>r. first_index_loop p S s t lo hi = Some r \<and> lo \<le> r \<and> r \<le> hi"
  using assms(2)
proof (induction "unat hi - unat lo" arbitrary: lo hi rule: less_induct)
  case less
  show ?case
  proof (cases "lo < hi")
    case False
    then show ?thesis
      using less.prems by (subst first_index_loop.simps) (auto simp: word_le_nat_alt word_less_nat_alt)
  next
    case True
    then obtain d mid where dm: "u64_sub p hi lo = Some d" "u64_add p lo (d div 2) = Some mid"
      by (rule first_index_probe)
    note m = first_index_mid [OF True dm]
    have b: "unat lo \<le> unat mid" "unat mid < unat hi"
      using m(2,3) by (simp_all add: word_le_nat_alt word_less_nat_alt)
    have "\<exists>r. first_index_loop p S s t (mid + 1) hi = Some r \<and> mid + 1 \<le> r \<and> r \<le> hi"
      "\<exists>r. first_index_loop p S s t lo mid = Some r \<and> lo \<le> r \<and> r \<le> mid"
      using b m(5) by (auto intro!: less.hyps)
    then show ?thesis
      using True dm m b read_term [OF assms(1), of mid]
      by (subst first_index_loop.simps) (auto simp: word_le_nat_alt split: sum.split)
  qed
qed

lemma first_index_of_term_bounds:
  assumes "invar s" "base (alog s) < unat upper"
  shows "\<exists>r. first_index_of_term p S s t upper = Some r \<and> base (alog s) < unat r \<and> r \<le> upper"
proof -
  obtain f where f: "first_index S s = Some (Inr f)" "unat f = base (alog s) + 1"
    using assms(1) by (rule invar_firstE)
  then show ?thesis
    using first_index_loop_bounds [OF assms(1), of f upper p t] assms(2)
    by (auto simp: first_index_of_term_def word_le_nat_alt)
qed

lemma check_prev_accepts:
  assumes "invar (storage g)" "consistent (alog (storage g)) req"
  shows "check_prev p S g req = Some None"
proof (cases "prev_log_index req = 0")
  case False
  then have pos: "0 < prev_log_index req" by (simp add: word_neq_0_conv)
  show ?thesis
  proof (cases "unat (prev_log_index req) < base (alog (storage g))")
    case True
    then show ?thesis
      using pos by (auto simp: check_prev_def read_term [OF assms(1)] alog_term_def)
  next
    case False
    then show ?thesis
      using pos assms(2) by (auto simp: check_prev_def read_term [OF assms(1)] consistent_def)
  qed
qed (simp add: check_prev_def)

text \<open>A rejection names a conflict index that is not above the previous index, except where the
  previous entry is the last one of the snapshot and its term differs.\<close>

lemma check_prev_rejects:
  assumes "invar (storage g)" "\<not> consistent (alog (storage g)) req"
  shows "\<exists>c t. check_prev p S g req = Some (Some (reject c t (current_term (sm g)))) \<and> 0 < c \<and>
    (if unat (prev_log_index req) = base (alog (storage g)) then c = prev_log_index req + 1
     else c \<le> prev_log_index req)"
proof -
  let ?i = "prev_log_index req" and ?l = "alog (storage g)"
  have pos: "0 < ?i" and ge: "base ?l \<le> unat ?i"
    and ne: "alog_term ?l ?i \<noteq> Inr (prev_log_term req)"
    using assms(2) by (auto simp: consistent_def word_neq_0_conv)
  consider "alog_last ?l < unat ?i" | "unat ?i = base ?l" | "base ?l < unat ?i" "unat ?i \<le> alog_last ?l"
    using ge by linarith
  then show ?thesis
  proof cases
    case 1
    then have "unat ?i \<noteq> base ?l" by (simp add: alog_last_def)
    then show ?thesis
      using 1 pos ge
      by (auto simp: check_prev_def read_term [OF assms(1)] alog_term_def alog_last_def word_gt_0)
  next
    case 2
    obtain r where r: "first_index_of_term p S (storage g) (base_term ?l) ?i = Some r"
        "unat r = base ?l + 1"
      using first_index_of_term_compacted [OF assms(1), of ?i p] 2 by auto
    have "unat ?i < 2 ^ 64 - 1"
      using log_ok [OF assms(1)] 2 by (simp add: alog_ok_def)
    then have "r = ?i + 1"
      using r(2) 2 u64_succ [of ?i Debug] by (simp add: word_unat_eq_iff)
    then show ?thesis
      using 2 r pos ne
      by (auto simp: check_prev_def read_term [OF assms(1)] alog_term_def word_gt_0 unat_0_iff
          simp flip: unat_eq_0)
  next
    case 3
    obtain t where t: "alog_term ?l ?i = Inr t" "t \<noteq> prev_log_term req"
      using ne alog_term_inside [OF 3] by auto
    obtain r where r: "first_index_of_term p S (storage g) t ?i = Some r" "base ?l < unat r" "r \<le> ?i"
      using first_index_of_term_bounds [OF assms(1) 3(1), of p t] by auto
    then have "0 < r" by (simp add: word_less_nat_alt)
    then show ?thesis
      using r t 3 pos by (auto simp: check_prev_def read_term [OF assms(1)])
  qed
qed

lemma observe_ok:
  assumes "invar (storage g)"
  shows "\<exists>g'. observe_term S t l g = Some g' \<and> invar (storage g') \<and>
    alog (storage g') = alog (storage g) \<and> snap (storage g') = snap (storage g) \<and>
    sm g' = (if current_term (sm g) < t then become_follower t l (sm g) else sm g) \<and>
    config g' = config g \<and> pending g' = pending g \<and> sent g' = sent g \<and> spawned g' = spawned g \<and>
    applied g' = applied g \<and> snapshot_buf g' = snapshot_buf g"
  using node_save_ok [of "upd_sm (become_follower t l) g"] assms by (auto simp: observe_term_def)

lemma accept_ok:
  assumes "invar (storage g)" "alog_ok (alog_append (alog (storage g)) (request_entries req))"
  defines "l \<equiv> alog_append (alog (storage g)) (request_entries req)"
  shows "\<exists>g'. accept_entries S g req = Some (g', Inr \<lparr>aer_term = current_term (sm g),
      success = True, conflict_index = 0, conflict_term = 0\<rparr>) \<and>
    invar (storage g') \<and> alog (storage g') = l \<and>
    sm g' = (sm g)\<lparr>commit_index := follower_commit (commit_index (sm g)) req l\<rparr>"
proof -
  obtain st where st: "invar st" "alog st = l"
      "(if ae_entries req \<noteq> [] then append_entries S (storage g) (request_entries req)
        else Some (storage g, Inr ())) = Some (st, Inr ())"
  proof (cases "ae_entries req = []")
    case True
    then show ?thesis
      using that [of "storage g"] assms(1) by (simp add: l_def alog_append_def request_entries_def)
  next
    case False
    then show ?thesis
      using that append [OF assms(1,2)] by (auto simp: l_def)
  qed
  let ?c = "follower_commit (commit_index (sm g)) req l"
  have acc: "accept_entries S g req = (do {
      g' \<leftarrow> (if commit_index (sm g) < leader_commit req then do {
          last_idx \<leftarrow> last_index_or_0 S st;
          node_save_hard_state S (upd_sm (\<lambda>s. s\<lparr>commit_index := min (leader_commit req) last_idx\<rparr>)
            (g\<lparr>storage := st\<rparr>)) }
        else Some (g\<lparr>storage := st\<rparr>));
      Some (upd_metrics (\<lambda>m. m\<lparr>append_entries_received := append_entries_received m + 1\<rparr>) g',
        Inr \<lparr>aer_term = current_term (sm g'), success = True, conflict_index = 0, conflict_term = 0\<rparr>) })"
    unfolding accept_entries_def request_entries_def [symmetric] st(3) by simp
  show ?thesis
  proof (cases "commit_index (sm g) < leader_commit req")
    case True
    then have "min (leader_commit req) (of_nat (alog_last l)) = ?c"
      by (simp add: follower_commit_def)
    then show ?thesis
      using node_save_ok [of "upd_sm (\<lambda>s. s\<lparr>commit_index := ?c\<rparr>) (g\<lparr>storage := st\<rparr>)"] True st
      by (auto simp: acc last_index_ok)
  next
    case False
    then show ?thesis
      using st by (simp add: acc follower_commit_def)
  qed
qed

end

text \<open>The state of a node that has accepted the sender as its leader.\<close>

definition led_by :: "AppendEntriesRequest \<Rightarrow> RaftStateMachine \<Rightarrow> RaftStateMachine" where
  "led_by req s =
     (if current_term s < ae_term req then become_follower (ae_term req) (Some (ae_leader_id req)) s
      else s)\<lparr>leader_id := Some (ae_leader_id req)\<rparr>"

lemma led_by_simps:
  "current_term s \<le> ae_term req \<Longrightarrow> current_term (led_by req s) = ae_term req"
  "commit_index (led_by req s) = commit_index s" "last_applied (led_by req s) = last_applied s"
  by (auto simp: led_by_def become_follower_def)

context storage_contract
begin

lemma append_stale:
  "ae_term req < current_term (sm g) \<Longrightarrow>
   on_append_entries p S g req = Some (g, Inr (reject 0 0 (current_term (sm g))))"
  by (auto simp: on_append_entries_def observe_term_def)

lemma append_current:
  assumes "invar (storage g)" "current_term (sm g) \<le> ae_term req"
  shows "\<exists>g1. on_append_entries p S g req =
      do { rejected \<leftarrow> check_prev p S g1 req;
           (case rejected of Some resp \<Rightarrow> Some (g1, Inr resp) | None \<Rightarrow> accept_entries S g1 req) } \<and>
    invar (storage g1) \<and> alog (storage g1) = alog (storage g) \<and> sm g1 = led_by req (sm g)"
proof -
  obtain g1 where g1: "observe_term S (ae_term req) (Some (ae_leader_id req)) g = Some g1"
      "invar (storage g1)" "alog (storage g1) = alog (storage g)"
      "sm g1 = (if current_term (sm g) < ae_term req
        then become_follower (ae_term req) (Some (ae_leader_id req)) (sm g) else sm g)"
    using observe_ok [OF assms(1), of "ae_term req" "Some (ae_leader_id req)"] by auto
  then have "\<not> ae_term req < current_term (sm g1)"
    using assms(2) by (auto simp: become_follower_def)
  then show ?thesis
    using g1 by (intro exI [of _ "upd_sm (\<lambda>s. s\<lparr>leader_id := Some (ae_leader_id req)\<rparr>) g1"])
      (simp add: on_append_entries_def Let_def led_by_def)
qed

lemma append_accepts:
  assumes "invar (storage g)" "current_term (sm g) \<le> ae_term req"
    and "consistent (alog (storage g)) req"
    and "alog_ok (alog_append (alog (storage g)) (request_entries req))"
  shows "\<exists>g'. on_append_entries p S g req = Some (g', Inr \<lparr>aer_term = ae_term req,
      success = True, conflict_index = 0, conflict_term = 0\<rparr>) \<and> invar (storage g') \<and>
    alog (storage g') = alog_append (alog (storage g)) (request_entries req) \<and>
    sm g' = (led_by req (sm g))\<lparr>commit_index := follower_commit (commit_index (sm g)) req
      (alog_append (alog (storage g)) (request_entries req))\<rparr>"
proof -
  obtain g1 where g1: "on_append_entries p S g req =
      do { rejected \<leftarrow> check_prev p S g1 req;
           (case rejected of Some resp \<Rightarrow> Some (g1, Inr resp) | None \<Rightarrow> accept_entries S g1 req) }"
      "invar (storage g1)" "alog (storage g1) = alog (storage g)" "sm g1 = led_by req (sm g)"
    using append_current [OF assms(1,2)] by blast
  then show ?thesis
    using accept_ok [of g1 req] check_prev_accepts [of g1 req p] assms(2-4)
    by (simp add: led_by_simps)
qed

lemma append_rejects:
  assumes "invar (storage g)" "current_term (sm g) \<le> ae_term req"
    and "\<not> consistent (alog (storage g)) req"
  shows "\<exists>g' c t. on_append_entries p S g req = Some (g', Inr (reject c t (ae_term req))) \<and>
    invar (storage g') \<and> alog (storage g') = alog (storage g) \<and> sm g' = led_by req (sm g) \<and> 0 < c \<and>
    (if unat (prev_log_index req) = base (alog (storage g)) then c = prev_log_index req + 1
     else c \<le> prev_log_index req)"
proof -
  obtain g1 where g1: "on_append_entries p S g req =
      do { rejected \<leftarrow> check_prev p S g1 req;
           (case rejected of Some resp \<Rightarrow> Some (g1, Inr resp) | None \<Rightarrow> accept_entries S g1 req) }"
      "invar (storage g1)" "alog (storage g1) = alog (storage g)" "sm g1 = led_by req (sm g)"
    using append_current [OF assms(1,2)] by blast
  moreover obtain c t where "check_prev p S g1 req = Some (Some (reject c t (current_term (sm g1))))"
      "0 < c" "if unat (prev_log_index req) = base (alog (storage g)) then c = prev_log_index req + 1
        else c \<le> prev_log_index req"
    using check_prev_rejects [of g1 req p] g1(2,3) assms(3) by auto
  ultimately show ?thesis
    using assms(2) by (intro exI [of _ g1] exI [of _ c] exI [of _ t]) (simp add: led_by_simps)
qed

end

subsection \<open>Matching logs\<close>

text \<open>The entry a log holds at an index; two logs match when a common index with equal terms
  means equal entries up to there.\<close>

definition entry_at :: "AbsLog \<Rightarrow> nat \<Rightarrow> LogEntry option" where
  "entry_at l i = (if base l < i \<and> i \<le> alog_last l then Some (ents l ! (i - base l - 1)) else None)"

definition same_upto :: "AbsLog \<Rightarrow> AbsLog \<Rightarrow> nat \<Rightarrow> bool" where
  "same_upto l l' n \<longleftrightarrow>
     (\<forall>i a b. i \<le> n \<and> entry_at l i = Some a \<and> entry_at l' i = Some b \<longrightarrow> a = b)"

definition log_matching :: "AbsLog \<Rightarrow> AbsLog \<Rightarrow> bool" where
  "log_matching l l' \<longleftrightarrow>
     (\<forall>i a b. entry_at l i = Some a \<and> entry_at l' i = Some b \<and> le_term a = le_term b \<longrightarrow>
        same_upto l l' i)"

lemma same_uptoI_log_matching:
  assumes "same_upto l l' n" "alog_last l' \<le> n"
  shows "log_matching l l'"
proof -
  have "i \<le> n" if "entry_at l' i = Some b" for i b
    using that assms(2) by (simp add: entry_at_def split: if_splits)
  then show ?thesis
    using assms(1) unfolding log_matching_def same_upto_def by blast
qed

lemma entry_at_append:
  assumes "contiguous k es" "es \<noteq> []" "base l < k" "k \<le> alog_last l + 1"
  shows "entry_at (alog_append l es) i =
    (if i < k then entry_at l i else if i < k + length es then Some (es ! (i - k)) else None)"
proof -
  have hd: "unat (le_index (hd es)) = k"
    using assms(1,2) by (rule contiguous_hd)
  have last: "alog_last (alog_append l es) + 1 = k + length es"
    using assms by (intro alog_append_last)
  have "(take (k - base l - 1) (ents l) @ es) ! (i - base l - 1) =
      (if i < k then ents l ! (i - base l - 1) else es ! (i - k))" if "base l < i"
    using that assms(3,4) by (auto simp: nth_append alog_last_def)
  then show ?thesis
    using assms(2-4) hd last by (auto simp: entry_at_def alog_append_def)
qed

lemma entry_at_slice:
  assumes "base l < lo" "hi \<le> alog_last l + 1" "i < hi - lo"
  shows "entry_at l (lo + i) = Some (alog_slice l lo hi ! i)"
  using assms by (auto simp: entry_at_def alog_slice_def alog_last_def)

text \<open>The step of the log matching property: the follower appends entries that the leader holds
  at the same indices, after an index up to which the logs agree.\<close>

lemma append_same_upto:
  assumes "same_upto l l' (k - 1)" "contiguous k es" "es \<noteq> []" "base l' < k" "k \<le> alog_last l' + 1"
    and "\<And>i. i < length es \<Longrightarrow> entry_at l (k + i) = Some (es ! i)"
  shows "same_upto l (alog_append l' es) (k + length es - 1)"
  unfolding same_upto_def
proof (intro allI impI, elim conjE)
  fix i a b
  assume i: "i \<le> k + length es - 1" "entry_at l i = Some a" "entry_at (alog_append l' es) i = Some b"
  show "a = b"
  proof (cases "i < k")
    case True
    then have "i \<le> k - 1" "entry_at l' i = Some b"
      using i(3) by (simp_all add: entry_at_append [OF assms(2-5)])
    then show ?thesis
      using i(2) assms(1) unfolding same_upto_def by blast
  next
    case False
    then show ?thesis
      using i assms(3) assms(6) [of "i - k"] by (auto simp: entry_at_append [OF assms(2-5)] split: if_splits)
  qed
qed

text \<open>Passing the consistency check with the leader's own previous term means that the logs agree
  up to the previous entry.\<close>

lemma consistent_same_upto:
  assumes "log_matching l l'" "consistent l' req" "unat (prev_log_index req) = n"
    and "prev_log_term req = (if n = 0 then 0 else unwrap_or (alog_term l (prev_log_index req)) 0)"
    and "base l \<le> n" "n \<le> alog_last l"
  shows "same_upto l l' n"
proof (cases "base l < n \<and> base l' < n")
  case False
  then show ?thesis
    by (auto simp: same_upto_def entry_at_def split: if_splits)
next
  case True
  then have pos: "prev_log_index req \<noteq> 0" using assms(3) by auto
  have "alog_term l (prev_log_index req) = Inr (term_of l n)"
    using alog_term_inside [of l "prev_log_index req"] True assms(3,6) by simp
  then have t: "alog_term l' (prev_log_index req) = Inr (term_of l n)"
    using assms(2,3,4) True pos by (auto simp: consistent_def)
  then have n': "n \<le> alog_last l'"
    using assms(3) True pos by (auto simp: alog_term_def split: if_splits)
  then have "term_of l' n = term_of l n"
    using t alog_term_inside [of l' "prev_log_index req"] True assms(3) by simp
  then show ?thesis
    using assms(1,6) True n' unfolding log_matching_def
    by (auto simp: entry_at_def term_of_def)
qed

lemma consistent_last:
  assumes "consistent l req"
  shows "unat (prev_log_index req) \<le> alog_last l"
  using assms by (auto simp: consistent_def alog_term_def alog_last_def split: if_splits)

lemma request_entries_for [simp]:
  "request_entries (append_request_for l g nxt n) = take n (alog_slice l (unat nxt) (alog_last l + 1))"
  by (simp add: request_entries_def append_request_for_def comp_def)

context storage_contract
begin

lemma accepted_is_consistent:
  assumes "invar (storage g)" "on_append_entries p S g req = Some (g', Inr resp)" "success resp"
  shows "current_term (sm g) \<le> ae_term req \<and> consistent (alog (storage g)) req"
proof (rule ccontr)
  assume n: "\<not> (current_term (sm g) \<le> ae_term req \<and> consistent (alog (storage g)) req)"
  show False
  proof (cases "current_term (sm g) \<le> ae_term req")
    case True
    then show False
      using n append_rejects [OF assms(1) True, of p] assms(2,3) by (auto simp: reject_def)
  next
    case False
    then show False
      using append_stale [of req g p] assms(2,3) by (auto simp: reject_def not_le)
  qed
qed

end

text \<open>The effect of an accepted request that was built from the leader's log.\<close>

lemma request_matches:
  assumes req_def: "req = append_request_for L gl nxt n"
    and F'_def: "F' = alog_append F (request_entries req)"
    and L: "alog_ok L" "base L < unat nxt" "unat nxt + n \<le> alog_last L + 1"
    and F: "consistent F req" "alog_ok F'" "log_matching L F"
  shows "same_upto L F' (unat nxt - 1 + n) \<and> log_matching L F' \<and>
    unat nxt - 1 + n \<le> alog_last F' \<and> (0 < n \<longrightarrow> alog_last F' = unat nxt - 1 + n)"
proof -
  let ?es = "request_entries req"
  have sl: "contiguous (unat nxt) (alog_slice L (unat nxt) (alog_last L + 1))"
    "length (alog_slice L (unat nxt) (alog_last L + 1)) = alog_last L + 1 - unat nxt"
    using alog_slice_facts [OF L(1,2)] by simp_all
  have es: "contiguous (unat nxt) ?es" "length ?es = n"
    using sl L(3) by (simp_all add: req_def contiguous_take)
  have "0 < nxt" using L(2) by (simp add: word_less_nat_alt)
  then have prev: "unat (nxt - 1) = unat nxt - 1"
    using u64_pred [of 0 nxt Debug] by simp
  have prev0: "nxt - 1 = 0 \<longleftrightarrow> unat nxt - 1 = 0" using prev by (simp add: unat_eq_0 [symmetric])
  have upto: "same_upto L F (unat nxt - 1)"
    using prev prev0 L(2,3) F(1)
    by (intro consistent_same_upto [OF F(3)]) (auto simp: req_def append_request_for_def)
  show ?thesis
  proof (cases "n = 0")
    case True
    then have "F' = F" using es(2) by (simp add: F'_def alog_append_def)
    then show ?thesis
      using True upto F(3) consistent_last [OF F(1)] prev
      by (simp add: req_def append_request_for_def)
  next
    case False
    then have ne: "?es \<noteq> []" using es(2) by auto
    have k: "base F < unat nxt" "unat nxt \<le> alog_last F + 1"
      using alog_append_ok_start [OF F(2) [unfolded F'_def] ne] contiguous_hd [OF es(1) ne] by simp_all
    have "entry_at L (unat nxt + i) = Some (?es ! i)" if "i < length ?es" for i
    proof -
      have "i < alog_last L + 1 - unat nxt" using that es(2) L(3) by linarith
      then show ?thesis
        using that entry_at_slice [OF L(2), of "alog_last L + 1" i] by (simp add: req_def)
    qed
    then have "same_upto L F' (unat nxt + length ?es - 1)"
      unfolding F'_def using upto es(1) ne k by (intro append_same_upto)
    moreover have "alog_last F' + 1 = unat nxt + length ?es"
      unfolding F'_def using es(1) ne k by (intro alog_append_last)
    ultimately show ?thesis
      using es(2) L(2) by (auto intro: same_uptoI_log_matching)
  qed
qed

lemma follower_commit_le:
  assumes "alog_last l = unat i \<or> leader_commit req \<le> i"
  shows "follower_commit c req l = c \<or> follower_commit c req l \<le> i"
  using assms by (auto simp: follower_commit_def min_le_iff_disj)

subsection \<open>Properties\<close>

text \<open>A follower with the log of \<open>sample_mem\<close> and the requests it is sent.\<close>

definition sample_follower :: "MemStorageInner RaftNodeInner" where
  "sample_follower = (node_new default_config sample_mem)\<lparr>
     sm := sm_new\<lparr>current_term := 2, commit_index := 2\<rparr>\<rparr>"

definition sample_request :: "LogIndex \<Rightarrow> Term \<Rightarrow> LogEntry list \<Rightarrow> AppendEntriesRequest" where
  "sample_request i t es = \<lparr>ae_term = 3, ae_leader_id = 2, prev_log_index = i, prev_log_term = t,
     ae_entries = map log_entry_to_proto_entry es, leader_commit = 4\<rparr>"

lemma sample_node_simps [simp]:
  "storage sample_follower = sample_mem" "current_term (sm sample_follower) = 2"
  "commit_index (sm sample_follower) = 2" "ae_term (sample_request i t es) = 3"
  "prev_log_index (sample_request i t es) = i" "prev_log_term (sample_request i t es) = t"
  "request_entries (sample_request i t es) = es" "leader_commit (sample_request i t es) = 4"
  by (simp_all add: sample_follower_def node_new_def sample_request_def request_entries_def comp_def)

text \<open>C15 (functional): a request from the current or a newer term whose previous entry the follower
  holds (or has compacted) is accepted: the node follows the sender in that term, its log is the
  old one with the entries appended over any suffix they replace, its commit index moves up to
  the leader's but not beyond its own log, and the response is a success.\<close>

theorem append_entries_accepted:
  assumes "mem_ok (storage g)" "current_term (sm g) \<le> ae_term req"
    and "consistent (mem_alog (storage g)) req"
    and "alog_ok (alog_append (mem_alog (storage g)) (request_entries req))"
  shows "\<exists>g'. on_append_entries p (mem_storage p) g req = Some (g', Inr \<lparr>aer_term = ae_term req,
      success = True, conflict_index = 0, conflict_term = 0\<rparr>) \<and> mem_ok (storage g') \<and>
    mem_alog (storage g') = alog_append (mem_alog (storage g)) (request_entries req) \<and>
    sm g' = (led_by req (sm g))\<lparr>commit_index := follower_commit (commit_index (sm g)) req
      (alog_append (mem_alog (storage g)) (request_entries req))\<rparr>"
  using assms by (rule mem.append_accepts)

theorem append_entries_accepted_witness:
  "\<exists>g'. on_append_entries Debug (mem_storage Debug) sample_follower
      (sample_request 3 1 [sample_entry 3 4, sample_entry 3 5]) =
      Some (g', Inr \<lparr>aer_term = 3, success = True, conflict_index = 0, conflict_term = 0\<rparr>) \<and>
    entries (storage g') = [sample_entry 1 3, sample_entry 3 4, sample_entry 3 5] \<and>
    commit_index (sm g') = 4"
proof -
  let ?req = "sample_request 3 1 [sample_entry 3 4, sample_entry 3 5]"
  have app: "alog_append (mem_alog sample_mem) [sample_entry 3 4, sample_entry 3 5] =
      \<lparr>base = 2, base_term = 1, ents = [sample_entry 1 3, sample_entry 3 4, sample_entry 3 5]\<rparr>"
    by (simp add: sample_mem_alog alog_append_def)
  have "consistent (mem_alog (storage sample_follower)) ?req"
    "alog_ok (alog_append (mem_alog (storage sample_follower)) (request_entries ?req))"
    by (simp_all add: app, simp_all add: consistent_def sample_mem_alog alog_term_def alog_last_def
        alog_ok_def contiguous_def less_Suc_eq)
  then show ?thesis
    using append_entries_accepted [of sample_follower ?req Debug] sample_mem_ok
    by (auto simp: app follower_commit_def alog_last_def simp flip: ents_mem_alog)
qed

text \<open>C16 (error): a rejected request changes neither the log nor the commit index. A request of an
  older term is answered with the newer term. Otherwise the response carries a conflict index
  that is positive and not above the previous index; the one exception is a previous entry that
  is the last of the snapshot with another term, where it is the index after.\<close>

theorem append_entries_rejected:
  assumes "mem_ok (storage g)" "ae_term req < current_term (sm g) \<or> \<not> consistent (mem_alog (storage g)) req"
  shows "\<exists>g' c t. on_append_entries p (mem_storage p) g req =
      Some (g', Inr (reject c t (current_term (sm g')))) \<and>
    mem_ok (storage g') \<and> mem_alog (storage g') = mem_alog (storage g) \<and>
    commit_index (sm g') = commit_index (sm g) \<and>
    (if ae_term req < current_term (sm g) then c = 0 \<and> sm g' = sm g
     else 0 < c \<and> (if unat (prev_log_index req) = base (mem_alog (storage g))
       then c = prev_log_index req + 1 else c \<le> prev_log_index req))"
proof (cases "ae_term req < current_term (sm g)")
  case True
  then show ?thesis
    using mem.append_stale [of req g p] assms(1) by auto
next
  case False
  then have le: "current_term (sm g) \<le> ae_term req" by simp
  obtain g' c t where "on_append_entries p (mem_storage p) g req = Some (g', Inr (reject c t (ae_term req)))"
      "mem_ok (storage g')" "mem_alog (storage g') = mem_alog (storage g)" "sm g' = led_by req (sm g)"
      "0 < c" "if unat (prev_log_index req) = base (mem_alog (storage g))
        then c = prev_log_index req + 1 else c \<le> prev_log_index req"
    using mem.append_rejects [OF assms(1) le, of p p] assms(2) False by blast
  then show ?thesis
    using False by (intro exI [of _ g'] exI [of _ c] exI [of _ t]) (simp add: led_by_simps le)
qed

theorem append_entries_rejected_witness:
  "\<exists>g' c t. on_append_entries Debug (mem_storage Debug) sample_follower (sample_request 4 3 []) =
      Some (g', Inr (reject c t (current_term (sm g')))) \<and>
    mem_alog (storage g') = mem_alog sample_mem \<and> 0 < c \<and> c \<le> 4"
proof -
  have "\<not> consistent (mem_alog (storage sample_follower)) (sample_request 4 3 [])"
    by (simp add: consistent_def sample_mem_alog alog_term_def alog_last_def)
  then show ?thesis
    using append_entries_rejected [of sample_follower "sample_request 4 3 []" Debug] sample_mem_ok
    by (auto simp: sample_mem_alog)
qed

text \<open>C26 (functional): the conflict index of a log whose terms never decrease is the first index
  of the conflicting term: the binary search of \<^verbatim>\<open>first_index_of_term\<close> ends without a
  panic at an entry of that term, and every held entry before it has a smaller term.\<close>

theorem conflict_index_is_first:
  assumes "mem_ok m" "term_sorted (mem_alog m)"
    and "base (mem_alog m) < unat upper" "unat upper \<le> alog_last (mem_alog m)"
    and "t = term_of (mem_alog m) (unat upper)"
  shows "\<exists>r. first_index_of_term p (mem_storage p) m t upper = Some r \<and>
    base (mem_alog m) < unat r \<and> r \<le> upper \<and> term_of (mem_alog m) (unat r) = t \<and>
    (\<forall>i. base (mem_alog m) < i \<and> i < unat r \<longrightarrow> term_of (mem_alog m) i < t)"
proof -
  obtain r where r: "first_index_of_term p (mem_storage p) m t upper = Some r"
      "splits_at (mem_alog m) t (base (mem_alog m) + 1) (unat upper) (unat r)"
    using mem.first_index_of_term_splits [OF assms(1-3), of p p t] assms(4) by auto
  then have b: "base (mem_alog m) < unat r" "unat r \<le> unat upper"
    by (simp_all add: splits_at_def)
  then have "term_of (mem_alog m) (unat r) \<le> t"
    using assms term_sorted_mono by blast
  moreover have "t \<le> term_of (mem_alog m) (unat r)"
    using r(2) b assms(5) by (cases "unat r = unat upper") (auto simp: splits_at_def)
  ultimately have "term_of (mem_alog m) (unat r) = t" by simp
  moreover have "r \<le> upper" using b(2) by (simp add: word_le_nat_alt)
  ultimately show ?thesis
    using r b(1) by (simp add: splits_at_def)
qed

theorem conflict_index_is_first_witness:
  "\<exists>r. first_index_of_term Release (mem_storage Release) sample_mem 2 4 = Some r \<and> r \<le> 4 \<and>
    term_of (mem_alog sample_mem) (unat r) = 2"
proof -
  have "term_sorted (mem_alog sample_mem)" "base (mem_alog sample_mem) = 2"
    "alog_last (mem_alog sample_mem) = 4" "term_of (mem_alog sample_mem) 4 = 2"
    by (simp_all add: term_sorted_def sample_mem_alog alog_last_def term_of_def)
  then show ?thesis
    using conflict_index_is_first [OF sample_mem_ok, of 4 2 Release] by auto
qed

text \<open>The replication step keeps logs matching. When a follower accepts the request
  that a leader built for it from its own log, and the two logs matched before, then they match
  after, they hold the same entries up to the last index of the request, the follower's log
  reaches that index, and a commit index that moved does not go beyond it.\<close>

theorem replication_keeps_logs_matching:
  assumes "mem_ok (storage gl)" "mem_ok (storage g)" "map_of (progress (sm gl)) peer = Some pr"
    and "base (mem_alog (storage gl)) < unat (next_index pr)"
    and "unat (next_index pr) \<le> alog_last (mem_alog (storage gl)) + 1"
    and "u64_mul p (max_append_entries (config gl)) 4096 = Some cap"
    and "unat (commit_index (sm gl)) \<le> alog_last (mem_alog (storage gl))"
    and "replicate_to p (mem_storage p) gl peer = Some gl'"
    and "spawned gl' = spawned gl @ [AppendTask peer i req]"
    and "on_append_entries p (mem_storage p) g req = Some (g', Inr resp)" "success resp"
    and "alog_ok (alog_append (mem_alog (storage g)) (request_entries req))"
    and "log_matching (mem_alog (storage gl)) (mem_alog (storage g))"
  shows "log_matching (mem_alog (storage gl)) (mem_alog (storage g')) \<and>
    same_upto (mem_alog (storage gl)) (mem_alog (storage g')) (unat i) \<and>
    unat i \<le> alog_last (mem_alog (storage g')) \<and>
    (commit_index (sm g') = commit_index (sm g) \<or> commit_index (sm g') \<le> i)"
proof -
  let ?L = "mem_alog (storage gl)" and ?F = "mem_alog (storage g)" and ?nxt = "next_index pr"
  obtain n where n: "n \<le> alog_last ?L + 1 - unat ?nxt" "unat i = unat ?nxt - 1 + n"
      "unat ?nxt \<le> alog_last ?L \<longrightarrow> 0 < n" "req = append_request_for ?L gl ?nxt n"
    using mem.replicate_append [OF assms(1,3-6), of p] assms(8,9) by auto
  have c: "current_term (sm g) \<le> ae_term req" "consistent ?F req"
    using mem.accepted_is_consistent [OF assms(2,10,11)] by simp_all
  have F': "mem_alog (storage g') = alog_append ?F (request_entries req)"
    and cm: "commit_index (sm g') = follower_commit (commit_index (sm g)) req
      (alog_append ?F (request_entries req))"
    using mem.append_accepts [OF assms(2) c assms(12), of p p] assms(10) by auto
  note m = request_matches [OF n(4) F' _ assms(4) _ c(2) _ assms(13)]
  have lc: "leader_commit req = commit_index (sm gl)"
    using n(4) by (simp add: append_request_for_def)
  have m': "log_matching ?L (mem_alog (storage g')) \<and> same_upto ?L (mem_alog (storage g')) (unat i) \<and>
      unat i \<le> alog_last (mem_alog (storage g')) \<and> (0 < n \<longrightarrow> alog_last (mem_alog (storage g')) = unat i)"
    using m n(1,2) assms(1,5,12) F' by (simp add: mem_ok_def)
  have "n = 0 \<longrightarrow> alog_last ?L \<le> unat i" using n assms(4,5) by auto
  then have "alog_last (mem_alog (storage g')) = unat i \<or> leader_commit req \<le> i"
    using m' lc assms(7) by (auto simp: word_le_nat_alt)
  then show ?thesis
    using m' cm F' follower_commit_le [of "mem_alog (storage g')" i req "commit_index (sm g)"] by auto
qed

lemma sample_replicate:
  "replicate_to Debug (mem_storage Debug) sample_leader 1 = Some (sample_leader\<lparr>spawned :=
     [AppendTask 1 5 (sample_request 4 2 [sample_entry 3 5])]\<rparr>)"
  by code_simp

lemma sample_logs_match: "log_matching (mem_alog (storage sample_leader)) (mem_alog sample_mem)"
proof (rule same_uptoI_log_matching)
  have "a = b" if "entry_at (mem_alog (storage sample_leader)) i = Some a"
      "entry_at (mem_alog sample_mem) i = Some b" for i a b
  proof -
    have "i = 3 \<or> i = 4"
      using that(2) by (auto simp: entry_at_def sample_mem_alog alog_last_def split: if_splits)
    then show ?thesis
      using that by (auto simp: entry_at_def sample_mem_alog sample_leader_alog alog_last_def)
  qed
  then show "same_upto (mem_alog (storage sample_leader)) (mem_alog sample_mem) 4"
    by (auto simp: same_upto_def)
qed (simp add: sample_mem_alog alog_last_def)

theorem replication_keeps_logs_matching_witness:
  "\<exists>g' resp. on_append_entries Debug (mem_storage Debug) sample_follower
      (sample_request 4 2 [sample_entry 3 5]) = Some (g', Inr resp) \<and>
    same_upto (mem_alog (storage sample_leader)) (mem_alog (storage g')) 5"
proof -
  let ?req = "sample_request 4 2 [sample_entry 3 5]"
  have app: "alog_append (mem_alog sample_mem) [sample_entry 3 5] =
      \<lparr>base = 2, base_term = 1, ents = [sample_entry 1 3, sample_entry 2 4, sample_entry 3 5]\<rparr>"
    by (simp add: sample_mem_alog alog_append_def)
  have ok: "alog_ok (alog_append (mem_alog (storage sample_follower)) (request_entries ?req))"
    by (simp add: app) (simp add: alog_ok_def contiguous_def less_Suc_eq)
  have "consistent (mem_alog sample_mem) ?req"
    by (simp add: consistent_def sample_mem_alog alog_term_def alog_last_def)
  then obtain g' where g': "on_append_entries Debug (mem_storage Debug) sample_follower ?req =
      Some (g', Inr \<lparr>aer_term = 3, success = True, conflict_index = 0, conflict_term = 0\<rparr>)"
    using mem.append_accepts [of sample_follower ?req Debug Debug] ok sample_mem_ok by auto
  have pr: "map_of (progress (sm sample_leader)) 1 = Some (progress_new 5)"
    "u64_mul Debug (max_append_entries (config sample_leader)) 4096 = Some 524288"
    "commit_index (sm sample_leader) = 4" "spawned sample_leader = []"
    by code_simp+
  have "same_upto (mem_alog (storage sample_leader)) (mem_alog (storage g')) 5"
    using replication_keeps_logs_matching [OF sample_leader_ok _ pr(1) _ _ pr(2) _ sample_replicate _ g'] ok
      sample_mem_ok sample_logs_match pr(3,4)
    by (simp add: sample_leader_alog alog_last_def progress_new_def)
  then show ?thesis using g' by blast
qed

text \<open>Appending always truncates, also what agrees with the batch. A delayed copy of an
  older request, with a prefix of what the follower already holds, is accepted and drops the
  rest: here entry 4, which the follower has acknowledged and knows to be committed, is lost and
  the commit index points beyond the log.\<close>

theorem late_append_drops_entries:
  "case on_append_entries Debug (mem_storage Debug)
      (sample_follower\<lparr>sm := (sm sample_follower)\<lparr>commit_index := 4\<rparr>\<rparr>)
      (sample_request 2 1 [sample_entry 1 3]) of
     Some (g', Inr resp) \<Rightarrow> success resp \<and> entries (storage sample_follower) =
         [sample_entry 1 3, sample_entry 2 4] \<and> entries (storage g') = [sample_entry 1 3] \<and>
       mem_last_index (storage g') < commit_index (sm g')
   | _ \<Rightarrow> False"
  by code_simp

end
