(* ===== verification/Cluster_Safety.thy ===== *)
theory Cluster_Safety
  imports Cluster_Runs Node_Replication
begin

text \<open>
  Properties of whole clusters and of a node's event loop: the progress records of a leader,
  one vote and one leader per term, the runs that break them when late votes are counted, what
  reaches the application, and the election timer.
\<close>

subsection \<open>The progress records of a leader\<close>

text \<open>A leader tracks exactly its peers, and the next index of each is at least 1, so that the
  index before it exists.\<close>

definition leader_ok :: "'s RaftNodeInner \<Rightarrow> bool" where
  "leader_ok g \<longleftrightarrow> (role (sm g) = Leader \<longrightarrow> progress_ok (config g) (progress (sm g)) \<and>
     (\<forall>(x, pr) \<in> set (progress (sm g)). 0 < next_index pr))"

text \<open>An operation that leaves the leadership alone, or gives it up.\<close>

definition same_lead :: "'s RaftNodeInner \<Rightarrow> 's RaftNodeInner \<Rightarrow> bool" where
  "same_lead g g' \<longleftrightarrow> config g' = config g \<and>
     (role (sm g') \<noteq> Leader \<or> role (sm g') = role (sm g) \<and> progress (sm g') = progress (sm g))"

lemma same_lead_ok: "leader_ok g \<Longrightarrow> same_lead g g' \<Longrightarrow> leader_ok g'"
  by (auto simp: leader_ok_def same_lead_def)

lemma same_lead_refl [simp]: "same_lead g g"
  by (simp add: same_lead_def)

lemma same_lead_trans: "same_lead a b \<Longrightarrow> same_lead b c \<Longrightarrow> same_lead a c"
  by (auto simp: same_lead_def)

lemma save_same_lead: "node_save_hard_state S g = Some g' \<Longrightarrow> sm g' = sm g \<and> config g' = config g"
  by (auto simp: node_save_hard_state_def elim!: bind_SomeE)

lemma observe_same_lead: "observe_term S t l g = Some g' \<Longrightarrow> same_lead g g'"
  by (auto simp: observe_term_def same_lead_def become_follower_def split: if_splits
      dest!: save_same_lead)

lemma replicate_all_config: "replicate_all p S g = Some g' \<Longrightarrow> config g' = config g"
  using replicate_all_quiet [of p S g g' "\<lambda>_. default_hard_state"] by (simp add: quiet_def)

lemma request_vote_same_lead: "on_request_vote S g req = Some (g', r) \<Longrightarrow> same_lead g g'"
  by (auto simp: on_request_vote_def Let_def elim!: bind_SomeE
      dest!: observe_same_lead save_same_lead split: if_splits)
    (auto simp: same_lead_def)

lemma accept_entries_same_lead: "accept_entries S g req = Some (g', r) \<Longrightarrow> same_lead g g'"
  by (auto simp: accept_entries_def same_lead_def elim!: bind_SomeE split: sum.splits if_splits
      dest!: save_same_lead)

lemma append_entries_same_lead:
  assumes "on_append_entries p S g req = Some (g', r)"
  shows "same_lead g g'"
proof -
  obtain g1 where g1: "observe_term S (ae_term req) (Some (ae_leader_id req)) g = Some g1"
      "g' = g1 \<or> same_lead (sm_update (\<lambda>s. s\<lparr>leader_id := Some (ae_leader_id req)\<rparr>) g1) g'"
    using assms
    by (auto simp: on_append_entries_def Let_def elim!: bind_SomeE
        dest!: accept_entries_same_lead split: if_splits option.splits)
  then show ?thesis
    using observe_same_lead [OF g1(1)] by (auto simp: same_lead_def)
qed

lemma install_snapshot_same_lead:
  assumes "on_install_snapshot S g req = Some (g', r)"
  shows "same_lead g g'"
proof -
  obtain g1 where g1: "observe_term S (is_term req) (Some (is_leader_id req)) g = Some g1"
      "same_lead g1 g'"
    using assms
    by (auto simp: on_install_snapshot_def finish_snapshot_def Let_def same_lead_def
        elim!: bind_SomeE dest!: save_same_lead split: if_splits sum.splits prod.splits)
  then show ?thesis
    using observe_same_lead same_lead_trans by blast
qed

lemma deliver_same_lead: "deliver_task p S t g = Some (g', r) \<Longrightarrow> same_lead g g'"
  by (cases t) (auto elim!: bind_SomeE
      dest: request_vote_same_lead append_entries_same_lead install_snapshot_same_lead)

lemma advance_commit_same_lead: "maybe_advance_commit p S g = Some g' \<Longrightarrow> same_lead g g'"
  by (auto simp: maybe_advance_commit_def notify_pending_def Let_def same_lead_def
      elim!: bind_SomeE dest!: save_same_lead split: if_splits)

lemma apply_committed_same_lead: "apply_committed p S g = Some g' \<Longrightarrow> same_lead g g'"
  by (auto simp: apply_committed_def Let_def same_lead_def fold_apply_entry elim!: bind_SomeE
      split: if_splits sum.splits)

lemma replicate_all_frame: "replicate_all p S g = Some g' \<Longrightarrow> sm g' = sm g \<and> config g' = config g"
  using replicate_all_sm [of p S g g'] replicate_all_config [of p S g g'] by simp

lemma proposal_same_lead: "on_proposal p S g pr = Some g' \<Longrightarrow> same_lead g g'"
  by (auto simp: on_proposal_def send_opt_def Let_def same_lead_def elim!: bind_SomeE
      dest!: replicate_all_frame split: if_splits sum.splits option.splits)

text \<open>The operations that write progress records, in the dev profile.\<close>

lemma Debug_succ_pos: "u64_add Debug m 1 = Some n \<Longrightarrow> 0 < n"
  using u64_add_Debug_Some [of m 1 n] by (simp add: word_less_nat_alt)

lemma become_leader_ok:
  assumes "become_leader Debug i l (peers (config g)) (sm g) = Some s"
  shows "leader_ok (g\<lparr>sm := s\<rparr>)"
proof -
  obtain pr where pr: "insert_progress Debug l (peers (config g)) [] = Some pr" and s: "progress s = pr"
    using assms by (auto simp: become_leader_def elim!: bind_SomeE)
  have ok: "progress_ok (config g) (progress s)"
    using assms by (rule become_leader_progress_ok)
  have "0 < next_index q" if "(x, q) \<in> set pr" for x q
  proof -
    have "map_of pr x = Some q"
      using ok that s by (simp add: progress_ok_def)
    then have x: "x \<in> set (peers (config g))" "q = progress_new (l + 1)"
      using insert_progress_result(3) [OF pr, of x] by (simp_all split: if_splits)
    then have "u64_add Debug l 1 = Some (l + 1)"
      using pr by (cases "peers (config g)") (auto elim!: bind_SomeE simp: u64_add_def split: if_splits)
    then show ?thesis
      using x(2) Debug_succ_pos by (auto simp: progress_new_def)
  qed
  then show ?thesis
    using ok s by (auto simp: leader_ok_def)
qed

lemma win_election_ok:
  assumes "win_election Debug S g = Some g'"
  shows "leader_ok g'"
proof -
  obtain l s f where "become_leader Debug (cfg_id (config g)) l (peers (config g)) (sm g) = Some s"
    and r: "replicate_all Debug S (metrics_update f (g\<lparr>sm := s\<rparr>)) = Some g'"
    using assms by (auto simp: win_election_def elim!: bind_SomeE)
  then show ?thesis
    using become_leader_ok [of _ l g s] replicate_all_frame [OF r] by (simp add: leader_ok_def)
qed

lemma progress_on_append_pos:
  "progress_on_append Debug i resp pr = Some pr' \<Longrightarrow> 0 < next_index pr'"
  "progress_on_success Debug i pr = Some pr' \<Longrightarrow> 0 < next_index pr'"
  by (auto simp: progress_on_append_def progress_on_success_def Let_def Debug_succ_pos
      word_gt_0 max_def elim!: bind_SomeE split: if_splits dest: Debug_succ_pos)

lemma with_progress_leader_ok:
  assumes "with_progress peer f g = Some g'" "leader_ok g"
    and "\<And>pr pr'. f pr = Some pr' \<Longrightarrow> 0 < next_index pr'"
  shows "leader_ok g'"
proof -
  have frame: "role (sm g') = role (sm g)" "config g' = config g"
    using assms(1) by (auto simp: with_progress_def elim!: bind_SomeE split: option.splits)
  have "0 < next_index q" if "role (sm g) = Leader" "(x, q) \<in> set (progress (sm g'))" for x q
  proof -
    have d: "distinct (map fst (progress (sm g)))" "\<forall>(x, q) \<in> set (progress (sm g)). 0 < next_index q"
      using assms(2) that(1) by (auto simp: leader_ok_def progress_ok_def)
    consider "g' = g" | pr pr' where "f pr = Some pr'"
        "progress (sm g') = AList.update peer pr' (progress (sm g))"
      using assms(1) by (auto simp: with_progress_def elim!: bind_SomeE split: option.splits)
    then show ?thesis
    proof cases
      case 1
      then show ?thesis using d(2) that(2) by auto
    next
      case (2 pr pr')
      then have "map_of (AList.update peer pr' (progress (sm g))) x = Some q"
        using that(2) distinct_update [OF d(1)] by simp
      then have "q = pr' \<or> (x, q) \<in> set (progress (sm g))"
        by (auto simp: update_conv' dest: map_of_SomeD split: if_splits)
      then show ?thesis using d(2) assms(3) [OF 2(1)] by auto
    qed
  qed
  then show ?thesis
    using frame assms(2) with_progress_ok [OF assms(1)] by (auto simp: leader_ok_def)
qed

lemma not_leader_ok: "role (sm g) \<noteq> Leader \<Longrightarrow> leader_ok g"
  by (simp add: leader_ok_def)

lemma start_election_ok:
  assumes "start_election Debug S g = Some g'"
  shows "leader_ok g'"
proof -
  have "role (sm g') = Candidate \<or> leader_ok g'"
    using assms
    by (auto simp: start_election_def become_candidate_def Let_def elim!: bind_SomeE
        dest!: save_same_lead win_election_ok split: if_splits)
  then show ?thesis by (auto intro: not_leader_ok)
qed

lemma handle_message_leader_ok:
  assumes "handle_message Debug S g m = Some (g', b)" "leader_ok g"
  shows "leader_ok g'"
proof (cases m)
  case (VoteResponse peer resp)
  then have "handle_vote_response Debug S g peer resp = Some g'"
    using assms(1) by (auto elim!: bind_SomeE)
  then have "same_lead g g' \<or> role (sm g') = Candidate \<or> leader_ok g'"
    by (auto simp: handle_vote_response_def Let_def split: if_splits
        dest: observe_same_lead win_election_ok)
  moreover have "role (sm g') = Candidate \<Longrightarrow> leader_ok g'" by (simp add: leader_ok_def)
  ultimately show ?thesis using assms(2) same_lead_ok by blast
next
  case (AppendResponse peer i resp)
  then obtain g1 where "same_lead g g' \<or>
      with_progress peer (progress_on_append Debug i resp) g = Some g1 \<and>
      maybe_advance_commit Debug S g1 = Some g'"
    using assms(1)
    by (auto simp: handle_append_response_def elim!: bind_SomeE dest: observe_same_lead split: if_splits)
  then show ?thesis
    using assms(2) with_progress_leader_ok progress_on_append_pos(1) advance_commit_same_lead same_lead_ok
    by metis
next
  case (SnapshotResponse peer i resp)
  then obtain g1 where "same_lead g g' \<or>
      with_progress peer (progress_on_success Debug i) g = Some g1 \<and>
      maybe_advance_commit Debug S g1 = Some g'"
    using assms(1)
    by (auto simp: handle_snapshot_response_def elim!: bind_SomeE dest: observe_same_lead split: if_splits)
  then show ?thesis
    using assms(2) with_progress_leader_ok progress_on_append_pos(2) advance_commit_same_lead same_lead_ok
    by metis
next
  case (Propose pr)
  then have "on_proposal Debug S g pr = Some g'"
    using assms(1) by (auto elim!: bind_SomeE)
  then show ?thesis using proposal_same_lead same_lead_ok assms(2) by blast
qed (use assms in \<open>auto simp: leader_ok_def\<close>)

lemma on_timeout_leader_ok:
  assumes "on_timeout Debug S now now' j n = Some n'" "leader_ok (inner n)"
  shows "leader_ok (inner n')"
proof -
  consider "start_election Debug S (inner n) = Some (inner n')" | "n' = n"
    | g1 g2 where "replicate_all Debug S (inner n) = Some g1" "maybe_advance_commit Debug S g1 = Some g2"
      "apply_committed Debug S g2 = Some (inner n')"
    using assms(1) by (auto simp: on_timeout_def Let_def elim!: bind_SomeE split: if_splits)
  then show ?thesis
  proof cases
    case 3
    have "leader_ok g1"
      using replicate_all_frame [OF 3(1)] assms(2) by (simp add: leader_ok_def)
    then show ?thesis
      using 3 advance_commit_same_lead apply_committed_same_lead same_lead_ok by metis
  qed (use assms(2) start_election_ok in auto)
qed

lemma on_recv_inner:
  assumes "on_recv p S n = Some n'" "rx n = m # ms"
  obtains b where "handle_message p S (inner n) m = Some (inner n', b)" "deadlines n' = deadlines n"
  using assms by (auto simp: on_recv_def elim!: bind_SomeE)

lemma restore_role: "restore S g = Some g' \<Longrightarrow> role (sm g') = role (sm g)"
  by (auto simp: restore_def elim!: bind_SomeE split: sum.splits)

lemma start_leader_ok: "boot S cfg st now j = Some r \<Longrightarrow> leader_ok (inner r)"
  using restore_role [of S "node_new cfg st" "inner r"] start_facts [of S cfg st now j r]
  by (simp add: not_leader_ok node_new_def sm_new_def)

lemma procs_put [simp]: "procs (put n r c) m = (if m = n then r else procs c m)"
  by (simp add: put_def)

lemma reachable_leader_ok:
  assumes "reachable Debug S M env c"
  shows "\<forall>n \<in> M. leader_ok (inner (procs c n))"
  using assms
proof (induction rule: reachable.induct)
  case (initial c)
  then show ?case by (auto simp: cluster_init_def dest: start_leader_ok)
next
  case (step c c')
  note IH = step.IH
  from step.hyps(2) show ?case
  proof cases
    case (client n m r)
    then show ?thesis using IH by (auto simp: api_send_def split: if_splits)
  next
    case (recv n m ms r)
    then show ?thesis
      using IH by (auto elim!: on_recv_inner [of Debug S] dest: handle_message_leader_ok)
  next
    case (tick n now now' j r)
    then show ?thesis using IH by (auto dest: on_timeout_leader_ok)
  next
    case (dispatch n t ts)
    then show ?thesis using IH by (auto simp: leader_ok_def)
  next
    case (deliver n t g reply)
    then show ?thesis using IH by (auto dest!: deliver_same_lead intro: same_lead_ok)
  next
    case (arrive n m)
    then show ?thesis using IH by auto
  next
    case (restart n j now r)
    then show ?thesis using IH by (auto dest: start_leader_ok)
  qed
qed

subsection \<open>Elections\<close>

text \<open>A schedule that elects node 1 in term 1, and one in which node 1 counts a vote of term 1 while
  it is a candidate of term 2.\<close>

definition elect_one :: "ClusterEvent list" where
  "elect_one = [EvTick 1 300 300, EvDispatch 1, EvDeliver 1 (VoteTask 2 (vote_req 1 1)),
     EvArrive 1 (VoteResponse 2 \<lparr>rvr_term = 1, vote_granted = True\<rparr>), EvRecv 1]"

definition late_vote :: "ClusterEvent list" where
  "late_vote = [EvTick 1 300 300, EvDispatch 1, EvDeliver 1 (VoteTask 2 (vote_req 1 1)),
     EvTick 1 900 300, EvTick 3 300 300, EvTick 3 900 300,
     EvDispatch 3, EvDispatch 3, EvDispatch 3, EvDispatch 3,
     EvDeliver 3 (VoteTask 2 (vote_req 2 3)),
     EvArrive 3 (VoteResponse 2 \<lparr>rvr_term = 2, vote_granted = True\<rparr>), EvRecv 3,
     EvArrive 1 (VoteResponse 2 \<lparr>rvr_term = 1, vote_granted = True\<rparr>), EvRecv 1]"

definition run_demo :: "MemStorageInner env \<Rightarrow> ClusterEvent list \<Rightarrow> MemStorageInner Cluster option" where
  "run_demo env es = run_events Debug (mem_storage Debug) node_ids env es demo_cluster"

lemma run_demo_reachable:
  "run_demo env es = Some c \<Longrightarrow> reachable Debug (mem_storage Debug) node_ids env c"
  unfolding run_demo_def
  using run_events_reachable [OF reachable.initial [OF demo_cluster_init]] by blast

lemma elect_one_run: "\<exists>c. run_demo (timely Debug) elect_one = Some c \<and> is_leader c 1 1"
proof -
  have "case run_demo (timely Debug) elect_one of Some c \<Rightarrow> is_leader c 1 1 | None \<Rightarrow> False"
    by code_simp
  then show ?thesis by (auto split: option.splits)
qed

text \<open>C3 (safety): election safety. In every reachable state of a cluster, with any loss, delay,
  reordering and duplication of messages, and any restarts, at most one node is the leader of a
  term, provided a granted vote is counted only by a candidate that is still in the term of the
  vote (and, in a release build, term counters do not wrap around).\<close>

theorem election_safety:
  assumes "reachable p (mem_storage p) M (timely p) c"
  shows "card {n \<in> M. is_leader c n t} \<le> 1"
proof (cases "finite {n \<in> M. is_leader c n t}")
  case True
  then show ?thesis
    using mem_hs.one_leader_per_term [OF assms] by (auto simp: card_le_Suc0_iff_eq)
qed simp

theorem election_safety_witness:
  "\<exists>c. reachable Debug (mem_storage Debug) node_ids (timely Debug) c \<and> is_leader c 1 1 \<and>
    card {n \<in> node_ids. is_leader c n 1} \<le> 1"
  using elect_one_run run_demo_reachable election_safety by blast

text \<open>C8 (safety): without that proviso election safety fails: \<^verbatim>\<open>handle_vote_response\<close>
  counts a granted vote whatever its term, so a vote of an earlier term makes a second leader of
  the current term.\<close>

theorem late_vote_two_leaders:
  "\<exists>c. reachable Debug (mem_storage Debug) node_ids any c \<and> is_leader c 1 2 \<and> is_leader c 3 2"
proof -
  have "case run_demo any late_vote of Some c \<Rightarrow> is_leader c 1 2 \<and> is_leader c 3 2 | None \<Rightarrow> False"
    by code_simp
  then show ?thesis
    using run_demo_reachable by (auto split: option.splits)
qed

text \<open>C12 (invariant): votes are unique and durable, as long as a granted vote is counted only in its
  own term and a restarted node handles nothing before it has restored its hard state (a restart is
  one step; \<open>Cluster_Boot\<close> takes it apart). In every state reachable in this way no node has
  held votes for two candidates in one term, restarts included, and the term, the vote and the
  commit index of every node are the ones in its storage.\<close>

theorem votes_unique_and_durable:
  assumes "reachable p (mem_storage p) M (timely p) c"
  shows "(\<forall>v t x y. (v, t, x) \<in> votes_cast c \<and> (v, t, y) \<in> votes_cast c \<longrightarrow> x = y) \<and>
    (\<forall>n \<in> M. hard_state (storage (inner (procs c n))) = hard_state_of (sm (inner (procs c n))))"
  using mem_hs.reachable_inv [OF assms]
  unfolding cluster_inv_def one_vote_def node_inv_def synced_def by blast

theorem votes_unique_and_durable_witness:
  "\<exists>c. reachable Debug (mem_storage Debug) node_ids (timely Debug) c \<and>
    hs_vote (hard_state (storage (inner (procs c 1)))) = 1"
proof -
  obtain c where c: "run_demo (timely Debug) elect_one = Some c"
    using elect_one_run by blast
  moreover have "case run_demo (timely Debug) elect_one of
      Some c \<Rightarrow> voted_for (sm (inner (procs c 1))) = Some 1 | None \<Rightarrow> False"
    by code_simp
  moreover have "1 \<in> node_ids" by (simp add: node_ids_def)
  ultimately show ?thesis
    using run_demo_reachable [OF c] votes_unique_and_durable [of Debug node_ids c]
    by (auto simp: hard_state_of_def)
qed

text \<open>C25 (invariant): in the dev profile every leader of every reachable state tracks exactly its
  peers, one record each, with a next index of at least 1, so the index before it exists.\<close>

theorem leader_progress_invariant:
  assumes "reachable Debug (mem_storage Debug) M env c" "n \<in> M"
    and "role (sm (inner (procs c n))) = Leader"
  shows "distinct (map fst (progress (sm (inner (procs c n))))) \<and>
    fst ` set (progress (sm (inner (procs c n)))) = set (peers (config (inner (procs c n)))) \<and>
    (\<forall>(x, pr) \<in> set (progress (sm (inner (procs c n)))). 0 < next_index pr)"
  using reachable_leader_ok [OF assms(1)] assms(2,3)
  by (auto simp: leader_ok_def progress_ok_def)

theorem leader_progress_invariant_witness:
  "\<exists>c. run_demo any elect_one = Some c \<and>
    fst ` set (progress (sm (inner (procs c 1)))) = set (peers (config (inner (procs c 1))))"
proof -
  have "case run_demo any elect_one of Some c \<Rightarrow> role (sm (inner (procs c 1))) = Leader | None \<Rightarrow> False"
    by code_simp
  then obtain c where c: "run_demo any elect_one = Some c" "role (sm (inner (procs c 1))) = Leader"
    by (auto split: option.splits)
  then show ?thesis
    using leader_progress_invariant [OF run_demo_reachable [OF c(1)], of 1]
    by (auto simp: node_ids_def)
qed

subsection \<open>Heartbeats\<close>

context storage_contract
begin

lemma replicate_beyond:
  assumes "invar (storage g)" "map_of (progress (sm g)) peer = Some pr"
    and "alog_last (alog (storage g)) + 1 < unat (next_index pr)"
  shows "\<exists>i req. replicate_to p S g peer = Some (g\<lparr>spawned := spawned g @ [AppendTask peer i req]\<rparr>)"
proof -
  have pos: "0 < next_index pr" using assms(3) by (simp add: word_less_nat_alt)
  obtain last :: LogIndex where last: "last = of_nat (alog_last (alog (storage g)))"
      "unat last = alog_last (alog (storage g))"
    using log_ok [OF assms(1)] by (metis alog_lastE)
  have "\<not> next_index pr \<le> last" using assms(3) last(2) by (simp add: word_le_nat_alt)
  moreover have "u64_add p (next_index pr - 1) 0 = Some (next_index pr - 1)"
    using u64_range [of "next_index pr - 1"] by (simp add: u64_add_nat)
  ultimately show ?thesis
    using assms(2) last u64_pred [OF pos, of p]
    by (simp add: replicate_to_def term_or_0_ok [OF assms(1)] last_index_ok [OF assms(1)] spawn_append_def)
      blast
qed

lemma replicate_to_total:
  assumes "invar (storage g)" "map_of (progress (sm g)) peer = Some pr" "0 < next_index pr"
    and "u64_mul p (max_append_entries (config g)) 4096 = Some cap"
  shows "\<exists>t. task_target t = peer \<and> replicate_to p S g peer = Some (g\<lparr>spawned := spawned g @ [t]\<rparr>)"
proof -
  consider "unat (next_index pr) \<le> base (alog (storage g))"
    | "base (alog (storage g)) < unat (next_index pr)"
      "unat (next_index pr) \<le> alog_last (alog (storage g)) + 1"
    | "alog_last (alog (storage g)) + 1 < unat (next_index pr)"
    by linarith
  then show ?thesis
  proof cases
    case 1
    then show ?thesis
      using replicate_snapshot [OF assms(1,2) _ 1 assms(4)] assms(3) task_target.simps(3)
      by (metis word_neq_0_conv)
  next
    case 2
    then show ?thesis
      using replicate_append [OF assms(1,2) 2 assms(4)] task_target.simps(2) by metis
  next
    case 3
    then show ?thesis
      using replicate_beyond [OF assms(1,2) 3, of p] task_target.simps(2) by metis
  qed
qed

lemma replicate_peers_total:
  assumes "invar (storage g)" "u64_mul p (max_append_entries (config g)) 4096 = Some cap"
    and "\<forall>x \<in> set ps. \<exists>pr. map_of (progress (sm g)) x = Some pr \<and> 0 < next_index pr"
  shows "\<exists>ts. map task_target ts = ps \<and> replicate_peers p S ps g = Some (g\<lparr>spawned := spawned g @ ts\<rparr>)"
  using assms
proof (induction ps arbitrary: g)
  case Nil
  then show ?case by simp
next
  case (Cons x ps)
  obtain t where t: "task_target t = x" "replicate_to p S g x = Some (g\<lparr>spawned := spawned g @ [t]\<rparr>)"
    using Cons.prems replicate_to_total [of g x _ p cap] by auto
  obtain ts where "map task_target ts = ps" "replicate_peers p S ps (g\<lparr>spawned := spawned g @ [t]\<rparr>) =
      Some (g\<lparr>spawned := spawned g @ [t] @ ts\<rparr>)"
    using Cons.IH [of "g\<lparr>spawned := spawned g @ [t]\<rparr>"] Cons.prems by auto
  then show ?case
    using t by (intro exI [of _ "t # ts"]) simp
qed

end

text \<open>C24 (bounds): a heartbeat never panics and reaches everyone. From any well-formed state of a
  leader, in either profile, \<^verbatim>\<open>replicate_all\<close> spawns exactly one request per peer, in
  the order of the configuration, and changes nothing else; the only arithmetic that could
  overflow is the configured size cap.\<close>

theorem heartbeat_reaches_all_peers:
  assumes "mem_ok (storage g)" "role (sm g) = Leader" "leader_ok g"
    and "u64_mul p (max_append_entries (config g)) 4096 = Some cap"
  shows "\<exists>ts. replicate_all p (mem_storage p) g = Some (g\<lparr>spawned := spawned g @ ts\<rparr>) \<and>
    map task_target ts = peers (config g)"
proof -
  have ok: "progress_ok (config g) (progress (sm g))"
      "\<forall>(x, pr) \<in> set (progress (sm g)). 0 < next_index pr"
    using assms(2,3) by (simp_all add: leader_ok_def)
  have "\<exists>pr. map_of (progress (sm g)) x = Some pr \<and> 0 < next_index pr" if "x \<in> set (peers (config g))" for x
  proof -
    have "x \<in> fst ` set (progress (sm g))"
      using ok(1) that by (simp add: progress_ok_def)
    then obtain pr where "(x, pr) \<in> set (progress (sm g))"
      by auto
    then show ?thesis
      using ok by (auto simp: progress_ok_def)
  qed
  then show ?thesis
    using mem.replicate_peers_total [OF assms(1,4), of "peers (config g)" p] assms(2)
    by (auto simp: replicate_all_def)
qed

theorem heartbeat_reaches_all_peers_witness:
  "\<exists>ts. replicate_all Debug (mem_storage Debug) sample_leader =
      Some (sample_leader\<lparr>spawned := ts\<rparr>) \<and> map task_target ts = [1]"
proof -
  have "role (sm sample_leader) = Leader" "leader_ok sample_leader" "spawned sample_leader = []"
    "u64_mul Debug (max_append_entries (config sample_leader)) 4096 = Some 524288"
    "peers (config sample_leader) = [1]"
    by (simp_all add: sample_leader_def node_new_def leader_ok_def progress_ok_def progress_new_def
        default_config_def u64_mul_def)
  then show ?thesis
    using heartbeat_reaches_all_peers [OF sample_leader_ok, of Debug 524288] by simp
qed

subsection \<open>A replicated proposal\<close>

text \<open>After node 1 has been elected a client proposes a byte; the request reaches node 2, its
  response reaches node 1, and the heartbeat of node 1 fires. The first two requests node 1 sends
  as a leader are empty heartbeats.\<close>

definition demo_append :: "LogEntry list \<Rightarrow> AppendEntriesRequest" where
  "demo_append es = \<lparr>ae_term = 1, ae_leader_id = 1, prev_log_index = 0, prev_log_term = 0,
     ae_entries = map log_entry_to_proto_entry es, leader_commit = 0\<rparr>"

definition demo_entry :: LogEntry where
  "demo_entry = \<lparr>le_term = 1, le_index = 1, le_data = [42], le_type = Normal\<rparr>"

definition commit_one :: "ClusterEvent list" where
  "commit_one = elect_one @ [EvClient 1 (Propose \<lparr>prop_data = [42], prop_tx = Some 7\<rparr>), EvRecv 1,
     EvDispatch 1, EvDispatch 1, EvDispatch 1, EvDispatch 1,
     EvDeliver 1 (AppendTask 3 0 (demo_append [])),
     EvDeliver 1 (AppendTask 2 1 (demo_append [demo_entry])),
     EvArrive 1 (AppendResponse 2 1 \<lparr>aer_term = 1, success = True, conflict_index = 0,
       conflict_term = 0\<rparr>), EvRecv 1]"

subsection \<open>What reaches the application\<close>

text \<open>Every operation but \<^verbatim>\<open>apply_committed\<close> leaves the sent entries alone.\<close>

lemma save_applied: "node_save_hard_state S g = Some g' \<Longrightarrow> applied g' = applied g"
  by (auto simp: node_save_hard_state_def elim!: bind_SomeE)

lemma observe_applied: "observe_term S t l g = Some g' \<Longrightarrow> applied g' = applied g"
  by (auto simp: observe_term_def dest!: save_applied split: if_splits)

lemma replicate_to_applied: "replicate_to p S g peer = Some g' \<Longrightarrow> applied g' = applied g"
  by (auto simp: replicate_to_def spawn_append_def send_snapshot_to_def elim!: bind_SomeE
      split: option.splits if_splits sum.splits RaftError.splits)

lemma replicate_all_applied: "replicate_all p S g = Some g' \<Longrightarrow> applied g' = applied g"
proof -
  have "replicate_peers p S ps g = Some g' \<Longrightarrow> applied g' = applied g" for ps
    by (induction ps arbitrary: g) (auto elim!: bind_SomeE dest: replicate_to_applied)
  then show "replicate_all p S g = Some g' \<Longrightarrow> applied g' = applied g"
    by (auto simp: replicate_all_def split: if_splits)
qed

lemmas applied_frames = save_applied observe_applied replicate_all_applied

lemma request_vote_applied: "on_request_vote S g req = Some (g', r) \<Longrightarrow> applied g' = applied g"
  by (auto simp: on_request_vote_def Let_def elim!: bind_SomeE dest!: applied_frames split: if_splits)

lemma append_entries_applied: "on_append_entries p S g req = Some (g', r) \<Longrightarrow> applied g' = applied g"
  by (auto simp: on_append_entries_def accept_entries_def Let_def elim!: bind_SomeE
      dest!: applied_frames split: if_splits option.splits sum.splits)

lemma install_snapshot_applied: "on_install_snapshot S g req = Some (g', r) \<Longrightarrow> applied g' = applied g"
  by (auto simp: on_install_snapshot_def finish_snapshot_def Let_def elim!: bind_SomeE
      dest!: applied_frames split: if_splits sum.splits prod.splits)

lemma deliver_applied: "deliver_task p S t g = Some (g', r) \<Longrightarrow> applied g' = applied g"
  by (cases t) (auto elim!: bind_SomeE
      dest: request_vote_applied append_entries_applied install_snapshot_applied)

lemma advance_commit_applied: "maybe_advance_commit p S g = Some g' \<Longrightarrow> applied g' = applied g"
  by (auto simp: maybe_advance_commit_def notify_pending_def Let_def elim!: bind_SomeE
      dest!: applied_frames split: if_splits)

lemma win_election_applied: "win_election p S g = Some g' \<Longrightarrow> applied g' = applied g"
  by (auto simp: win_election_def elim!: bind_SomeE dest!: applied_frames)

lemma start_election_applied: "start_election p S g = Some g' \<Longrightarrow> applied g' = applied g"
  by (auto simp: start_election_def Let_def elim!: bind_SomeE
      dest!: applied_frames win_election_applied split: if_splits)

lemma with_progress_applied: "with_progress peer f g = Some g' \<Longrightarrow> applied g' = applied g"
  by (auto simp: with_progress_def elim!: bind_SomeE split: option.splits)

lemma handle_message_applied: "handle_message p S g m = Some (g', b) \<Longrightarrow> applied g' = applied g"
  by (cases m) (auto simp: on_proposal_def send_opt_def handle_vote_response_def
      handle_append_response_def handle_snapshot_response_def Let_def elim!: bind_SomeE
      dest!: applied_frames win_election_applied with_progress_applied advance_commit_applied
      split: if_splits option.splits sum.splits)

lemma on_timeout_applied:
  "on_timeout p S now now' j n = Some n' \<Longrightarrow> role (sm (inner n)) \<noteq> Leader \<Longrightarrow>
   applied (inner n') = applied (inner n)"
  by (auto simp: on_timeout_def Let_def elim!: bind_SomeE dest!: start_election_applied
      split: if_splits)

lemma on_recv_frame:
  "on_recv p S n = Some n' \<Longrightarrow> applied (inner n') = applied (inner n) \<and> deadlines n' = deadlines n"
  by (auto simp: on_recv_def elim!: bind_SomeE dest!: handle_message_applied split: list.splits)

text \<open>C34 (safety): only a leader's heartbeat sends entries to the application. Whatever happens to
  a node that is not the leader, short of a restart, nothing is applied there; so committed
  entries never reach the application of a follower.\<close>

theorem only_leaders_apply:
  assumes "apply_event p S M env e c = Some c'" "\<forall>now j. e \<noteq> EvRestart n now j"
    and "applied (inner (procs c' n)) \<noteq> applied (inner (procs c n))"
  shows "role (sm (inner (procs c n))) = Leader \<and> (\<exists>now j. e = EvTick n now j)"
  using assms
  by (cases e)
    (auto simp: api_send_def split: if_splits list.splits option.splits sum.splits
      dest!: on_recv_frame on_timeout_applied deliver_applied)

theorem only_leaders_apply_witness:
  "\<exists>c c'. apply_event Debug (mem_storage Debug) node_ids any (EvTick 1 400 300) c = Some c' \<and>
    applied (inner (procs c' 1)) \<noteq> applied (inner (procs c 1)) \<and>
    role (sm (inner (procs c 1))) = Leader"
proof -
  have "case run_demo any commit_one of None \<Rightarrow> False
    | Some c \<Rightarrow> (case apply_event Debug (mem_storage Debug) node_ids any (EvTick 1 400 300) c of
        None \<Rightarrow> False | Some c' \<Rightarrow> applied (inner (procs c' 1)) \<noteq> applied (inner (procs c 1)))"
    by code_simp
  then obtain c c' where c: "apply_event Debug (mem_storage Debug) node_ids any (EvTick 1 400 300) c = Some c'"
      "applied (inner (procs c' 1)) \<noteq> applied (inner (procs c 1))"
    by (auto simp del: apply_event.simps split: option.splits)
  then show ?thesis
    using only_leaders_apply [OF c(1), of 1] by blast
qed

subsection \<open>The election timer\<close>

fun touches_timer :: "NodeId \<Rightarrow> ClusterEvent \<Rightarrow> bool" where
  "touches_timer n (EvTick m _ _) \<longleftrightarrow> m = n"
| "touches_timer n (EvRestart m _ _) \<longleftrightarrow> m = n"
| "touches_timer n _ \<longleftrightarrow> False"

lemma event_deadlines:
  "apply_event p S M env e c = Some c' \<Longrightarrow> \<not> touches_timer n e \<Longrightarrow>
   deadlines (procs c' n) = deadlines (procs c n)"
  by (cases e)
    (auto simp: api_send_def split: if_splits list.splits option.splits sum.splits
      dest!: on_recv_frame)

lemma run_deadlines:
  "run_events p S M env es c = Some c' \<Longrightarrow> \<forall>e \<in> set es. \<not> touches_timer n e \<Longrightarrow>
   deadlines (procs c' n) = deadlines (procs c n)"
  by (induction es arbitrary: c) (auto elim!: bind_SomeE dest: event_deadlines)

text \<open>C33 (error): nothing a leader sends resets a follower's election timer. After any run of
  messages, RPCs and other nodes' timeouts, a node that is not the leader and whose election
  deadline has passed stands for election in the next term, although a comment in
  \<^verbatim>\<open>on_append_entries\<close> says the clock is reset.\<close>

theorem election_timer_not_reset:
  assumes "run_events p (mem_storage p) M env es c = Some c'" "\<forall>e \<in> set es. \<not> touches_timer n e"
    and "election_deadline (deadlines (procs c n)) \<le> now" "role (sm (inner (procs c' n))) \<noteq> Leader"
    and "on_timeout p (mem_storage p) now now' j (procs c' n) = Some r"
  shows "u64_add p (current_term (sm (inner (procs c' n)))) 1 = Some (current_term (sm (inner r))) \<and>
    role (sm (inner r)) \<noteq> Follower \<and>
    voted_for (sm (inner r)) = Some (cfg_id (config (inner (procs c' n))))"
proof -
  have "start_election p (mem_storage p) (inner (procs c' n)) = Some (inner r)"
    using assms(3-5) run_deadlines [OF assms(1,2)]
    by (auto simp: on_timeout_def Let_def elim!: bind_SomeE split: if_splits)
  then show ?thesis
    by (rule mem_hs.start_election_outcome) auto
qed

theorem election_timer_not_reset_witness:
  "\<exists>c' r. run_demo any commit_one = Some c' \<and> leader_id (sm (inner (procs c' 3))) = Some 1 \<and>
    on_timeout Debug (mem_storage Debug) 300 300 300 (procs c' 3) = Some r \<and>
    role (sm (inner r)) \<noteq> Follower"
proof -
  have "case run_demo any commit_one of None \<Rightarrow> False
    | Some c' \<Rightarrow> leader_id (sm (inner (procs c' 3))) = Some 1 \<and>
        role (sm (inner (procs c' 3))) \<noteq> Leader \<and>
        on_timeout Debug (mem_storage Debug) 300 300 300 (procs c' 3) \<noteq> None"
    by code_simp
  then obtain c' r where c: "run_demo any commit_one = Some c'"
      "leader_id (sm (inner (procs c' 3))) = Some 1" "role (sm (inner (procs c' 3))) \<noteq> Leader"
      "on_timeout Debug (mem_storage Debug) 300 300 300 (procs c' 3) = Some r"
    by (auto split: option.splits)
  moreover have "\<forall>e \<in> set commit_one. \<not> touches_timer 3 e"
    by (simp add: commit_one_def elect_one_def)
  moreover have "election_deadline (deadlines (procs demo_cluster 3)) \<le> 300"
    by (simp add: demo_cluster_def demo_node_def)
  ultimately show ?thesis
    using election_timer_not_reset [OF c(1) [unfolded run_demo_def], of 3 300 300 300 r] by blast
qed

end
