(* ===== verification/Plain_Node.thy ===== *)
theory Plain_Node
  imports Cluster_Safety
begin

text \<open>
  A node on the in-memory store without snapshots, in the dev profile: what each operation that
  returns does to the log, the requests and the state, with no bound on the size of the log. The
  cluster-level invariants on logs and commits rest on these facts.
\<close>

subsection \<open>The store without snapshots\<close>

definition plain_log :: "MemStorageInner \<Rightarrow> bool" where
  "plain_log m \<longleftrightarrow> snapshot m = None \<and> contiguous 1 (entries m)"

lemma plain_last:
  assumes "plain_log m"
  shows "unat (mem_last_index m) = length (entries m)"
proof (cases "entries m = []")
  case False
  then show ?thesis
    using assms contiguous_last [of 1 "entries m"] by (simp add: plain_log_def mem_last_index_def)
qed (use assms in \<open>simp add: plain_log_def mem_last_index_def\<close>)

lemma plain_length: "plain_log m \<Longrightarrow> length (entries m) < 2 ^ 64"
  using plain_last [of m] u64_range [of "mem_last_index m"] by simp

lemma plain_first: "plain_log m \<Longrightarrow> mem_first_index p m = Some 1"
  by (simp add: plain_log_def mem_first_index_def)

lemma plain_term:
  assumes "plain_log m"
  shows "mem_term p m i = Some (if i = 0 then Inr 0
    else if unat i \<le> length (entries m) then Inr (le_term (entries m ! (unat i - 1)))
    else Inl (LogUnavailable i))"
proof (cases "i = 0")
  case False
  then have "1 \<le> i" by (simp add: word_le_nat_alt Suc_le_eq unat_gt_0)
  then have "u64_sub p i 1 = Some (i - 1)" "unat (i - 1) = unat i - 1" "1 \<le> unat i"
    by (simp_all add: u64_sub_exact unat_u64_sub word_le_nat_alt)
  then show ?thesis
    using False assms \<open>1 \<le> i\<close> plain_first [OF assms, of p]
    by (auto simp: mem_term_def mem_term_in_log_def plain_log_def not_less)
qed (simp add: mem_term_def)

lemma take_capped_take: "take_capped p mx es tb acc = Some r \<Longrightarrow> \<exists>n. r = acc @ take n es"
proof (induction es arbitrary: tb acc)
  case (Cons e es)
  obtain t where t: "(if acc \<noteq> [] \<and> mx < t then Some acc else take_capped p mx es t (acc @ [e])) = Some r"
    using Cons.prems by (auto elim!: bind_SomeE)
  then have "r = acc \<or> take_capped p mx es t (acc @ [e]) = Some r"
    by (simp split: if_splits)
  then show ?case
  proof
    assume "r = acc"
    then have "r = acc @ take 0 (e # es)" by simp
    then show ?thesis by blast
  next
    assume "take_capped p mx es t (acc @ [e]) = Some r"
    then obtain n where "r = (acc @ [e]) @ take n es" using Cons.IH by blast
    then have "r = acc @ take (Suc n) (e # es)" by simp
    then show ?thesis by blast
  qed
qed simp

lemma take_capped_nonempty:
  "take_capped p mx es tb acc = Some r \<Longrightarrow> acc \<noteq> [] \<or> es \<noteq> [] \<Longrightarrow> r \<noteq> []"
proof (induction es arbitrary: tb acc)
  case (Cons e es)
  obtain t where "(if acc \<noteq> [] \<and> mx < t then Some acc else take_capped p mx es t (acc @ [e])) = Some r"
    using Cons.prems(1) by (auto elim!: bind_SomeE)
  then show ?case
    using Cons.IH by (auto split: if_splits)
qed simp

text \<open>A read returns consecutive entries from \<open>lo\<close> on, and at least one.\<close>

lemma plain_entries:
  assumes "plain_log m" "mem_entries p m lo hi mx = Some (Inr es)" "lo < hi"
  shows "prefix es (drop (unat lo - 1) (entries m))" "es \<noteq> []" "1 \<le> unat lo"
    "length es \<le> unat hi - unat lo"
proof -
  have lo: "1 \<le> lo"
  proof (rule ccontr)
    assume "\<not> 1 \<le> lo"
    then show False using assms(1,2) by (simp add: mem_entries_def plain_first not_le)
  qed
  then show "1 \<le> unat lo" by (simp add: word_le_nat_alt)
  have hi: "1 \<le> hi" using lo assms(3) by simp
  have off: "u64_sub p lo 1 = Some (lo - 1)" "unat (lo - 1) = unat lo - 1"
      "u64_sub p hi 1 = Some (hi - 1)" "unat (hi - 1) = unat hi - 1"
    using lo hi by (simp_all add: u64_sub_exact unat_u64_sub)
  define slice where "slice = take (unat hi - unat lo) (drop (unat lo - Suc 0) (entries m))"
  have b: "unat lo < unat hi" "unat hi - 1 \<le> length (entries m)"
    and es: "(case mx of Some mx \<Rightarrow> map_option Inr (take_capped p mx slice 0 []) | None \<Rightarrow> Some (Inr slice)) =
      (Some (Inr es) :: LogEntry list result option)"
    using assms off lo \<open>1 \<le> unat lo\<close> assms(3) [folded not_le] unfolding slice_def
    by (auto simp: mem_entries_def plain_first Let_def word_less_nat_alt elim!: bind_SomeE split: if_splits)
  have ne: "slice \<noteq> []"
    using b \<open>1 \<le> unat lo\<close> by (simp add: slice_def)
  have "prefix slice (drop (unat lo - 1) (entries m))"
    by (simp add: slice_def take_is_prefix)
  moreover have "prefix es slice \<and> es \<noteq> []"
  proof (cases mx)
    case (Some x)
    then have c: "take_capped p x slice 0 [] = Some es" using es by simp
    then show ?thesis
      using take_capped_take [OF c] take_capped_nonempty [OF c] ne by (auto simp: take_is_prefix)
  qed (use es ne in simp)
  ultimately show "prefix es (drop (unat lo - 1) (entries m))" "es \<noteq> []"
      "length es \<le> unat hi - unat lo"
    using prefix_length_le [of es slice] by (auto simp: slice_def intro: prefix_order.trans)
qed

text \<open>An append that starts right after position \<open>k\<close> of the log.\<close>

lemma plain_append:
  assumes "plain_log m" "mem_append_entries p m es = Some (m', r)" "es \<noteq> []"
    and "unat (le_index (hd es)) = Suc k" "k \<le> length (entries m)"
  shows "entries m' = take k (entries m) @ es" "snapshot m' = None"
proof -
  have s: "snapshot m' = snapshot m"
    using assms(2) by (auto simp: mem_append_entries_def Let_def elim!: bind_SomeE split: if_splits)
  then show "snapshot m' = None" using assms(1) by (simp add: plain_log_def)
  let ?i = "le_index (hd es)"
  have i: "1 \<le> ?i" using assms(4) by (simp add: word_le_nat_alt)
  then have off: "u64_sub p ?i 1 = Some (?i - 1)" "unat (?i - 1) = k"
    using assms(4) by (simp_all add: u64_sub_exact unat_u64_sub)
  have "?i \<le> mem_last_index m \<longleftrightarrow> Suc k \<le> length (entries m)"
    using assms(4) plain_last [OF assms(1)] by (simp add: word_le_nat_alt)
  then show "entries m' = take k (entries m) @ es"
    using assms(2,3,5) off plain_first [OF assms(1), of p]
    by (auto simp: mem_append_entries_def Let_def elim!: bind_SomeE split: if_splits)
qed

subsection \<open>Operations that leave the log alone\<close>

text \<open>Operations that leave the log alone and create no requests.\<close>

definition log_frame :: "MemStorageInner RaftNodeInner \<Rightarrow> MemStorageInner RaftNodeInner \<Rightarrow> bool" where
  "log_frame g g' \<longleftrightarrow> entries (storage g') = entries (storage g) \<and>
     snapshot (storage g') = snapshot (storage g) \<and> config g' = config g \<and>
     spawned g' = spawned g \<and>
     (current_term (sm g') = current_term (sm g) \<and> role (sm g') = role (sm g) \<or>
      current_term (sm g) \<le> current_term (sm g') \<and> role (sm g') = Follower)"

lemma log_frame_refl [simp]: "log_frame g g"
  by (simp add: log_frame_def)

lemma log_frame_trans: "log_frame a b \<Longrightarrow> log_frame b c \<Longrightarrow> log_frame a c"
  by (auto simp: log_frame_def)

lemma log_frame_save: "node_save_hard_state (mem_storage p) g = Some g' \<Longrightarrow> log_frame g g'"
  by (auto simp: node_save_hard_state_def mem_storage_def mem_save_hard_state_def log_frame_def)

lemma log_frame_save_sm:
  assumes "node_save_hard_state (mem_storage p) (upd_sm f g) = Some g'"
    and "current_term (f (sm g)) = current_term (sm g) \<and> role (f (sm g)) = role (sm g) \<or>
      current_term (sm g) \<le> current_term (f (sm g)) \<and> role (f (sm g)) = Follower"
  shows "log_frame g g'"
  using log_frame_save [OF assms(1)] assms(2) by (auto simp: log_frame_def)

lemma log_frame_observe: "observe_term (mem_storage p) t l g = Some g' \<Longrightarrow> log_frame g g'"
  by (auto simp: observe_term_def become_follower_def split: if_splits
      intro: log_frame_save_sm order.strict_implies_order)

lemma log_frame_vote:
  assumes "on_request_vote (mem_storage p) g req = Some (g', r)"
  shows "log_frame g g'"
proof -
  obtain g1 where "observe_term (mem_storage p) (rv_term req) None g = Some g1" "log_frame g1 g'"
    using assms
    by (auto simp: on_request_vote_def Let_def elim!: bind_SomeE dest!: log_frame_save
        split: if_splits)
      (auto simp: log_frame_def)
  then show ?thesis
    using log_frame_observe log_frame_trans by blast
qed

lemma log_frame_commit: "maybe_advance_commit p (mem_storage p) g = Some g' \<Longrightarrow> log_frame g g'"
  by (auto simp: maybe_advance_commit_def notify_pending_def Let_def log_frame_def
      elim!: bind_SomeE dest!: log_frame_save split: if_splits)

lemma log_frame_apply: "apply_committed p (mem_storage p) g = Some g' \<Longrightarrow> log_frame g g'"
  by (auto simp: apply_committed_def Let_def log_frame_def fold_apply_entry elim!: bind_SomeE
      split: if_splits sum.splits)

lemma log_frame_progress: "with_progress peer f g = Some g' \<Longrightarrow> log_frame g g'"
  by (auto simp: with_progress_def log_frame_def elim!: bind_SomeE split: option.splits)

lemmas log_frames = log_frame_observe log_frame_vote log_frame_commit log_frame_apply log_frame_progress

lemma log_frame_append_response:
  "handle_append_response p (mem_storage p) g peer i resp = Some g' \<Longrightarrow> log_frame g g'"
  by (auto simp: handle_append_response_def elim!: bind_SomeE split: if_splits
      intro: log_frames log_frame_trans)

lemma log_frame_snapshot_response:
  "handle_snapshot_response p (mem_storage p) g peer i resp = Some g' \<Longrightarrow> log_frame g g'"
  by (auto simp: handle_snapshot_response_def elim!: bind_SomeE split: if_splits
      intro: log_frames log_frame_trans)

subsection \<open>Requests\<close>

definition term_before :: "LogEntry list \<Rightarrow> nat \<Rightarrow> Term" where
  "term_before xs k = (if k = 0 then 0 else le_term (xs ! (k - 1)))"

text \<open>A request that carries entries carries a slice of the log of the leader of its term.\<close>

definition slice_of :: "LogEntry list \<Rightarrow> AppendEntriesRequest \<Rightarrow> bool" where
  "slice_of xs req \<longleftrightarrow> unat (prev_log_index req) \<le> length xs \<and>
     prev_log_term req = term_before xs (unat (prev_log_index req)) \<and>
     prefix (request_entries req) (drop (unat (prev_log_index req)) xs)"

lemma mem_storage_reads [simp]:
  "last_index_or_0 (mem_storage p) m = Some (mem_last_index m)"
  "log_term (mem_storage p) m i = mem_term p m i"
  "log_entries (mem_storage p) m lo hi mx = mem_entries p m lo hi mx"
  "append_entries (mem_storage p) m es = mem_append_entries p m es"
  by (simp_all add: last_index_or_0_def mem_storage_def)

lemma plain_term_or_0:
  assumes "plain_log m" "unat i \<le> length (entries m)"
  shows "term_or_0 (mem_storage p) m i = Some (term_before (entries m) (unat i))"
  using assms plain_term [OF assms(1), of p i]
  by (auto simp: term_or_0_def term_before_def word_neq_0_conv unat_eq_zero)

lemma send_snapshot_plain:
  "plain_log (storage g) \<Longrightarrow> send_snapshot_to (mem_storage p) g peer = Some g"
  by (simp add: send_snapshot_to_def mem_storage_def plain_log_def)


text \<open>What a leader sends: a slice of its log, or, when it believes its peer to be ahead, an empty
  request that no log can accept. An empty slice starts at the end of the log.\<close>

fun leader_request :: "MemStorageInner RaftNodeInner \<Rightarrow> RpcTask \<Rightarrow> bool" where
  "leader_request g (AppendTask to i req) \<longleftrightarrow> ae_term req = current_term (sm g) \<and>
     leader_commit req = commit_index (sm g) \<and>
     unat i = unat (prev_log_index req) + length (ae_entries req) \<and>
     (slice_of (entries (storage g)) req \<and>
        (ae_entries req = [] \<longrightarrow> length (entries (storage g)) \<le> unat (prev_log_index req)) \<or>
      ae_entries req = [] \<and> prev_log_index req \<noteq> 0 \<and> prev_log_term req = 0)"
| "leader_request g _ \<longleftrightarrow> False"

definition sends ::
  "NodeId set \<Rightarrow> MemStorageInner RaftNodeInner \<Rightarrow> MemStorageInner RaftNodeInner \<Rightarrow> bool" where
  "sends ps g g' \<longleftrightarrow> (\<exists>ts. g' = g\<lparr>spawned := spawned g @ ts\<rparr> \<and>
     (\<forall>t \<in> set ts. leader_request g t \<and> task_target t \<in> ps))"

lemma sends_refl [simp]: "sends ps g g"
  by (auto simp: sends_def intro: exI [of _ "[]"])

lemma leader_request_cong [simp]: "leader_request (g\<lparr>spawned := ts\<rparr>) t = leader_request g t"
  by (cases t) simp_all

lemma sends_trans:
  assumes "sends ps g g1" "sends ps g1 g2"
  shows "sends ps g g2"
proof -
  obtain ts us where "g1 = g\<lparr>spawned := spawned g @ ts\<rparr>" "g2 = g1\<lparr>spawned := spawned g1 @ us\<rparr>"
      "\<forall>t \<in> set ts. leader_request g t \<and> task_target t \<in> ps"
      "\<forall>t \<in> set us. leader_request g1 t \<and> task_target t \<in> ps"
    using assms unfolding sends_def by blast
  then show ?thesis
    unfolding sends_def by (intro exI [of _ "ts @ us"]) auto
qed

lemma spawn_append_request:
  assumes "spawn_append Debug g peer prev t (map log_entry_to_proto_entry es) = Some g'"
    and "plain_log (storage g)"
    and "unat prev \<le> length (entries (storage g)) \<and> t = term_before (entries (storage g)) (unat prev) \<and>
        prefix es (drop (unat prev) (entries (storage g))) \<and>
        (es = [] \<longrightarrow> length (entries (storage g)) \<le> unat prev) \<or>
      es = [] \<and> prev \<noteq> 0 \<and> t = 0"
  shows "sends {peer} g g'"
proof -
  let ?req = "\<lparr>ae_term = current_term (sm g), ae_leader_id = cfg_id (config g), prev_log_index = prev,
    prev_log_term = t, ae_entries = map log_entry_to_proto_entry es, leader_commit = commit_index (sm g)\<rparr>"
  obtain i where i: "u64_add Debug prev (of_nat (length es)) = Some i"
    and g': "g' = g\<lparr>spawned := spawned g @ [AppendTask peer i ?req]\<rparr>"
    using assms(1) by (auto simp: spawn_append_def elim!: bind_SomeE)
  have len: "length es < 2 ^ 64"
  proof (cases "es = []")
    case False
    then have "unat prev + length es \<le> length (entries (storage g))"
      using assms(3) False prefix_length_le [of es "drop (unat prev) (entries (storage g))"] by auto
    then show ?thesis using plain_length [OF assms(2)] by simp
  qed simp
  then have "unat i = unat prev + length es"
    using u64_add_Debug_Some [OF i] by (simp add: of_nat_u64)
  moreover have "request_entries ?req = es"
    by (simp add: request_entries_def comp_def)
  then have "slice_of (entries (storage g)) ?req \<and> (es = [] \<longrightarrow> length (entries (storage g)) \<le> unat prev) \<or>
      es = [] \<and> prev \<noteq> 0 \<and> t = 0"
    using assms(3) by (auto simp: slice_of_def)
  ultimately have "leader_request g (AppendTask peer i ?req)"
    by simp
  then show ?thesis
    unfolding sends_def by (intro exI [of _ "[AppendTask peer i ?req]"]) (simp add: g')
qed

lemma replicate_to_sends:
  assumes plain: "plain_log (storage g)"
    and step: "replicate_to Debug (mem_storage Debug) g peer = Some g'"
  shows "sends {peer} g g'"
proof (cases "map_of (progress (sm g)) peer")
  case None
  then show ?thesis using step by (simp add: replicate_to_def)
next
  case (Some pr)
  let ?m = "storage g" and ?next = "next_index pr"
  obtain prev t where prev: "u64_sub Debug ?next 1 = Some prev"
    and t: "term_or_0 (mem_storage Debug) ?m prev = Some t"
    using step Some by (auto simp: replicate_to_def elim!: bind_SomeE)
  have k: "unat prev = unat ?next - 1"
    using u64_sub_Debug_Some [OF prev] by simp
  show ?thesis
  proof (cases "?next \<le> mem_last_index ?m")
    case False
    then have len: "length (entries ?m) \<le> unat prev"
      using k plain_last [OF plain] by (simp add: word_le_nat_alt)
    have "t = term_before (entries ?m) (unat prev) \<and> unat prev \<le> length (entries ?m) \<or> prev \<noteq> 0 \<and> t = 0"
    proof (cases "unat prev \<le> length (entries ?m)")
      case True
      then show ?thesis using t plain_term_or_0 [OF plain True, of Debug] by simp
    next
      case False
      then have "prev \<noteq> 0" by auto
      then show ?thesis
        using t False plain_term [OF plain, of Debug prev] by (simp add: term_or_0_def split: if_splits)
    qed
    then show ?thesis
      using step Some prev t False len
      by (intro spawn_append_request [of g peer prev t "[]", OF _ plain]) (auto simp: replicate_to_def)
  next
    case True
    obtain hi cap r where r: "u64_add Debug (mem_last_index ?m) 1 = Some hi"
        "mem_entries Debug ?m ?next hi (Some cap) = Some r"
      and g': "(case r of Inr es \<Rightarrow> spawn_append Debug g peer prev t (map log_entry_to_proto_entry es)
         | Inl (LogCompacted _ _) \<Rightarrow> send_snapshot_to (mem_storage Debug) g peer
         | Inl _ \<Rightarrow> Some g) = Some g'"
      using step Some prev t True by (auto simp: replicate_to_def elim!: bind_SomeE)
    have b: "unat ?next \<le> length (entries ?m)" "?next < hi"
      using True plain_last [OF plain] u64_add_Debug_Some [OF r(1)]
      by (simp_all add: word_le_nat_alt word_less_nat_alt)
    then have tb: "t = term_before (entries ?m) (unat prev)"
      using t plain_term_or_0 [OF plain, of prev Debug] k by simp
    show ?thesis
    proof (cases r)
      case (Inl e)
      then have "g' = g"
        using g' send_snapshot_plain [OF plain, of Debug peer] by (cases e) auto
      then show ?thesis by simp
    next
      case (Inr es)
      then have "prefix es (drop (unat prev) (entries ?m))" "es \<noteq> []"
        using plain_entries(1,2) [OF plain r(2) [unfolded Inr] b(2)] k by simp_all
      then show ?thesis
        using g' Inr b(1) k tb by (intro spawn_append_request [of g peer prev t es, OF _ plain]) auto
    qed
  qed
qed

lemma sends_mono: "sends ps g g' \<Longrightarrow> ps \<subseteq> qs \<Longrightarrow> sends qs g g'"
  unfolding sends_def by blast

lemma sends_frame:
  "sends ps g g' \<Longrightarrow> storage g' = storage g \<and> sm g' = sm g \<and> config g' = config g \<and>
     applied g' = applied g"
  by (auto simp: sends_def)

lemma replicate_peers_sends:
  assumes "plain_log (storage g)" "replicate_peers Debug (mem_storage Debug) ps g = Some g'"
  shows "sends (set ps) g g'"
  using assms
proof (induction ps arbitrary: g)
  case (Cons x ps)
  then obtain g1 where g1: "replicate_to Debug (mem_storage Debug) g x = Some g1"
      "replicate_peers Debug (mem_storage Debug) ps g1 = Some g'"
    by (auto elim!: bind_SomeE)
  have s: "sends {x} g g1" using Cons.prems(1) g1(1) by (rule replicate_to_sends)
  then have "sends (set ps) g1 g'"
    using Cons.IH [OF _ g1(2)] Cons.prems(1) sends_frame by metis
  then have "sends (set (x # ps)) g1 g'" by (rule sends_mono) auto
  moreover have "sends (set (x # ps)) g g1" using s by (rule sends_mono) simp
  ultimately show ?case using sends_trans by blast
qed simp

lemma replicate_all_sends:
  assumes "plain_log (storage g)" "replicate_all Debug (mem_storage Debug) g = Some g'"
  shows "sends (set (peers (config g))) g g'"
  using assms replicate_peers_sends by (auto simp: replicate_all_def split: if_splits)

subsection \<open>What the operations do\<close>

text \<open>Only the state machine, the hard state and the metrics differ.\<close>

definition keeps :: "MemStorageInner RaftNodeInner \<Rightarrow> MemStorageInner RaftNodeInner \<Rightarrow> bool" where
  "keeps g g' \<longleftrightarrow> entries (storage g') = entries (storage g) \<and>
     snapshot (storage g') = snapshot (storage g) \<and> config g' = config g \<and>
     spawned g' = spawned g \<and> applied g' = applied g"

text \<open>The state is the same up to the leader and the applied index, or a higher term has been seen.\<close>

definition steady :: "MemStorageInner RaftNodeInner \<Rightarrow> MemStorageInner RaftNodeInner \<Rightarrow> bool" where
  "steady g g' \<longleftrightarrow> keeps g g' \<and> commit_index (sm g') = commit_index (sm g) \<and>
     (current_term (sm g') = current_term (sm g) \<and> voted_for (sm g') = voted_for (sm g) \<and>
        role (sm g') = role (sm g) \<and> votes_received (sm g') = votes_received (sm g) \<and>
        progress (sm g') = progress (sm g) \<or>
      current_term (sm g) < current_term (sm g') \<and> role (sm g') = Follower)"

lemma keeps_refl [simp]: "keeps g g"
  by (simp add: keeps_def)

lemma keeps_trans: "keeps a b \<Longrightarrow> keeps b c \<Longrightarrow> keeps a c"
  by (simp add: keeps_def)

lemma keeps_simps [simp]:
  "keeps g (g\<lparr>sm := s\<rparr>)" "keeps g (g\<lparr>metrics := m\<rparr>)" "keeps g (g\<lparr>pending := ps\<rparr>)"
  "keeps g (g\<lparr>sent := xs\<rparr>)" "keeps g (g\<lparr>snapshot_buf := b\<rparr>)"
  "keeps g (upd_sm f g)" "keeps g (upd_metrics h g)"
  by (simp_all add: keeps_def)

lemma steady_refl [simp]: "steady g g"
  by (simp add: steady_def)

lemma steady_keeps: "steady g g' \<Longrightarrow> keeps g g'"
  by (simp add: steady_def)

lemma keeps_save:
  "node_save_hard_state (mem_storage p) g = Some g' \<Longrightarrow> keeps g g' \<and> sm g' = sm g"
  by (auto simp: node_save_hard_state_def mem_storage_def mem_save_hard_state_def keeps_def)

lemma observe_steady:
  assumes "observe_term (mem_storage p) t l g = Some g'"
  shows "steady g g'" "t \<le> current_term (sm g')"
  using assms keeps_save
  by (auto simp: observe_term_def steady_def keeps_def become_follower_def split: if_splits
      dest!: keeps_save)

lemma plain_keeps: "keeps g g' \<Longrightarrow> plain_log (storage g') = plain_log (storage g)"
  by (simp add: keeps_def plain_log_def)

text \<open>The comparison of logs in an election: by the last term, then by the length.\<close>

definition up_to_date :: "LogEntry list \<Rightarrow> Term \<Rightarrow> nat \<Rightarrow> bool" where
  "up_to_date xs t i \<longleftrightarrow> term_before xs (length xs) < t \<or>
     term_before xs (length xs) = t \<and> length xs \<le> i"

lemma vote_outcome:
  assumes plain: "plain_log (storage g)"
    and step: "on_request_vote (mem_storage p) g req = Some (g', r)"
  obtains (denied) g1 resp where "steady g g1" "rv_term req \<le> current_term (sm g1)" "g' = g1"
      "r = Inr resp" "\<not> vote_granted resp"
  | (granted) g1 resp where "steady g g1" "rv_term req = current_term (sm g1)" "keeps g1 g'"
      "r = Inr resp" "rvr_term resp = rv_term req"
      "voted_for (sm g1) \<in> {None, Some (candidate_id req)}"
      "sm g' = (sm g1)\<lparr>voted_for := Some (candidate_id req)\<rparr>"
      "up_to_date (entries (storage g1)) (last_log_term req) (unat (last_log_index req))"
proof -
  obtain g1 where g1: "observe_term (mem_storage p) (rv_term req) None g = Some g1"
    using step by (auto simp: on_request_vote_def elim!: bind_SomeE)
  note st = observe_steady [OF g1]
  have p1: "plain_log (storage g1)"
    using plain plain_keeps [OF steady_keeps [OF st(1)]] by simp
  let ?m = "storage g1"
  have last: "unat (mem_last_index ?m) = length (entries ?m)" using p1 by (rule plain_last)
  then have t: "term_or_0 (mem_storage p) ?m (mem_last_index ?m) =
      Some (term_before (entries ?m) (length (entries ?m)))"
    using plain_term_or_0 [OF p1, of "mem_last_index ?m" p] by simp
  consider "\<exists>resp. g' = g1 \<and> r = Inr resp \<and> \<not> vote_granted resp"
    | g2 where "node_save_hard_state (mem_storage p)
          (upd_sm (\<lambda>s. s\<lparr>voted_for := Some (candidate_id req)\<rparr>) g1) = Some g2"
      "g' = upd_metrics (\<lambda>m. m\<lparr>votes_granted := votes_granted m + 1\<rparr>) g2"
      "r = Inr \<lparr>rvr_term = current_term (sm g2), vote_granted = True\<rparr>"
      "\<not> rv_term req < current_term (sm g1)" "voted_for (sm g1) \<in> {None, Some (candidate_id req)}"
      "term_before (entries ?m) (length (entries ?m)) < last_log_term req \<or>
       last_log_term req = term_before (entries ?m) (length (entries ?m)) \<and>
       mem_last_index ?m \<le> last_log_index req"
    using step g1 t
    by (auto simp: on_request_vote_def Let_def elim!: bind_SomeE split: if_splits option.splits)
  then show ?thesis
  proof cases
    case 1
    then show ?thesis using denied st by blast
  next
    case (2 g2)
    have s: "keeps g1 g2" "sm g2 = (sm g1)\<lparr>voted_for := Some (candidate_id req)\<rparr>"
      using keeps_save [OF 2(1)] by (auto simp: keeps_def)
    then have "keeps g1 g'" "sm g' = sm g2"
      using 2(2) by (auto simp: keeps_def)
    moreover have "rv_term req = current_term (sm g1)" using st(2) 2(4) by simp
    moreover have "up_to_date (entries ?m) (last_log_term req) (unat (last_log_index req))"
      using 2(6) last by (auto simp: up_to_date_def word_le_nat_alt)
    ultimately show ?thesis
      using granted [of g1] st(1) 2(3,5) s(2) by simp
  qed
qed

text \<open>The consistency check on a log without snapshots.\<close>

lemma plain_check_prev:
  assumes "plain_log (storage g)" "check_prev p (mem_storage p) g req = Some None"
  shows "unat (prev_log_index req) \<le> length (entries (storage g))"
    and "prev_log_index req = 0 \<or>
      prev_log_term req = term_before (entries (storage g)) (unat (prev_log_index req))"
  using assms plain_term [OF assms(1), of p "prev_log_index req"]
  by (auto simp: check_prev_def term_before_def unat_eq_zero word_gt_0 elim!: bind_SomeE split: if_splits)

lemma check_prev_fails: "check_prev p S g req = Some (Some resp) \<Longrightarrow> \<not> success resp"
  by (auto simp: check_prev_def reject_def elim!: bind_SomeE split: if_splits sum.splits RaftError.splits)

text \<open>A request that is taken: the log, and the commit index that follows the leader's.\<close>

definition takes ::
  "profile \<Rightarrow> AppendEntriesRequest \<Rightarrow> MemStorageInner RaftNodeInner \<Rightarrow> MemStorageInner RaftNodeInner \<Rightarrow>
   bool" where
  "takes p req g g' \<longleftrightarrow>
     (if ae_entries req = [] then entries (storage g') = entries (storage g)
      else \<exists>m r. mem_append_entries p (storage g) (request_entries req) = Some (m, r) \<and>
        entries (storage g') = entries m) \<and>
     snapshot (storage g') = snapshot (storage g) \<and> config g' = config g \<and>
     spawned g' = spawned g \<and> applied g' = applied g \<and>
     sm g' = (sm g)\<lparr>commit_index := (if commit_index (sm g) < leader_commit req
       then min (leader_commit req) (mem_last_index (storage g')) else commit_index (sm g))\<rparr>"

lemma mem_append_frame:
  "mem_append_entries p m es = Some (m', r) \<Longrightarrow> snapshot m' = snapshot m \<and> r = Inr ()"
  by (auto simp: mem_append_entries_def Let_def elim!: bind_SomeE split: if_splits)

lemma mem_last_index_cong:
  "entries m = entries m' \<Longrightarrow> snapshot m = snapshot m' \<Longrightarrow> mem_last_index m = mem_last_index m'"
  by (simp add: mem_last_index_def)

lemma accept_takes:
  assumes "accept_entries (mem_storage p) g req = Some (g', r)"
  shows "takes p req g g' \<and>
    (\<exists>resp. r = Inr resp \<and> success resp \<and> aer_term resp = current_term (sm g))"
proof -
  have "(if ae_entries req \<noteq> [] then mem_append_entries p (storage g) (request_entries req)
      else Some (storage g, Inr ())) \<bind> (\<lambda>(m, q). case q of
        Inl e \<Rightarrow> Some (g\<lparr>storage := m\<rparr>, Inl e)
      | Inr _ \<Rightarrow> (if commit_index (sm g) < leader_commit req then
          node_save_hard_state (mem_storage p)
            (upd_sm (\<lambda>s. s\<lparr>commit_index := min (leader_commit req) (mem_last_index m)\<rparr>) (g\<lparr>storage := m\<rparr>))
        else Some (g\<lparr>storage := m\<rparr>)) \<bind> (\<lambda>g'. Some (upd_metrics
            (\<lambda>m. m\<lparr>append_entries_received := append_entries_received m + 1\<rparr>) g',
          Inr \<lparr>aer_term = current_term (sm g'), success = True, conflict_index = 0, conflict_term = 0\<rparr>))) =
      Some (g', r)"
    using assms unfolding request_entries_def
    by (simp only: accept_entries_def mem_storage_reads Option.bind.bind_lunit)
  then obtain m q where mq: "(if ae_entries req \<noteq> [] then
        mem_append_entries p (storage g) (request_entries req) else Some (storage g, Inr ())) = Some (m, q)"
    and rest: "(case q of Inl e \<Rightarrow> Some (g\<lparr>storage := m\<rparr>, Inl e)
      | Inr _ \<Rightarrow> (if commit_index (sm g) < leader_commit req then
          node_save_hard_state (mem_storage p)
            (upd_sm (\<lambda>s. s\<lparr>commit_index := min (leader_commit req) (mem_last_index m)\<rparr>) (g\<lparr>storage := m\<rparr>))
        else Some (g\<lparr>storage := m\<rparr>)) \<bind> (\<lambda>g'. Some (upd_metrics
            (\<lambda>m. m\<lparr>append_entries_received := append_entries_received m + 1\<rparr>) g',
          Inr \<lparr>aer_term = current_term (sm g'), success = True, conflict_index = 0, conflict_term = 0\<rparr>))) =
      Some (g', r)"
    by (rule bind_SomeE) (simp split: prod.splits)
  have q: "q = Inr ()"
    using mq by (auto split: if_splits dest: mem_append_frame)
  note g' = rest [unfolded q, simplified sum.case]
  have m: "if ae_entries req = [] then m = storage g
      else mem_append_entries p (storage g) (request_entries req) = Some (m, Inr ())"
    using mq q by (simp split: if_splits)
  have s: "snapshot m = snapshot (storage g)"
    using m by (auto split: if_splits dest: mem_append_frame)
  show ?thesis
  proof (cases "commit_index (sm g) < leader_commit req")
    case True
    then obtain g1 where g1: "node_save_hard_state (mem_storage p) (upd_sm (\<lambda>s. s\<lparr>commit_index :=
          min (leader_commit req) (mem_last_index m)\<rparr>) (g\<lparr>storage := m\<rparr>)) = Some g1"
      and g'': "storage g' = storage g1" "sm g' = sm g1" "config g' = config g1" "spawned g' = spawned g1"
        "applied g' = applied g1"
      and r: "\<exists>resp. r = Inr resp \<and> success resp \<and> aer_term resp = current_term (sm g1)"
      using g' by (auto elim!: bind_SomeE)
    have e: "entries (storage g') = entries m" "snapshot (storage g') = snapshot m"
      using keeps_save [OF g1] g''(1) by (auto simp: keeps_def)
    show ?thesis
      using keeps_save [OF g1] g'' True m s r mem_last_index_cong [OF e]
      by (auto simp: takes_def keeps_def split: if_splits)
  next
    case False
    then show ?thesis using g' m s by (auto simp: takes_def split: if_splits)
  qed
qed

lemma append_outcome:
  assumes step: "on_append_entries p (mem_storage p) g req = Some (g', r)"
  obtains (refused) resp where "steady g g'" "r = Inr resp" "\<not> success resp"
  | (taken) g1 resp where "steady g g1" "current_term (sm g1) = ae_term req"
      "check_prev p (mem_storage p) g1 req = Some None" "takes p req g1 g'"
      "r = Inr resp" "aer_term resp = ae_term req"
proof -
  obtain g1 where g1: "observe_term (mem_storage p) (ae_term req) (Some (ae_leader_id req)) g = Some g1"
    using step by (auto simp: on_append_entries_def elim!: bind_SomeE)
  define g2 where "g2 = upd_sm (\<lambda>s. s\<lparr>leader_id := Some (ae_leader_id req)\<rparr>) g1"
  note st = observe_steady [OF g1]
  have st2: "steady g g2"
    using st(1) by (auto simp: steady_def keeps_def g2_def)
  show ?thesis
  proof (cases "ae_term req < current_term (sm g1)")
    case True
    then have "Some (g1, Inr (reject 0 0 (current_term (sm g1)))) = Some (g', r)"
      using step g1 by (simp only: on_append_entries_def Option.bind.bind_lunit if_True)
    then have "g' = g1" "r = Inr (reject 0 0 (current_term (sm g1)))"
      by auto
    then show ?thesis
      using st(1) refused [of "reject 0 0 (current_term (sm g1))"] by (simp add: reject_def)
  next
    case False
    then have t: "current_term (sm g2) = ae_term req"
      using st(2) by (simp add: g2_def)
    have "check_prev p (mem_storage p) g2 req \<bind> (\<lambda>rej. case rej of Some resp \<Rightarrow> Some (g2, Inr resp)
        | None \<Rightarrow> accept_entries (mem_storage p) g2 req) = Some (g', r)"
      using step g1 False unfolding g2_def by (simp add: on_append_entries_def Let_def)
    then obtain rej where rej: "check_prev p (mem_storage p) g2 req = Some rej"
      and g': "(case rej of Some resp \<Rightarrow> Some (g2, Inr resp) | None \<Rightarrow> accept_entries (mem_storage p) g2 req) =
        Some (g', r)"
      by (rule bind_SomeE)
    show ?thesis
    proof (cases rej)
      case None
      then show ?thesis
        using g' accept_takes [of p g2 req g' r] taken [OF st2 t] rej t by auto
    next
      case (Some resp)
      then show ?thesis
        using g' refused [OF _ _ check_prev_fails [OF rej [unfolded Some]]] st2 by simp
    qed
  qed
qed

text \<open>Winning an election: a leader with the same log, which knows of no matching entries.\<close>

lemma set_alist_update: "(x, q) \<in> set (AList.update k v al) \<Longrightarrow> (x, q) = (k, v) \<or> (x, q) \<in> set al"
  by (induction al) (auto split: if_splits)

lemma insert_progress_fresh:
  assumes "insert_progress p l ps acc = Some pr" "\<forall>(x, q) \<in> set acc. match_index q = 0"
  shows "\<forall>(x, q) \<in> set pr. match_index q = 0"
  using assms
proof (induction p l ps acc rule: insert_progress.induct)
  case (2 p l peer ps acc)
  then obtain n where n: "u64_add p l 1 = Some n"
      "insert_progress p l ps (AList.update peer (progress_new n) acc) = Some pr"
    by (auto elim!: bind_SomeE)
  have "\<forall>(x, q) \<in> set (AList.update peer (progress_new n) acc). match_index q = 0"
    using 2(3) by (auto simp: progress_new_def dest!: set_alist_update)
  then show ?case using "2.IH" n by blast
qed simp

lemma win_outcome:
  assumes plain: "plain_log (storage g)"
    and step: "win_election Debug (mem_storage Debug) g = Some g'"
  obtains g1 where "keeps g g1" "role (sm g1) = Leader" "current_term (sm g1) = current_term (sm g)"
    "voted_for (sm g1) = voted_for (sm g)" "votes_received (sm g1) = votes_received (sm g)"
    "commit_index (sm g1) = commit_index (sm g)" "\<forall>(x, q) \<in> set (progress (sm g1)). match_index q = 0"
    "sends (set (peers (config g))) g1 g'"
proof -
  obtain s f where s: "become_leader Debug (cfg_id (config g)) (mem_last_index (storage g))
      (peers (config g)) (sm g) = Some s"
    and g': "replicate_all Debug (mem_storage Debug) (metrics_update f (g\<lparr>sm := s\<rparr>)) = Some g'"
    using step by (auto simp: win_election_def elim!: bind_SomeE)
  let ?g1 = "metrics_update f (g\<lparr>sm := s\<rparr>)"
  have "sends (set (peers (config g))) ?g1 g'"
    using replicate_all_sends [OF _ g'] plain by simp
  moreover have "keeps g ?g1" by (simp add: keeps_def)
  ultimately show ?thesis
    using s that [of ?g1] insert_progress_fresh [of Debug "mem_last_index (storage g)" "peers (config g)" "[]"]
    by (auto simp: become_leader_def elim!: bind_SomeE)
qed

lemma candidate_outcome:
  assumes plain: "plain_log (storage g)"
    and step: "start_election Debug (mem_storage Debug) g = Some g'"
  obtains g2 req where "entries (storage g2) = entries (storage g)" "snapshot (storage g2) = snapshot (storage g)"
    "config g2 = config g" "applied g2 = applied g"
    "spawned g2 = spawned g @ map (\<lambda>peer. VoteTask peer req) (peers (config g))"
    "current_term (sm g) < current_term (sm g2)" "role (sm g2) = Candidate"
    "voted_for (sm g2) = Some (cfg_id (config g))" "votes_received (sm g2) = {cfg_id (config g)}"
    "commit_index (sm g2) = commit_index (sm g)"
    "rv_term req = current_term (sm g2)" "candidate_id req = cfg_id (config g)"
    "unat (last_log_index req) = length (entries (storage g))"
    "last_log_term req = term_before (entries (storage g)) (length (entries (storage g)))"
    "g' = g2 \<or> win_election Debug (mem_storage Debug) g2 = Some g'"
proof -
  obtain s g1 where s: "become_candidate Debug (cfg_id (config g)) (sm g) = Some s"
    and g1: "node_save_hard_state (mem_storage Debug) (g\<lparr>sm := s\<rparr>) = Some g1"
    using step by (auto simp: start_election_def elim!: bind_SomeE)
  have t: "current_term (sm g) < current_term s" "role s = Candidate" "voted_for s = Some (cfg_id (config g))"
      "votes_received s = {cfg_id (config g)}" "commit_index s = commit_index (sm g)"
    using s u64_add_one_greater [of Debug "current_term (sm g)"]
    by (auto simp: become_candidate_def elim!: bind_SomeE)
  have k: "keeps (g\<lparr>sm := s\<rparr>) g1" "sm g1 = s"
    using keeps_save [OF g1] by simp_all
  then have p1: "plain_log (storage g1)" and ents: "entries (storage g1) = entries (storage g)"
    using plain plain_keeps [OF k(1)] by (simp_all add: keeps_def)
  let ?last = "mem_last_index (storage g1)"
  have last: "unat ?last = length (entries (storage g))"
    using plain_last [OF p1] ents by simp
  then have tb: "term_or_0 (mem_storage Debug) (storage g1) ?last =
      Some (term_before (entries (storage g)) (length (entries (storage g))))"
    using plain_term_or_0 [OF p1, of ?last Debug] ents by simp
  define req where "req = \<lparr>rv_term = current_term (sm g1), candidate_id = cfg_id (config g1),
    last_log_index = ?last,
    last_log_term = term_before (entries (storage g)) (length (entries (storage g))), pre_vote = False\<rparr>"
  define g2 where g2: "g2 = (metrics_update (\<lambda>m. m\<lparr>elections_started := elections_started m + 1\<rparr>) g1)\<lparr>
    spawned := spawned g1 @ map (\<lambda>peer. VoteTask peer req) (peers (config g1))\<rparr>"
  have "(if quorum (config g2) \<le> card (votes_received (sm g2)) \<and> role (sm g2) = Candidate
      then win_election Debug (mem_storage Debug) g2 else Some g2) = Some g'"
    using step s g1 tb unfolding g2 req_def by (simp add: start_election_def Let_def)
  then have "g' = g2 \<or> win_election Debug (mem_storage Debug) g2 = Some g'"
    by (metis option.inject)
  then show ?thesis
    using that [of g2 req] k t last by (simp add: g2 req_def keeps_def)
qed

lemma vote_response_cases:
  assumes "handle_vote_response Debug (mem_storage Debug) g peer resp = Some g'"
  obtains (quiet) "steady g g'"
  | (counted) g1 where "keeps g g1" "sm g1 = (sm g)\<lparr>votes_received := insert peer (votes_received (sm g))\<rparr>"
      "role (sm g) = Candidate" "vote_granted resp" "rvr_term resp \<le> current_term (sm g)"
      "g' = g1 \<or> win_election Debug (mem_storage Debug) g1 = Some g'"
proof -
  define g1 where "g1 = upd_sm (\<lambda>s. s\<lparr>votes_received := insert peer (votes_received s)\<rparr>) g"
  have "(if current_term (sm g) < rvr_term resp then observe_term (mem_storage Debug) (rvr_term resp) None g
      else if vote_granted resp \<and> role (sm g) = Candidate
      then (if quorum (config g1) \<le> card (votes_received (sm g1))
        then win_election Debug (mem_storage Debug) g1 else Some g1)
      else Some g) = Some g'"
    using assms unfolding handle_vote_response_def Let_def g1_def .
  then consider "observe_term (mem_storage Debug) (rvr_term resp) None g = Some g'" | "g' = g"
    | "role (sm g) = Candidate" "vote_granted resp" "rvr_term resp \<le> current_term (sm g)"
      "g' = g1 \<or> win_election Debug (mem_storage Debug) g1 = Some g'"
    by (metis not_less option.inject)
  then show ?thesis
  proof cases
    case 1
    then show ?thesis using quiet observe_steady(1) by blast
  next
    case 3
    then show ?thesis using counted [of g1] by (simp add: g1_def)
  qed (use quiet in simp)
qed

text \<open>A proposal: only a leader appends, one entry of its term at the end of its log.\<close>

lemma proposal_cases:
  assumes plain: "plain_log (storage g)"
    and step: "on_proposal Debug (mem_storage Debug) g pr = Some g'"
  obtains (quiet) "steady g g'"
  | (appended) g1 e where "role (sm g) = Leader" "entries (storage g1) = entries (storage g) @ [e]"
      "snapshot (storage g1) = None" "le_term e = current_term (sm g)"
      "unat (le_index e) = Suc (length (entries (storage g)))"
      "sm g1 = sm g" "config g1 = config g" "spawned g1 = spawned g" "applied g1 = applied g"
      "sends (set (peers (config g))) g1 g'"
proof (cases "role (sm g) = Leader")
  case False
  then have "steady g g'"
    using step by (auto simp: on_proposal_def send_opt_def steady_def split: option.splits)
  then show ?thesis by (rule quiet)
next
  case True
  let ?m = "storage g"
  obtain i where i: "u64_add Debug (mem_last_index ?m) 1 = Some i"
    using step True by (auto simp: on_proposal_def elim!: bind_SomeE)
  define e where "e = \<lparr>le_term = current_term (sm g), le_index = i, le_data = prop_data pr, le_type = Normal\<rparr>"
  have idx: "unat (le_index e) = Suc (length (entries ?m))"
    using u64_add_Debug_Some [OF i] plain_last [OF plain] by (simp add: e_def)
  obtain m' r where m': "mem_append_entries Debug ?m [e] = Some (m', r)"
    using step True i by (auto simp: on_proposal_def e_def elim!: bind_SomeE)
  have ents: "entries m' = entries ?m @ [e]" "snapshot m' = None"
    using plain_append [OF plain m', of "length (entries ?m)"] idx by simp_all
  have "r = Inr ()"
    using mem_append_frame [OF m'] by simp
  then obtain g1 where g1: "replicate_all Debug (mem_storage Debug) g1 = Some g'"
      "storage g1 = m'" "sm g1 = sm g" "config g1 = config g" "spawned g1 = spawned g" "applied g1 = applied g"
    using step True i m' that by (cases "prop_tx pr") (auto simp: on_proposal_def e_def)
  have "plain_log m'"
    using plain ents idx by (simp add: plain_log_def contiguous_append) (simp add: contiguous_def)
  then have "sends (set (peers (config g))) g1 g'"
    using replicate_all_sends [OF _ g1(1)] g1(2,4) by simp
  then show ?thesis
    using appended [OF True, of g1 e] ents g1 idx by (simp add: e_def)
qed

subsection \<open>Committing and applying\<close>

lemma commit_scan_result:
  "commit_scan S st pr q t commit n = Some c \<Longrightarrow>
   c = commit \<or> commit < c \<and> c \<le> n \<and> q \<le> replicated pr c \<and>
     (\<exists>r. log_term S st c = Some r \<and> unwrap_or r 0 = t)"
proof (induction S st pr q t commit n rule: commit_scan.induct)
  case (1 S st pr q t commit n)
  show ?case
  proof (cases "commit < n")
    case False
    then show ?thesis using "1.prems" by (simp add: commit_scan_unfold)
  next
    case True
    obtain r where r: "log_term S st n = Some r"
      using "1.prems" True by (subst (asm) commit_scan_unfold) (auto elim!: bind_SomeE)
    have le: "n - 1 \<le> n"
      using u64_pred [OF True, of Debug] by (simp add: word_le_nat_alt)
    show ?thesis
    proof (cases "unwrap_or r 0 = t \<and> q \<le> scan_replicated pr n")
      case True
      then show ?thesis
        using "1.prems" \<open>commit < n\<close> r by (subst (asm) commit_scan_unfold) auto
    next
      case False
      then have "commit_scan S st pr q t commit (n - 1) = Some c"
        using "1.prems" \<open>commit < n\<close> r by (subst (asm) commit_scan_unfold) auto
      then show ?thesis
        using "1.IH" [OF True r False] le by (auto intro: order.trans)
    qed
  qed
qed

text \<open>The commit index of a leader moves to an entry of its own term that a quorum is known to hold.\<close>

lemma commit_outcome:
  assumes plain: "plain_log (storage g)" and pos: "current_term (sm g) \<noteq> 0"
    and step: "maybe_advance_commit Debug (mem_storage Debug) g = Some g'"
  obtains (same) "steady g g'"
  | (advanced) N where "keeps g g'" "sm g' = (sm g)\<lparr>commit_index := N\<rparr>" "role (sm g) = Leader"
      "commit_index (sm g) < N" "unat N \<le> length (entries (storage g))"
      "le_term (entries (storage g) ! (unat N - 1)) = current_term (sm g)"
      "quorum (config g) \<le> replicated (progress (sm g)) N"
proof (cases "role (sm g) = Leader")
  case False
  then show ?thesis using step same by (simp add: maybe_advance_commit_def)
next
  case True
  obtain N where N: "commit_scan (mem_storage Debug) (storage g) (progress (sm g)) (quorum (config g))
      (current_term (sm g)) (commit_index (sm g)) (mem_last_index (storage g)) = Some N"
    using step True by (auto simp: maybe_advance_commit_def elim!: bind_SomeE)
  show ?thesis
  proof (cases "commit_index (sm g) < N")
    case False
    then have "g' = notify_pending g"
      using step True N by (simp add: maybe_advance_commit_def)
    then have "steady g g'" by (simp add: steady_def keeps_def notify_pending_def Let_def)
    then show ?thesis by (rule same)
  next
    case adv: True
    obtain g1 f where "node_save_hard_state (mem_storage Debug) (upd_sm (\<lambda>s. s\<lparr>commit_index := N\<rparr>) g) = Some g1"
        "g' = notify_pending (upd_metrics f g1)"
      using step True N adv by (auto simp: maybe_advance_commit_def elim!: bind_SomeE)
    then have g': "keeps g g'" "sm g' = (sm g)\<lparr>commit_index := N\<rparr>"
      by (auto simp: keeps_def notify_pending_def Let_def dest!: keeps_save)
    have r: "N \<le> mem_last_index (storage g)" "quorum (config g) \<le> replicated (progress (sm g)) N"
        "\<exists>r. mem_term Debug (storage g) N = Some r \<and> unwrap_or r 0 = current_term (sm g)"
      using commit_scan_result [OF N] adv by auto
    then have len: "unat N \<le> length (entries (storage g))"
      using plain_last [OF plain] by (simp add: word_le_nat_alt)
    have "N \<noteq> 0" using adv by auto
    then have "le_term (entries (storage g) ! (unat N - 1)) = current_term (sm g)"
      using r(3) plain_term [OF plain, of Debug N] len by simp
    then show ?thesis using advanced g' True adv len r(2) by blast
  qed
qed

lemma apply_outcome:
  assumes plain: "plain_log (storage g)"
    and step: "apply_committed Debug (mem_storage Debug) g = Some g'"
  obtains es where "steady (g\<lparr>applied := applied g @ es\<rparr>) g'"
    "\<forall>e \<in> set es. \<exists>k < unat (commit_index (sm g)). k < length (entries (storage g)) \<and> e = entries (storage g) ! k"
proof -
  obtain from_idx where from_idx: "u64_add Debug (last_applied (sm g)) 1 = Some from_idx"
    using step by (auto simp: apply_committed_def elim!: bind_SomeE)
  show ?thesis
  proof (cases "commit_index (sm g) < from_idx")
    case True
    then show ?thesis using step from_idx that [of "[]"] by (simp add: apply_committed_def)
  next
    case False
    obtain hi r where hi: "u64_add Debug (commit_index (sm g)) 1 = Some hi"
      and r: "mem_entries Debug (storage g) from_idx hi None = Some r"
      and g': "(case r of Inr es \<Rightarrow> Some (fold apply_entry es g) | Inl _ \<Rightarrow> Some g) = Some g'"
      using step from_idx False by (auto simp: apply_committed_def elim!: bind_SomeE)
    show ?thesis
    proof (cases r)
      case (Inl e)
      then show ?thesis using g' that [of "[]"] by simp
    next
      case (Inr es)
      have lt: "from_idx < hi"
        using u64_add_Debug_Some [OF hi] False by (simp add: word_less_nat_alt)
      note es = plain_entries [OF plain r [unfolded Inr] lt]
      have "\<exists>k < unat (commit_index (sm g)). k < length (entries (storage g)) \<and> e = entries (storage g) ! k"
        if e: "e \<in> set es" for e
      proof -
        obtain j where j: "j < length es" "e = es ! j"
          using e by (auto simp: in_set_conv_nth)
        have d: "j < length (drop (unat from_idx - 1) (entries (storage g)))"
            "es ! j = drop (unat from_idx - 1) (entries (storage g)) ! j"
          using es(1) j(1) prefix_length_le [OF es(1)] by (auto simp: prefix_def nth_append simp del: length_drop)
        then have "e = entries (storage g) ! (unat from_idx - 1 + j)" "unat from_idx - 1 + j < length (entries (storage g))"
          using j by auto
        moreover have "unat from_idx - 1 + j < unat (commit_index (sm g))"
          using j(1) es(3,4) u64_add_Debug_Some [OF hi] by simp
        ultimately show ?thesis by blast
      qed
      moreover have "steady (g\<lparr>applied := applied g @ es\<rparr>) g'"
        using g' Inr by (auto simp: fold_apply_entry steady_def keeps_def)
      ultimately show ?thesis using that by blast
    qed
  qed
qed

text \<open>A response: the progress of the peer, and what that commits.\<close>

lemma append_response_cases:
  assumes "handle_append_response Debug (mem_storage Debug) g peer i resp = Some g'"
  obtains (quiet) "steady g g'"
  | (counted) g1 prs where "role (sm g) = Leader" "aer_term resp \<le> current_term (sm g)"
      "keeps g g1" "sm g1 = (sm g)\<lparr>progress := prs\<rparr>"
      "\<forall>(x, q) \<in> set prs. (x, q) \<in> set (progress (sm g)) \<or>
         x = peer \<and> (\<exists>q'. (x, q') \<in> set (progress (sm g)) \<and> match_index q =
           (if success resp then max (match_index q') i else match_index q'))"
      "maybe_advance_commit Debug (mem_storage Debug) g1 = Some g'"
proof -
  consider "current_term (sm g) < aer_term resp" | "\<not> current_term (sm g) < aer_term resp" "role (sm g) \<noteq> Leader"
    | "\<not> current_term (sm g) < aer_term resp" "role (sm g) = Leader"
    by blast
  then show ?thesis
  proof cases
    case 1
    then show ?thesis
      using assms quiet observe_steady(1) [of Debug "aer_term resp" None g g']
      by (simp add: handle_append_response_def)
  next
    case 2
    then have "g' = g" using assms by (simp add: handle_append_response_def)
    then show ?thesis using quiet by simp
  next
    case 3
    then obtain g1 where g1: "with_progress peer (progress_on_append Debug i resp) g = Some g1"
      and g': "maybe_advance_commit Debug (mem_storage Debug) g1 = Some g'"
      using assms by (auto simp: handle_append_response_def elim: bind_SomeE)
    have t: "aer_term resp \<le> current_term (sm g)" using 3(1) by simp
    show ?thesis
    proof (cases "map_of (progress (sm g)) peer")
      case None
      then have "g1 = g" using g1 by (simp add: with_progress_def)
      then show ?thesis
        using g' by (intro counted [OF 3(2) t, of g "progress (sm g)"]) auto
    next
      case (Some q0)
      then obtain q1 where q1: "progress_on_append Debug i resp q0 = Some q1"
          "g1 = upd_sm (\<lambda>s. s\<lparr>progress := AList.update peer q1 (progress s)\<rparr>) g"
        using g1 by (auto simp: with_progress_def elim!: bind_SomeE)
      have m: "match_index q1 = (if success resp then max (match_index q0) i else match_index q0)"
        using q1(1) by (auto simp: progress_on_append_def progress_on_success_def Let_def
            elim!: bind_SomeE split: if_splits)
      have "(peer, q0) \<in> set (progress (sm g))" using Some by (rule map_of_SomeD)
      then have "\<forall>(x, q) \<in> set (AList.update peer q1 (progress (sm g))). (x, q) \<in> set (progress (sm g)) \<or>
         x = peer \<and> (\<exists>q'. (x, q') \<in> set (progress (sm g)) \<and> match_index q =
           (if success resp then max (match_index q') i else match_index q'))"
        using m by (auto dest!: set_alist_update)
      then show ?thesis
        using g' q1(2) by (intro counted [OF 3(2) t, of g1 "AList.update peer q1 (progress (sm g))"]) simp_all
    qed
  qed
qed

text \<open>A node that starts on the store it wrote.\<close>

lemma restart_outcome:
  assumes "synced hard_state g" "boot (mem_storage Debug) (config g) (storage g) now j = Some r"
  shows "storage (inner r) = storage g" "config (inner r) = config g" "spawned (inner r) = []"
    "applied (inner r) = []" "role (sm (inner r)) = Follower"
    "current_term (sm (inner r)) = current_term (sm g)"
    "commit_index (sm (inner r)) = commit_index (sm g)" "rx r = []"
    "voted_for (sm g) \<noteq> Some 0 \<Longrightarrow> voted_for (sm (inner r)) = voted_for (sm g)"
proof -
  have r: "restore (mem_storage Debug) (node_new (config g) (storage g)) = Some (inner r)" "rx r = []"
    using assms(2) by (auto dest: start_facts)
  then have i: "inner r = upd_sm (\<lambda>s. s\<lparr>current_term := hs_term (hard_state (storage g)),
      voted_for := (if hs_vote (hard_state (storage g)) = 0 then None
        else Some (hs_vote (hard_state (storage g)))),
      commit_index := hs_commit (hard_state (storage g)),
      last_applied := hs_commit (hard_state (storage g))\<rparr>) (node_new (config g) (storage g))"
    by (simp add: restore_def mem_storage_def node_new_def)
  show "storage (inner r) = storage g" "config (inner r) = config g" "spawned (inner r) = []"
    "applied (inner r) = []" "role (sm (inner r)) = Follower"
    "current_term (sm (inner r)) = current_term (sm g)"
    "commit_index (sm (inner r)) = commit_index (sm g)" "rx r = []"
    using assms(1) i r(2) by (simp_all add: node_new_def sm_new_def synced_def hard_state_of_def)
  show "voted_for (sm (inner r)) = voted_for (sm g)" if "voted_for (sm g) \<noteq> Some 0"
    using assms(1) i that
    by (auto simp: node_new_def sm_new_def synced_def hard_state_of_def split: option.splits)
qed

end
