(* ===== verification/Cluster_Logs.thy ===== *)
theory Cluster_Logs
  imports Plain_Node
begin

text \<open>
  The logs of a whole cluster. A history assigns to every term the log its leader has written so
  far (\<open>L\<close>) and the leader (\<open>led\<close>); the invariant says that every entry of term \<open>t\<close>, in any
  log, comes with exactly the prefix that the log of the leader of \<open>t\<close> has there. It holds in
  every interleaving in which no late vote is counted, and gives the matching of any two logs,
  the order of terms within a log, and that a leader only ever appends. It does not protect
  committed entries.
\<close>

subsection \<open>Histories of logs\<close>

definition matches :: "(Term \<Rightarrow> LogEntry list) \<Rightarrow> LogEntry list \<Rightarrow> bool" where
  "matches L xs \<longleftrightarrow>
     (\<forall>k < length xs. take (Suc k) xs = take (Suc k) (L (le_term (xs ! k))))"

text \<open>The history of a term grows at its end.\<close>

definition grows :: "(Term \<Rightarrow> LogEntry list) \<Rightarrow> (Term \<Rightarrow> LogEntry list) \<Rightarrow> bool" where
  "grows L L' \<longleftrightarrow> (\<forall>t. prefix (L t) (L' t))"

definition history_ok :: "(Term \<Rightarrow> LogEntry list) \<Rightarrow> (Term \<Rightarrow> NodeId option) \<Rightarrow> bool" where
  "history_ok L led \<longleftrightarrow> (\<forall>t. matches L (L t) \<and> contiguous 1 (L t) \<and> sorted (map le_term (L t)) \<and>
     (\<forall>e \<in> set (L t). le_term e \<le> t) \<and> (led t = None \<longrightarrow> L t = []))"

lemma take_Suc_prefix:
  assumes "take (Suc k) xs = take (Suc k) ys" "k < length xs" "prefix ys zs"
  shows "take (Suc k) zs = take (Suc k) xs"
proof -
  have "length (take (Suc k) ys) = Suc k"
    using assms(1,2) by (metis Suc_leI length_take min.absorb2)
  then have "Suc k \<le> length ys" by simp
  then show ?thesis
    using assms(1,3) by (auto simp: prefix_def)
qed

lemma matches_grows:
  assumes "matches L xs" "grows L L'"
  shows "matches L' xs"
  unfolding matches_def
proof (intro allI impI)
  fix k assume k: "k < length xs"
  then have "take (Suc k) xs = take (Suc k) (L (le_term (xs ! k)))"
    using assms(1) by (simp add: matches_def)
  then show "take (Suc k) xs = take (Suc k) (L' (le_term (xs ! k)))"
    using k assms(2) by (metis grows_def take_Suc_prefix)
qed

lemma matches_take:
  assumes "matches L xs"
  shows "matches L (take n xs)"
  unfolding matches_def
proof (intro allI impI)
  fix k assume "k < length (take n xs)"
  then have "k < n" "k < length xs" by simp_all
  then show "take (Suc k) (take n xs) = take (Suc k) (L (le_term (take n xs ! k)))"
    using assms by (simp add: matches_def min_def)
qed

lemma matches_snoc:
  assumes "matches L xs" "L (le_term e) = xs @ [e]"
  shows "matches L (xs @ [e])"
  unfolding matches_def
proof (intro allI impI)
  fix k assume "k < length (xs @ [e])"
  then consider "k < length xs" | "k = length xs" by (auto simp: less_Suc_eq)
  then show "take (Suc k) (xs @ [e]) = take (Suc k) (L (le_term ((xs @ [e]) ! k)))"
  proof cases
    case 1
    then show ?thesis
      using assms(1) by (simp add: matches_def nth_append)
  next
    case 2
    then show ?thesis using assms(2) by simp
  qed
qed

text \<open>Two logs that hold an entry of the same term at the same position agree up to it.\<close>

lemma matches_agree:
  assumes "matches L xs" "matches L ys" "k < length xs" "k < length ys"
    and "le_term (xs ! k) = le_term (ys ! k)"
  shows "take (Suc k) xs = take (Suc k) ys"
  using assms by (simp add: matches_def)

lemma matches_sorted:
  assumes "history_ok L led" "matches L xs"
  shows "sorted (map le_term xs)"
proof (cases xs rule: rev_exhaust)
  case (snoc ys e)
  then have "take (Suc (length ys)) xs = take (Suc (length ys)) (L (le_term e))"
    using assms(2) [unfolded matches_def, rule_format, of "length ys"] by simp
  then have "xs = take (length xs) (L (le_term e))"
    using snoc by (metis length_append_singleton take_all_iff order_refl)
  moreover have "sorted (map le_term (L (le_term e)))"
    using assms(1) by (simp add: history_ok_def)
  ultimately show ?thesis
    by (metis sorted_wrt_take take_map)
qed simp

lemma history_none:
  assumes "history_ok L led" "matches L xs" "led t = None" "e \<in> set xs"
  shows "le_term e \<noteq> t"
proof
  assume t: "le_term e = t"
  obtain k where k: "k < length xs" "xs ! k = e"
    using assms(4) by (metis in_set_conv_nth)
  then have "take (Suc k) xs = take (Suc k) (L t)"
    using assms(2) t by (auto simp: matches_def)
  moreover have "L t = []"
    using assms(1,3) by (simp add: history_ok_def)
  ultimately show False using k(1) by simp
qed

subsection \<open>The logs of one node\<close>

text \<open>A request that carries entries carries a slice of the log of the leader of its term.\<close>

fun task_logged ::
  "(Term \<Rightarrow> LogEntry list) \<Rightarrow> (Term \<Rightarrow> NodeId option) \<Rightarrow> NodeId \<Rightarrow> RpcTask \<Rightarrow> bool" where
  "task_logged L led n (VoteTask to req) \<longleftrightarrow> True"
| "task_logged L led n (AppendTask to i req) \<longleftrightarrow> led (ae_term req) = Some n \<and> to \<noteq> n \<and>
     (ae_entries req = [] \<or> slice_of (L (ae_term req)) req)"
| "task_logged L led n (SnapshotTask to i req) \<longleftrightarrow> False"

definition node_logs ::
  "(Term \<Rightarrow> LogEntry list) \<Rightarrow> (Term \<Rightarrow> NodeId option) \<Rightarrow> NodeId \<Rightarrow> MemStorageInner RaftNodeInner \<Rightarrow>
   bool" where
  "node_logs L led n g \<longleftrightarrow>
     plain_log (storage g) \<and> matches L (entries (storage g)) \<and>
     (\<forall>e \<in> set (entries (storage g)). le_term e \<le> current_term (sm g)) \<and>
     cfg_id (config g) = n \<and> n \<notin> set (peers (config g)) \<and>
     (role (sm g) = Leader \<longrightarrow> led (current_term (sm g)) = Some n \<and>
       L (current_term (sm g)) = entries (storage g)) \<and>
     (role (sm g) = Candidate \<longrightarrow> led (current_term (sm g)) \<noteq> Some n) \<and>
     (\<forall>t. led t = Some n \<longrightarrow> t \<le> current_term (sm g)) \<and>
     (\<forall>t \<in> set (spawned g). task_logged L led n t)"

text \<open>What an operation of node \<open>n\<close> may do to the history: extend the log of a term that
  \<open>n\<close> leads, with entries of that term, or record \<open>n\<close> as the leader of a term that had none.\<close>

definition extends ::
  "NodeId \<Rightarrow> (Term \<Rightarrow> LogEntry list) \<Rightarrow> (Term \<Rightarrow> NodeId option) \<Rightarrow> (Term \<Rightarrow> LogEntry list) \<Rightarrow>
   (Term \<Rightarrow> NodeId option) \<Rightarrow> bool" where
  "extends n L led L' led' \<longleftrightarrow> grows L L' \<and>
     (\<forall>t. L' t = L t \<or> led' t = Some n) \<and> (\<forall>t. led' t = led t \<or> led t = None \<and> led' t = Some n) \<and>
     (\<forall>t. led t \<noteq> None \<longrightarrow> (\<exists>es. L' t = L t @ es \<and> (\<forall>e \<in> set es. le_term e = t)))"

definition log_step ::
  "NodeId \<Rightarrow> (Term \<Rightarrow> LogEntry list) \<Rightarrow> (Term \<Rightarrow> NodeId option) \<Rightarrow> MemStorageInner RaftNodeInner \<Rightarrow>
   (Term \<Rightarrow> LogEntry list) \<Rightarrow> (Term \<Rightarrow> NodeId option) \<Rightarrow> bool" where
  "log_step n L led g' L' led' \<longleftrightarrow> extends n L led L' led' \<and> history_ok L' led' \<and>
     node_logs L' led' n g' \<and>
     (\<forall>t. led' t \<noteq> led t \<or> L' t \<noteq> L t \<longrightarrow> t = current_term (sm g') \<and> role (sm g') = Leader)"

lemma grows_refl [simp]: "grows L L"
  by (simp add: grows_def)

lemma extends_refl [simp]: "extends n L led L led"
  by (simp add: extends_def)

lemma log_step_same: "history_ok L led \<Longrightarrow> node_logs L led n g' \<Longrightarrow> log_step n L led g' L led"
  by (simp add: log_step_def)

lemma slice_of_grows:
  assumes "slice_of xs req" "prefix xs ys"
  shows "slice_of ys req"
  using assms by (auto simp: slice_of_def term_before_def prefix_def nth_append)

lemma extends_led: "extends n L led L' led' \<Longrightarrow> led t = Some m \<Longrightarrow> led' t = Some m"
  unfolding extends_def by (metis option.distinct(1))

lemma extends_prefix: "extends n L led L' led' \<Longrightarrow> prefix (L t) (L' t)"
  by (simp add: extends_def grows_def)

lemma task_logged_extends:
  "task_logged L led m t \<Longrightarrow> extends n L led L' led' \<Longrightarrow> task_logged L' led' m t"
  by (cases t) (auto dest: extends_led extends_prefix intro: slice_of_grows)

lemma node_logs_extends:
  assumes "node_logs L led m g" "extends n L led L' led'" "m \<noteq> n"
  shows "node_logs L' led' m g"
proof -
  have led: "led' t = Some m \<longleftrightarrow> led t = Some m" for t
    using assms(2,3) unfolding extends_def by (metis option.inject option.distinct(1))
  moreover have "led t = Some m \<Longrightarrow> L' t = L t" for t
    using assms(2,3) led unfolding extends_def by (metis option.inject)
  moreover have "matches L' (entries (storage g))"
    using assms(1,2) by (auto simp: node_logs_def extends_def intro: matches_grows)
  moreover have "\<forall>t \<in> set (spawned g). task_logged L' led' m t"
    using assms(1,2) by (auto simp: node_logs_def intro: task_logged_extends)
  ultimately show ?thesis
    using assms(1) unfolding node_logs_def by simp
qed

text \<open>Operations that leave the log alone and create no requests.\<close>

lemma log_frame_logs:
  assumes "node_logs L led n g" "log_frame g g'"
  shows "node_logs L led n g'"
proof -
  have "current_term (sm g) \<le> current_term (sm g')"
    using assms(2) by (auto simp: log_frame_def)
  then show ?thesis
    using assms unfolding node_logs_def log_frame_def plain_log_def by auto
qed

subsection \<open>Requests\<close>

lemma leader_request_logged:
  assumes "node_logs L led n g" "role (sm g) = Leader" "leader_request g t" "task_target t \<noteq> n"
  shows "task_logged L led n t"
  using assms by (cases t) (auto simp: node_logs_def)

lemma sends_logs:
  assumes "node_logs L led n g" "role (sm g) = Leader" "sends ps g g'" "n \<notin> ps"
  shows "node_logs L led n g'"
proof -
  obtain ts where ts: "g' = g\<lparr>spawned := spawned g @ ts\<rparr>"
      "\<forall>t \<in> set ts. leader_request g t \<and> task_target t \<in> ps"
    using assms(3) by (auto simp: sends_def)
  have "\<forall>t \<in> set ts. task_logged L led n t"
    using ts(2) leader_request_logged [OF assms(1,2)] assms(4) by metis
  then show ?thesis
    using assms(1) by (auto simp: node_logs_def ts(1))
qed

lemma replicate_all_logs:
  assumes "node_logs L led n g" "replicate_all Debug (mem_storage Debug) g = Some g'"
  shows "node_logs L led n g'"
proof (cases "role (sm g) = Leader")
  case True
  have "sends (set (peers (config g))) g g'" "n \<notin> set (peers (config g))"
    using assms by (auto simp: node_logs_def intro: replicate_all_sends)
  then show ?thesis using sends_logs [OF assms(1) True] by blast
qed (use assms in \<open>simp add: replicate_all_def\<close>)

subsection \<open>A follower accepts a slice\<close>

text \<open>A request that passes the consistency check: the logs agree up to its previous entry.\<close>

lemma prev_agree:
  assumes hist: "matches L xs" and slice: "slice_of xs req"
    and plain: "plain_log (storage g)" and match: "matches L (entries (storage g))"
    and prev: "check_prev p (mem_storage p) g req = Some None"
  shows "unat (prev_log_index req) \<le> length (entries (storage g))"
    "take (unat (prev_log_index req)) (entries (storage g)) = take (unat (prev_log_index req)) xs"
proof -
  let ?k = "unat (prev_log_index req)"
  note c = plain_check_prev [OF plain prev]
  show le: "?k \<le> length (entries (storage g))" using c(1) .
  show "take ?k (entries (storage g)) = take ?k xs"
  proof (cases ?k)
    case (Suc i)
    then have "prev_log_index req \<noteq> 0" by auto
    then have "term_before (entries (storage g)) ?k = term_before xs ?k"
      using c(2) slice by (simp add: slice_of_def)
    then show ?thesis
      using matches_agree [OF match hist, of i] Suc le slice by (simp add: term_before_def slice_of_def)
  qed simp
qed

text \<open>If it also carries entries, the log becomes a prefix of the log it is a slice of.\<close>

lemma slice_accepted:
  assumes hist: "matches L xs" "contiguous 1 xs" and slice: "slice_of xs req"
    and ne: "ae_entries req \<noteq> []"
    and plain: "plain_log (storage g)" and match: "matches L (entries (storage g))"
    and prev: "check_prev p (mem_storage p) g req = Some None" and step: "takes p req g g'"
  shows "entries (storage g') = take (unat (prev_log_index req) + length (ae_entries req)) xs"
    "plain_log (storage g')"
proof -
  let ?k = "unat (prev_log_index req)" and ?es = "request_entries req"
  have k: "?k \<le> length xs" "prefix ?es (drop ?k xs)"
    using slice by (simp_all add: slice_of_def)
  have len: "length ?es = length (ae_entries req)" by (simp add: request_entries_def)
  have ne': "?es \<noteq> []" using ne by (simp add: request_entries_def)
  have es: "?es = take (length (ae_entries req)) (drop ?k xs)"
    using prefix_take [OF k(2)] len by simp
  then have "hd ?es = xs ! ?k" "?k < length xs"
    using ne' by (auto simp: hd_conv_nth)
  then have hd: "unat (le_index (hd ?es)) = Suc ?k"
    using hist(2) by (simp add: contiguous_def)
  obtain m r where m: "mem_append_entries p (storage g) ?es = Some (m, r)"
      "entries (storage g') = entries m" "snapshot (storage g') = snapshot (storage g)"
    using step ne by (auto simp: takes_def)
  note a = prev_agree [OF hist(1) slice plain match prev]
  have "entries m = take ?k (entries (storage g)) @ ?es"
    using plain_append(1) [OF plain m(1) ne' hd a(1)] .
  then show e: "entries (storage g') = take (?k + length (ae_entries req)) xs"
    using m(2) a(2) es by (simp add: take_add)
  show "plain_log (storage g')"
    using m(3) plain e hist(2) by (simp add: plain_log_def contiguous_take)
qed

lemma steady_log_frame: "steady g g' \<Longrightarrow> log_frame g g'"
  by (auto simp: steady_def keeps_def log_frame_def)

text \<open>Delivering a logged request keeps the logs: the target does not lead the term of the request,
  and if it takes entries its log becomes a prefix of the log of that term.\<close>

lemma takes_logs:
  assumes hist: "history_ok L led" and inv: "node_logs L led n g"
    and task: "task_logged L led src (AppendTask n i req)"
    and t: "current_term (sm g) = ae_term req"
    and prev: "check_prev p (mem_storage p) g req = Some None" and step: "takes p req g g'"
  shows "node_logs L led n g'"
proof -
  have f: "snapshot (storage g') = snapshot (storage g)" "config g' = config g" "spawned g' = spawned g"
      "role (sm g') = role (sm g)" "current_term (sm g') = current_term (sm g)"
    using step by (simp_all add: takes_def)
  show ?thesis
  proof (cases "ae_entries req = []")
    case True
    then have "log_frame g g'" using step f by (simp add: takes_def log_frame_def)
    then show ?thesis using inv log_frame_logs by blast
  next
    case False
    let ?xs = "L (ae_term req)"
    have plain: "plain_log (storage g)" and match: "matches L (entries (storage g))"
      using inv by (simp_all add: node_logs_def)
    have src: "led (ae_term req) = Some src" "n \<noteq> src" and slice: "slice_of ?xs req"
      using task False by auto
    have xs: "matches L ?xs" "contiguous 1 ?xs" "\<forall>e \<in> set ?xs. le_term e \<le> ae_term req"
      using hist by (simp_all add: history_ok_def)
    note acc = slice_accepted [OF xs(1,2) slice False plain match prev step]
    have "matches L (entries (storage g'))" "\<forall>e \<in> set (entries (storage g')). le_term e \<le> ae_term req"
      using acc(1) xs by (auto simp: matches_take dest: in_set_takeD)
    moreover have "role (sm g) \<noteq> Leader"
      using inv src t by (auto simp: node_logs_def)
    ultimately show ?thesis
      using inv t acc(2) f unfolding node_logs_def by auto
  qed
qed

lemma append_entries_logs:
  assumes hist: "history_ok L led" and inv: "node_logs L led n g"
    and task: "task_logged L led src (AppendTask n i req)"
    and step: "on_append_entries p (mem_storage p) g req = Some (g', r)"
  shows "node_logs L led n g'"
  using step
proof (cases rule: append_outcome)
  case refused
  then show ?thesis using inv steady_log_frame log_frame_logs by blast
next
  case (taken g1)
  have "node_logs L led n g1" using inv taken(1) steady_log_frame log_frame_logs by blast
  then show ?thesis using takes_logs [OF hist _ task taken(2-4)] by blast
qed

subsection \<open>Elections and proposals\<close>

text \<open>A candidate that wins a term without a leader: its log is the history of that term.\<close>

lemma history_elect:
  assumes "history_ok L led" "node_logs L led n g" "led (current_term (sm g)) = None"
  shows "history_ok (L(current_term (sm g) := entries (storage g))) (led(current_term (sm g) := Some n))"
    and "extends n L led (L(current_term (sm g) := entries (storage g))) (led(current_term (sm g) := Some n))"
proof -
  let ?t = "current_term (sm g)" and ?xs = "entries (storage g)"
  have "L ?t = []" using assms(1,3) by (simp add: history_ok_def)
  then show ext: "extends n L led (L(?t := ?xs)) (led(?t := Some n))"
    using assms(3) by (auto simp: extends_def grows_def)
  have "matches (L(?t := ?xs)) ys" if "matches L ys" for ys
    using that ext by (simp add: extends_def matches_grows)
  then show "history_ok (L(?t := ?xs)) (led(?t := Some n))"
    using assms matches_sorted [OF assms(1), of ?xs]
    by (auto simp: history_ok_def node_logs_def plain_log_def)
qed

lemma win_election_logs:
  assumes hist: "history_ok L led" and inv: "node_logs L led n g" and cand: "role (sm g) = Candidate"
    and step: "win_election Debug (mem_storage Debug) g = Some g'"
    and free: "role (sm g') = Leader \<Longrightarrow>
      led (current_term (sm g')) = None \<or> led (current_term (sm g')) = Some n"
  shows "\<exists>L' led'. log_step n L led g' L' led'"
proof -
  let ?t = "current_term (sm g)"
  have plain: "plain_log (storage g)" and peers: "n \<notin> set (peers (config g))"
    using inv by (auto simp: node_logs_def)
  from plain step obtain g1 where g1: "keeps g g1" "role (sm g1) = Leader" "current_term (sm g1) = ?t"
    and g': "sends (set (peers (config g))) g1 g'"
    by (rule win_outcome)
  have f: "storage g' = storage g1" "sm g' = sm g1"
    using sends_frame [OF g'] by simp_all
  then have none: "led ?t = None"
    using free g1(2,3) inv cand by (auto simp: node_logs_def)
  let ?L = "L(?t := entries (storage g))" and ?led = "led(?t := Some n)"
  note h = history_elect [OF hist inv none]
  have "matches ?L (entries (storage g))"
    using inv h(2) by (auto simp: node_logs_def extends_def intro: matches_grows)
  moreover have "\<forall>t \<in> set (spawned g). task_logged ?L ?led n t"
    using inv task_logged_extends [OF _ h(2)] by (auto simp: node_logs_def)
  ultimately have "node_logs ?L ?led n g1"
    using inv g1 unfolding node_logs_def keeps_def plain_log_def by auto
  then have "node_logs ?L ?led n g'"
    using sends_logs [OF _ g1(2) g' peers] by blast
  then have "log_step n L led g' ?L ?led"
    using h f g1(2,3) by (auto simp: log_step_def)
  then show ?thesis by blast
qed

lemma start_election_logs:
  assumes hist: "history_ok L led" and inv: "node_logs L led n g"
    and step: "start_election Debug (mem_storage Debug) g = Some g'"
    and free: "role (sm g') = Leader \<Longrightarrow>
      led (current_term (sm g')) = None \<or> led (current_term (sm g')) = Some n"
  shows "\<exists>L' led'. log_step n L led g' L' led'"
proof -
  have "plain_log (storage g)" using inv by (simp add: node_logs_def)
  from this step obtain g2 req where g2: "entries (storage g2) = entries (storage g)"
      "snapshot (storage g2) = snapshot (storage g)" "config g2 = config g"
      "spawned g2 = spawned g @ map (\<lambda>peer. VoteTask peer req) (peers (config g))"
      "current_term (sm g) < current_term (sm g2)" "role (sm g2) = Candidate"
    and g': "g' = g2 \<or> win_election Debug (mem_storage Debug) g2 = Some g'"
    by (rule candidate_outcome)
  have "\<forall>u. led u = Some n \<longrightarrow> u < current_term (sm g2)"
    using inv g2(5) by (auto simp: node_logs_def intro: order.strict_trans1)
  then have logs: "node_logs L led n g2"
    using inv g2 unfolding node_logs_def plain_log_def
    by (auto intro: order.trans order.strict_implies_order)
  from g' show ?thesis
  proof
    assume "g' = g2"
    then show ?thesis using log_step_same [OF hist] logs by blast
  next
    assume "win_election Debug (mem_storage Debug) g2 = Some g'"
    then show ?thesis
      using win_election_logs [OF hist logs g2(6)] free by blast
  qed
qed

lemma vote_response_logs:
  assumes hist: "history_ok L led" and inv: "node_logs L led n g"
    and step: "handle_vote_response Debug (mem_storage Debug) g peer resp = Some g'"
    and free: "role (sm g') = Leader \<Longrightarrow>
      led (current_term (sm g')) = None \<or> led (current_term (sm g')) = Some n"
  shows "\<exists>L' led'. log_step n L led g' L' led'"
  using step
proof (cases rule: vote_response_cases)
  case quiet
  then show ?thesis using inv steady_log_frame log_frame_logs log_step_same [OF hist] by blast
next
  case (counted g1)
  then have "log_frame g g1" by (simp add: log_frame_def keeps_def)
  then have logs: "node_logs L led n g1" using inv log_frame_logs by blast
  from counted(6) show ?thesis
  proof
    assume "g' = g1"
    then show ?thesis using log_step_same [OF hist] logs by blast
  next
    assume "win_election Debug (mem_storage Debug) g1 = Some g'"
    then show ?thesis
      using win_election_logs [OF hist logs] counted(2,3) free by simp
  qed
qed

text \<open>A leader that appends an entry extends the history of its term.\<close>

lemma history_append:
  assumes "history_ok L led" "node_logs L led n g" "role (sm g) = Leader"
    and "le_term e = current_term (sm g)" "unat (le_index e) = Suc (length (entries (storage g)))"
  defines "L' \<equiv> L(current_term (sm g) := entries (storage g) @ [e])"
  shows "history_ok L' led" "extends n L led L' led" "matches L' (entries (storage g) @ [e])"
proof -
  let ?t = "current_term (sm g)" and ?xs = "entries (storage g)"
  have old: "L ?t = ?xs" "led ?t = Some n" "contiguous 1 ?xs" "matches L ?xs"
      "\<forall>e \<in> set ?xs. le_term e \<le> ?t"
    using assms(2,3) by (simp_all add: node_logs_def plain_log_def)
  then show ext: "extends n L led L' led"
    using assms(4) by (auto simp: extends_def grows_def L'_def)
  then have mono: "matches L' ys" if "matches L ys" for ys
    using that by (simp add: extends_def matches_grows)
  then show m: "matches L' (?xs @ [e])"
    using old(4) assms(4) by (intro matches_snoc) (simp_all add: L'_def)
  have "sorted (map le_term (?xs @ [e]))"
    using matches_sorted [OF assms(1) old(4)] old(5) assms(4) by (simp add: sorted_append)
  moreover have "contiguous 1 (?xs @ [e])"
    using old(3) assms(5) by (simp add: contiguous_append) (simp add: contiguous_def)
  ultimately show "history_ok L' led"
    using assms(1,4) old(2,5) m mono by (auto simp: history_ok_def L'_def)
qed

lemma proposal_logs:
  assumes hist: "history_ok L led" and inv: "node_logs L led n g"
    and step: "on_proposal Debug (mem_storage Debug) g pr = Some g'"
  shows "\<exists>L' led'. log_step n L led g' L' led'"
proof -
  have plain: "plain_log (storage g)" and peers: "n \<notin> set (peers (config g))"
    using inv by (auto simp: node_logs_def)
  from plain step show ?thesis
  proof (cases rule: proposal_cases)
    case quiet
    then show ?thesis using inv steady_log_frame log_frame_logs log_step_same [OF hist] by blast
  next
    case (appended g1 e)
    let ?L = "L(current_term (sm g) := entries (storage g) @ [e])"
    note h = history_append [OF hist inv appended(1,4,5)]
    have "plain_log (storage g1)"
      using plain appended(2,3,5) by (simp add: plain_log_def contiguous_append) (simp add: contiguous_def)
    moreover have "\<forall>t \<in> set (spawned g). task_logged ?L led n t"
      using inv task_logged_extends [OF _ h(2)] by (auto simp: node_logs_def)
    ultimately have "node_logs ?L led n g1"
      using inv appended h(3) unfolding node_logs_def by auto
    then have "node_logs ?L led n g'"
      using sends_logs [OF _ _ appended(10)] appended(1,6) peers by simp
    then have "log_step n L led g' ?L led"
      using h sends_frame [OF appended(10)] appended(1,6) by (simp add: log_step_def)
    then show ?thesis by blast
  qed
qed

subsection \<open>The steps of a node\<close>

lemma handle_message_logs:
  assumes hist: "history_ok L led" and inv: "node_logs L led n g"
    and step: "handle_message Debug (mem_storage Debug) g m = Some (g', b)"
    and free: "role (sm g') = Leader \<Longrightarrow>
      led (current_term (sm g')) = None \<or> led (current_term (sm g')) = Some n"
  shows "\<exists>L' led'. log_step n L led g' L' led'"
proof -
  have frame: ?thesis if "log_frame g g'"
    using log_frame_logs [OF inv that] log_step_same [OF hist] by blast
  show ?thesis
  proof (cases m)
    case (VoteResponse peer resp)
    then have "handle_vote_response Debug (mem_storage Debug) g peer resp = Some g'"
      using step by (auto elim!: bind_SomeE)
    then show ?thesis using vote_response_logs [OF hist inv] free by blast
  next
    case (Propose pr)
    then have "on_proposal Debug (mem_storage Debug) g pr = Some g'"
      using step by (auto elim!: bind_SomeE)
    then show ?thesis using proposal_logs [OF hist inv] by blast
  next
    case (AppendResponse peer i resp)
    then have "handle_append_response Debug (mem_storage Debug) g peer i resp = Some g'"
      using step by (auto elim!: bind_SomeE)
    then show ?thesis using frame log_frame_append_response by blast
  next
    case (SnapshotResponse peer i resp)
    then have "handle_snapshot_response Debug (mem_storage Debug) g peer i resp = Some g'"
      using step by (auto elim!: bind_SomeE)
    then show ?thesis using frame log_frame_snapshot_response by blast
  qed (use step frame in \<open>auto simp: log_frame_def\<close>)
qed

lemma on_timeout_logs:
  assumes hist: "history_ok L led" and inv: "node_logs L led n (inner r)"
    and step: "on_timeout Debug (mem_storage Debug) now now' j r = Some r'"
    and free: "role (sm (inner r')) = Leader \<Longrightarrow> led (current_term (sm (inner r'))) = None \<or>
      led (current_term (sm (inner r'))) = Some n"
  shows "\<exists>L' led'. log_step n L led (inner r') L' led'"
proof -
  consider "start_election Debug (mem_storage Debug) (inner r) = Some (inner r')" | "r' = r"
    | g1 g2 where "replicate_all Debug (mem_storage Debug) (inner r) = Some g1"
      "maybe_advance_commit Debug (mem_storage Debug) g1 = Some g2"
      "apply_committed Debug (mem_storage Debug) g2 = Some (inner r')"
    using step by (auto simp: on_timeout_def Let_def elim!: bind_SomeE split: if_splits)
  then show ?thesis
  proof cases
    case 1
    then show ?thesis using start_election_logs [OF hist inv] free by blast
  next
    case 2
    then show ?thesis using log_step_same [OF hist] inv by blast
  next
    case 3
    have "log_frame g1 (inner r')"
      using log_frame_commit [OF 3(2)] log_frame_apply [OF 3(3)] by (rule log_frame_trans)
    then have "node_logs L led n (inner r')"
      using log_frame_logs [OF replicate_all_logs [OF inv 3(1)]] by simp
    then show ?thesis using log_step_same [OF hist] by blast
  qed
qed

lemma deliver_logs:
  assumes "history_ok L led" "node_logs L led (task_target t) g" "task_logged L led src t"
    and "deliver_task Debug (mem_storage Debug) t g = Some (g', reply)"
  shows "node_logs L led (task_target t) g'"
proof (cases t)
  case (VoteTask to req)
  then show ?thesis
    using assms log_frame_logs log_frame_vote by (auto elim!: bind_SomeE)
next
  case (AppendTask to i req)
  then obtain r where "on_append_entries Debug (mem_storage Debug) g req = Some (g', r)"
    using assms(4) by (auto elim!: bind_SomeE)
  then show ?thesis
    using append_entries_logs [of L led to g src i req Debug] assms(1-3) AppendTask by simp
qed (use assms(3) in simp)

text \<open>A node that starts on the store it wrote is in the term it was in.\<close>

lemma restart_logs:
  assumes "node_logs L led n g" "synced hard_state g"
    and "boot (mem_storage Debug) (config g) (storage g) now j = Some r"
  shows "node_logs L led n (inner r)"
  using assms(1) restart_outcome(1-6) [OF assms(2,3)] by (simp add: node_logs_def)

subsection \<open>The logs of a cluster\<close>

text \<open>A recorded leader has the votes of a majority in its term.\<close>

definition elected ::
  "NodeId set \<Rightarrow> (NodeId \<times> Term \<times> NodeId) set \<Rightarrow> (Term \<Rightarrow> NodeId option) \<Rightarrow> bool" where
  "elected M V led \<longleftrightarrow> (\<forall>t m. led t = Some m \<longrightarrow>
     (\<exists>Q \<subseteq> M. card M < 2 * card Q \<and> (\<forall>v \<in> Q. (v, t, m) \<in> V)))"

definition cluster_logs ::
  "NodeId set \<Rightarrow> (Term \<Rightarrow> LogEntry list) \<Rightarrow> (Term \<Rightarrow> NodeId option) \<Rightarrow> MemStorageInner Cluster \<Rightarrow> bool" where
  "cluster_logs M L led c \<longleftrightarrow> history_ok L led \<and> elected M (votes_cast c) led \<and>
     (\<forall>n \<in> M. node_logs L led n (inner (procs c n))) \<and> (\<forall>(n, t) \<in> net c. task_logged L led n t)"

lemma elected_mono: "elected M V led \<Longrightarrow> V \<subseteq> V' \<Longrightarrow> elected M V' led"
  unfolding elected_def by (meson subsetD)

lemma leader_majority:
  assumes "cluster_inv hard M c" "n \<in> M" "role (sm (inner (procs c n))) = Leader"
  shows "\<exists>Q \<subseteq> M. card M < 2 * card Q \<and>
    (\<forall>v \<in> Q. (v, current_term (sm (inner (procs c n))), n) \<in> votes_cast c)" "finite M"
proof -
  let ?g = "inner (procs c n)"
  have inv: "vote_inv M (votes_cast c) n (sm ?g) (config ?g)" and M: "members (config ?g) = M"
    using cluster_node_inv [OF assms(1,2)] by (simp_all add: node_inv_def)
  have "card M < 2 * quorum (config ?g)"
    using members_less_two_quorums [of "config ?g"] M by simp
  moreover have "quorum (config ?g) \<le> card (votes_received (sm ?g))"
      "\<forall>v \<in> votes_received (sm ?g). v \<in> M \<and> (v, current_term (sm ?g), n) \<in> votes_cast c"
    using inv assms(3) by (auto simp: vote_inv_def)
  ultimately show "\<exists>Q \<subseteq> M. card M < 2 * card Q \<and>
      (\<forall>v \<in> Q. (v, current_term (sm ?g), n) \<in> votes_cast c)"
    by (intro exI [of _ "votes_received (sm ?g)"]) auto
  show "finite M" using M finite_members by metis
qed

text \<open>Whoever leads a term is the only one recorded for it.\<close>

lemma leader_recorded:
  assumes "cluster_inv hard M c" "n \<in> M" "role (sm (inner (procs c n))) = Leader"
    and "elected M V led" "V \<subseteq> votes_cast c"
  shows "led (current_term (sm (inner (procs c n)))) = None \<or>
    led (current_term (sm (inner (procs c n)))) = Some n"
proof (cases "led (current_term (sm (inner (procs c n))))")
  case (Some m)
  let ?t = "current_term (sm (inner (procs c n)))"
  obtain Q where Q: "Q \<subseteq> M" "card M < 2 * card Q" "\<forall>v \<in> Q. (v, ?t, n) \<in> votes_cast c"
    using leader_majority [OF assms(1-3)] by blast
  obtain Q' where Q': "Q' \<subseteq> M" "card M < 2 * card Q'" "\<forall>v \<in> Q'. (v, ?t, m) \<in> V"
    using assms(4) Some unfolding elected_def by meson
  have "Q \<inter> Q' \<noteq> {}"
    using Q Q' leader_majority(2) [OF assms(1-3)] by (intro quorum_sizes_meet [of M]) auto
  then obtain v where "(v, ?t, n) \<in> votes_cast c" "(v, ?t, m) \<in> votes_cast c"
    using Q(3) Q'(3) assms(5) by blast
  then have "m = n"
    using assms(1) by (auto simp: cluster_inv_def one_vote_def)
  then show ?thesis using Some by simp
qed simp

lemma put_votes: "votes_cast c \<subseteq> votes_cast (put n r c)"
  by (auto simp: put_def)

lemma put_net [simp]: "net (put n r c) = net c"
  by (simp add: put_def)

lemma put_logs:
  assumes c: "cluster_logs M L led c" and n: "n \<in> M" and inv: "cluster_inv hard M (put n r c)"
    and step: "log_step n L led (inner r) L' led'"
  shows "cluster_logs M L' led' (put n r c)"
proof -
  let ?V = "votes_cast (put n r c)"
  have ext: "extends n L led L' led'" and new: "node_logs L' led' n (inner r)"
    using step by (simp_all add: log_step_def)
  have "elected M ?V led'"
    unfolding elected_def
  proof (intro allI impI)
    fix t m assume m: "led' t = Some m"
    show "\<exists>Q \<subseteq> M. card M < 2 * card Q \<and> (\<forall>v \<in> Q. (v, t, m) \<in> ?V)"
    proof (cases "led' t = led t")
      case True
      have "elected M (votes_cast c) led" using c by (simp add: cluster_logs_def)
      then have "elected M ?V led" using put_votes by (rule elected_mono)
      then show ?thesis using m True unfolding elected_def by metis
    next
      case False
      then have t: "t = current_term (sm (inner r))" "role (sm (inner r)) = Leader"
        using step by (auto simp: log_step_def)
      have "led' t = Some n" using False ext by (auto simp: extends_def)
      then have "m = n" using m by simp
      then show ?thesis
        using leader_majority(1) [OF inv n] t by simp
    qed
  qed
  moreover have "node_logs L' led' m (inner (procs (put n r c) m))" if "m \<in> M" for m
    using c that new node_logs_extends [OF _ ext] by (auto simp: cluster_logs_def)
  moreover have "\<forall>(m, t) \<in> net c. task_logged L' led' m t"
    using c task_logged_extends [OF _ ext] by (auto simp: cluster_logs_def)
  ultimately show ?thesis
    using step by (simp add: cluster_logs_def log_step_def)
qed

lemma put_free:
  assumes "cluster_logs M L led c" "n \<in> M" "cluster_inv hard M (put n r c)"
    and "role (sm (inner r)) = Leader"
  shows "led (current_term (sm (inner r))) = None \<or> led (current_term (sm (inner r))) = Some n"
  using leader_recorded [OF assms(3,2), of "votes_cast c" led] assms(1,4) put_votes
  by (auto simp: cluster_logs_def)

lemma put_same_logs:
  assumes "cluster_logs M L led c" "n \<in> M" "node_logs L led n (inner r)"
  shows "cluster_logs M L led (put n r c)"
  using assms elected_mono [OF _ put_votes] by (auto simp: cluster_logs_def)

lemma cluster_step_logs:
  assumes "cluster_step Debug (mem_storage Debug) M (timely Debug) c c'"
    and inv: "cluster_inv hard_state M c" and logs: "cluster_logs M L led c"
  shows "\<exists>L' led'. cluster_logs M L' led' c' \<and> grows L L'"
proof -
  have inv': "cluster_inv hard_state M c'"
    using assms(1) inv by (rule mem_hs.cluster_step_inv)
  have hist: "history_ok L led" and node: "\<And>n. n \<in> M \<Longrightarrow> node_logs L led n (inner (procs c n))"
    using logs by (simp_all add: cluster_logs_def)
  have same: ?thesis if "c' = put n r c" "n \<in> M" "inner r = inner (procs c n)" for n r
    using put_same_logs [OF logs that(2), of r] node that by auto
  have stepped: ?thesis if c': "c' = put n r c" and n: "n \<in> M"
    and ex: "\<exists>L' led'. log_step n L led (inner r) L' led'" for n r
  proof -
    obtain L' led' where st: "log_step n L led (inner r) L' led'" using ex by blast
    then have "cluster_logs M L' led' c'"
      using put_logs [OF logs n] inv' c' by blast
    moreover have "grows L L'" using st by (simp add: log_step_def extends_def)
    ultimately show ?thesis by blast
  qed
  from assms(1) show ?thesis
  proof cases
    case (client n m r)
    then show ?thesis using same [of n r] by (auto simp: api_send_def split: if_splits)
  next
    case (recv n m ms r)
    obtain b where "handle_message Debug (mem_storage Debug) (inner (procs c n)) m = Some (inner r, b)"
      using recv by (auto elim: on_recv_inner)
    then have "\<exists>L' led'. log_step n L led (inner r) L' led'"
      using handle_message_logs [OF hist node [OF recv(2)]] put_free [OF logs recv(2), of hard_state r]
        inv' recv(1) by simp
    then show ?thesis using stepped recv(1,2) by blast
  next
    case (tick n now now' j r)
    then have "\<exists>L' led'. log_step n L led (inner r) L' led'"
      using on_timeout_logs [OF hist node [OF tick(2)]] put_free [OF logs tick(2), of hard_state r]
        inv' by simp
    then show ?thesis using stepped tick(1,2) by blast
  next
    case (dispatch n t ts)
    have "task_logged L led n t" "node_logs L led n (inner (procs c n)\<lparr>spawned := ts\<rparr>)"
      using node [OF dispatch(2)] dispatch(3) by (auto simp: node_logs_def)
    moreover from this
    have "cluster_logs M L led (put n (inner_update (\<lambda>g. g\<lparr>spawned := ts\<rparr>) (procs c n)) c)"
      using put_same_logs [OF logs dispatch(2)] by simp
    ultimately have "cluster_logs M L led c'"
      using dispatch(1) by (simp add: cluster_logs_def)
    then show ?thesis by auto
  next
    case (deliver n t g reply)
    have "task_logged L led n t" using logs deliver(2) by (auto simp: cluster_logs_def)
    then have "node_logs L led (task_target t) g"
      using deliver_logs [OF hist node] deliver by blast
    then have "cluster_logs M L led (put (task_target t) ((procs c (task_target t))\<lparr>inner := g\<rparr>) c)"
      using put_same_logs [OF logs deliver(3)] by simp
    then have "cluster_logs M L led c'"
      using deliver(1) by (simp add: cluster_logs_def)
    then show ?thesis by auto
  next
    case (arrive n m)
    then show ?thesis using same by auto
  next
    case (restart n j now r)
    have "synced hard_state (inner (procs c n))"
      using cluster_node_inv [OF inv restart(2)] by (simp add: node_inv_def)
    then have "node_logs L led n (inner r)"
      using restart_logs [OF node [OF restart(2)]] restart(4) by blast
    then have "cluster_logs M L led c'"
      using restart(1) put_same_logs [OF logs restart(2)] by simp
    then show ?thesis by auto
  qed
qed

text \<open>A cluster that starts with empty logs, in which no node is its own peer, and its runs.\<close>

definition fresh_logs :: "NodeId set \<Rightarrow> MemStorageInner Cluster \<Rightarrow> bool" where
  "fresh_logs M c \<longleftrightarrow> cluster_init (mem_storage Debug) M c \<and>
     (\<forall>n \<in> M. entries (storage (inner (procs c n))) = [] \<and> snapshot (storage (inner (procs c n))) = None \<and>
       n \<notin> set (peers (config (inner (procs c n)))))"

definition timely_run :: "NodeId set \<Rightarrow> MemStorageInner Cluster \<Rightarrow> MemStorageInner Cluster \<Rightarrow> bool" where
  "timely_run M = rtranclp (cluster_step Debug (mem_storage Debug) M (timely Debug))"

lemma fresh_logs_inv:
  assumes "fresh_logs M c"
  shows "cluster_logs M (\<lambda>_. []) (\<lambda>_. None) c"
proof -
  have init: "cluster_init (mem_storage Debug) M c" using assms by (simp add: fresh_logs_def)
  have "node_logs (\<lambda>_. []) (\<lambda>_. None) n (inner (procs c n))" if n: "n \<in> M" for n
  proof -
    let ?g = "inner (procs c n)"
    obtain st now j where "boot (mem_storage Debug) (config ?g) st now j = Some (procs c n)"
      using init n by (auto simp: cluster_init_def)
    then have "restore (mem_storage Debug) (node_new (config ?g) st) = Some ?g"
      by (auto dest: start_facts)
    then have "role (sm ?g) = Follower" "spawned ?g = []"
      using mem_hs.restore_synced(1,6) [of Debug "node_new (config ?g) st" ?g]
      by (simp_all add: node_new_def sm_new_def)
    then show ?thesis
      using assms n init by (simp add: node_logs_def fresh_logs_def plain_log_def matches_def cluster_init_def)
  qed
  then show ?thesis
    using init by (simp add: cluster_logs_def history_ok_def matches_def elected_def cluster_init_def)
qed

lemma timely_run_logs:
  assumes "timely_run M c c'" "cluster_inv hard_state M c" "cluster_logs M L led c"
  shows "cluster_inv hard_state M c' \<and> (\<exists>L' led'. cluster_logs M L' led' c' \<and> grows L L')"
  using assms unfolding timely_run_def
proof (induction rule: rtranclp_induct)
  case (step c1 c2)
  then obtain L1 led1 where 1: "cluster_inv hard_state M c1" "cluster_logs M L1 led1 c1" "grows L L1"
    by blast
  then obtain L2 led2 where 2: "cluster_logs M L2 led2 c2" "grows L1 L2"
    using cluster_step_logs [OF step.hyps(2)] by blast
  have "grows L L2"
    using 1(3) 2(2) unfolding grows_def by (meson prefix_order.trans)
  then show ?case
    using 2(1) mem_hs.cluster_step_inv [OF step.hyps(2) 1(1)] by blast
qed auto

lemma timely_run_inv:
  assumes "fresh_logs M c0" "timely_run M c0 c"
  obtains L led where "cluster_inv hard_state M c" "cluster_logs M L led c"
proof -
  have "cluster_inv hard_state M c0"
    using assms(1) by (auto simp: fresh_logs_def intro: mem_hs.cluster_init_inv)
  then show ?thesis
    using timely_run_logs [OF assms(2)] fresh_logs_inv [OF assms(1)] that by blast
qed

lemma run_events_timely:
  "run_events Debug (mem_storage Debug) M (timely Debug) es c = Some c' \<Longrightarrow> timely_run M c c'"
  unfolding timely_run_def
  by (induction es arbitrary: c)
    (auto elim!: bind_SomeE dest: apply_event_step intro: converse_rtranclp_into_rtranclp)

lemma demo_fresh: "fresh_logs node_ids demo_cluster"
  unfolding fresh_logs_def
  by (intro conjI demo_cluster_init)
    (simp add: demo_cluster_def demo_node_def node_new_def mem_new_def demo_config_def)

text \<open>C4 (safety): log matching. A cluster starts with empty logs, no node is its own peer, and the
  build is a dev build. In every interleaving in which no late vote is counted, if the logs of two
  nodes hold entries of the same term at the same position, then they are identical up to that
  position: same terms, same indices, same commands. Requests and responses may be lost, delayed,
  reordered and duplicated, and nodes may restart.\<close>

theorem logs_match:
  assumes "fresh_logs M c0" "timely_run M c0 c" "n \<in> M" "m \<in> M"
    and "k < length (entries (storage (inner (procs c n))))"
    and "k < length (entries (storage (inner (procs c m))))"
    and "le_term (entries (storage (inner (procs c n))) ! k) = le_term (entries (storage (inner (procs c m))) ! k)"
  shows "take (Suc k) (entries (storage (inner (procs c n)))) =
    take (Suc k) (entries (storage (inner (procs c m))))"
proof -
  obtain L led where "cluster_logs M L led c"
    using timely_run_inv [OF assms(1,2)] by blast
  then have "matches L (entries (storage (inner (procs c n))))" "matches L (entries (storage (inner (procs c m))))"
    using assms(3,4) by (simp_all add: cluster_logs_def node_logs_def)
  then show ?thesis using assms(5-7) by (rule matches_agree)
qed

lemma commit_one_run:
  "\<exists>c c'. run_demo (timely Debug) elect_one = Some c \<and>
    run_events Debug (mem_storage Debug) node_ids (timely Debug) (drop 5 commit_one) c = Some c' \<and>
    is_leader c 1 1 \<and> is_leader c' 1 1 \<and> entries (storage (inner (procs c 1))) = [] \<and>
    entries (storage (inner (procs c' 1))) = [demo_entry] \<and>
    entries (storage (inner (procs c' 2))) = [demo_entry]"
proof -
  have "case run_demo (timely Debug) elect_one of None \<Rightarrow> False
    | Some c \<Rightarrow> (case run_events Debug (mem_storage Debug) node_ids (timely Debug) (drop 5 commit_one) c of
        None \<Rightarrow> False
      | Some c' \<Rightarrow> is_leader c 1 1 \<and> is_leader c' 1 1 \<and> entries (storage (inner (procs c 1))) = [] \<and>
          entries (storage (inner (procs c' 1))) = [demo_entry] \<and>
          entries (storage (inner (procs c' 2))) = [demo_entry])"
    by code_simp
  then show ?thesis by (auto split: option.splits)
qed

theorem logs_match_witness:
  "\<exists>c. timely_run node_ids demo_cluster c \<and> entries (storage (inner (procs c 1))) = [demo_entry] \<and>
    take (Suc 0) (entries (storage (inner (procs c 1)))) = take (Suc 0) (entries (storage (inner (procs c 2))))"
proof -
  obtain c c' where c: "run_demo (timely Debug) elect_one = Some c"
      "run_events Debug (mem_storage Debug) node_ids (timely Debug) (drop 5 commit_one) c = Some c'"
      "entries (storage (inner (procs c' 1))) = [demo_entry]" "entries (storage (inner (procs c' 2))) = [demo_entry]"
    using commit_one_run by blast
  have run: "timely_run node_ids demo_cluster c'"
    using run_events_timely [OF c(1) [unfolded run_demo_def]] run_events_timely [OF c(2)]
    unfolding timely_run_def by (rule rtranclp_trans)
  then have "take (Suc 0) (entries (storage (inner (procs c' 1)))) = take (Suc 0) (entries (storage (inner (procs c' 2))))"
    by (rule logs_match [OF demo_fresh]) (simp_all add: c node_ids_def)
  then show ?thesis using run c(3) by blast
qed

text \<open>C10 (invariant): a leader only appends, in a dev build of a cluster that started with empty logs
  and in which no late vote is counted. Over any such run between two states in which the same node
  leads the same term, the log it had is a prefix of the log it has. (If late votes are counted,
  two nodes may lead the term and one of them may overwrite the log of the other.)\<close>

theorem leader_append_only:
  assumes "fresh_logs M c0" "timely_run M c0 c" "timely_run M c c'" "n \<in> M"
    and "is_leader c n t" "is_leader c' n t"
  shows "prefix (entries (storage (inner (procs c n)))) (entries (storage (inner (procs c' n))))"
proof -
  obtain L led where L: "cluster_inv hard_state M c" "cluster_logs M L led c"
    using timely_run_inv [OF assms(1,2)] by blast
  then obtain L' led' where L': "cluster_logs M L' led' c'" "grows L L'"
    using timely_run_logs [OF assms(3)] by blast
  have "L t = entries (storage (inner (procs c n)))" "L' t = entries (storage (inner (procs c' n)))"
    using L(2) L'(1) assms(4-6) by (auto simp: cluster_logs_def node_logs_def is_leader_def)
  then show ?thesis using L'(2) unfolding grows_def by metis
qed

theorem leader_append_only_witness:
  "\<exists>c c'. timely_run node_ids demo_cluster c \<and> timely_run node_ids c c' \<and> is_leader c' 1 1 \<and>
    entries (storage (inner (procs c' 1))) = [demo_entry] \<and>
    prefix (entries (storage (inner (procs c 1)))) (entries (storage (inner (procs c' 1))))"
proof -
  obtain c c' where c: "run_demo (timely Debug) elect_one = Some c"
      "run_events Debug (mem_storage Debug) node_ids (timely Debug) (drop 5 commit_one) c = Some c'"
      "is_leader c 1 1" "is_leader c' 1 1" "entries (storage (inner (procs c' 1))) = [demo_entry]"
    using commit_one_run by blast
  note run = run_events_timely [OF c(1) [unfolded run_demo_def]] run_events_timely [OF c(2)]
  have "prefix (entries (storage (inner (procs c 1)))) (entries (storage (inner (procs c' 1))))"
    by (rule leader_append_only [OF demo_fresh run _ c(3,4)]) (simp add: node_ids_def)
  then show ?thesis using run c(4,5) by blast
qed

text \<open>C11 (invariant): logs are well formed, in a dev build of a cluster that started with empty logs
  and in which no late vote is counted. Entry \<open>k\<close> of every log has index \<open>k + 1\<close>, the terms
  along a log never decrease, and no entry is of a term that its node has not reached.\<close>

theorem logs_well_formed:
  assumes "fresh_logs M c0" "timely_run M c0 c" "n \<in> M"
  shows "contiguous 1 (entries (storage (inner (procs c n)))) \<and>
    sorted (map le_term (entries (storage (inner (procs c n))))) \<and>
    (\<forall>e \<in> set (entries (storage (inner (procs c n)))). le_term e \<le> current_term (sm (inner (procs c n))))"
proof -
  obtain L led where "cluster_logs M L led c"
    using timely_run_inv [OF assms(1,2)] by blast
  then show ?thesis
    using assms(3) matches_sorted [of L led] by (simp add: cluster_logs_def node_logs_def plain_log_def)
qed

theorem logs_well_formed_witness:
  "\<exists>c. timely_run node_ids demo_cluster c \<and> entries (storage (inner (procs c 2))) = [demo_entry] \<and>
    le_term demo_entry \<le> current_term (sm (inner (procs c 2)))"
proof -
  obtain c c' where c: "run_demo (timely Debug) elect_one = Some c"
      "run_events Debug (mem_storage Debug) node_ids (timely Debug) (drop 5 commit_one) c = Some c'"
      "entries (storage (inner (procs c' 2))) = [demo_entry]"
    using commit_one_run by blast
  have run: "timely_run node_ids demo_cluster c'"
    using run_events_timely [OF c(1) [unfolded run_demo_def]] run_events_timely [OF c(2)]
    unfolding timely_run_def by (rule rtranclp_trans)
  then show ?thesis
    using logs_well_formed [OF demo_fresh run, of 2] c(3) by (auto simp: node_ids_def)
qed

end
