(* ===== verification/Commit_History.thy ===== *)
theory Commit_History
  imports Cluster_Logs
begin

text \<open>
  The history that protects committed entries. Besides the log and the leader of every term it
  records how much of a term's log each node has acknowledged, and the log each node had when it
  voted. An entry is chosen when a majority has acknowledged it in its own term; every leader of a
  later term has the chosen entries in its log.
\<close>

lemma take_eq_shorter: "take j xs = take j ys \<Longrightarrow> k \<le> j \<Longrightarrow> take k xs = take k ys"
  by (metis min.absorb1 take_take)

subsection \<open>The history of a run\<close>

record Past =
  log_of :: "Term \<Rightarrow> LogEntry list"
  leader_of :: "Term \<Rightarrow> NodeId option"
  acked :: "NodeId \<Rightarrow> Term \<Rightarrow> nat"
  ballot :: "NodeId \<Rightarrow> Term \<Rightarrow> LogEntry list option"

text \<open>The voter's log is not newer than the candidate's.\<close>

definition behind :: "LogEntry list \<Rightarrow> LogEntry list \<Rightarrow> bool" where
  "behind xs ys \<longleftrightarrow> up_to_date xs (term_before ys (length ys)) (length ys)"

text \<open>The leader of a later term \<open>u\<close> does not have the first \<open>i\<close> entries of term \<open>t\<close>.\<close>

definition lost :: "Past \<Rightarrow> Term \<Rightarrow> nat \<Rightarrow> Term \<Rightarrow> bool" where
  "lost H t i u \<longleftrightarrow> t < u \<and> leader_of H u \<noteq> None \<and> \<not> prefix (take i (log_of H t)) (log_of H u)"

definition chosen :: "NodeId set \<Rightarrow> Past \<Rightarrow> Term \<Rightarrow> nat \<Rightarrow> bool" where
  "chosen M H t i \<longleftrightarrow> 0 < i \<and> i \<le> length (log_of H t) \<and> le_term (log_of H t ! (i - 1)) = t \<and>
     (\<exists>Q \<subseteq> M. card M < 2 * card Q \<and> (\<forall>v \<in> Q. i \<le> acked H v t))"

text \<open>A recorded leader had the votes of a majority whose logs were behind its own.\<close>

definition won :: "NodeId set \<Rightarrow> Past \<Rightarrow> Term \<Rightarrow> NodeId \<Rightarrow> bool" where
  "won M H t m \<longleftrightarrow> (\<exists>ys Q. ballot H m t = Some ys \<and> prefix ys (log_of H t) \<and> Q \<subseteq> M \<and>
     card M < 2 * card Q \<and> (\<forall>v \<in> Q. \<exists>xs. ballot H v t = Some xs \<and> behind xs ys))"

text \<open>A node that acknowledged \<open>i\<close> entries of term \<open>t\<close> and then voted in a later term still had
  them, unless a leader in between did not.\<close>

definition past_ok :: "NodeId set \<Rightarrow> Past \<Rightarrow> bool" where
  "past_ok M H \<longleftrightarrow> history_ok (log_of H) (leader_of H) \<and>
     (\<forall>t. leader_of H t \<noteq> None \<longrightarrow> 0 < t) \<and>
     (\<forall>v t. acked H v t \<le> length (log_of H t)) \<and>
     (\<forall>v u xs t i. ballot H v u = Some xs \<longrightarrow> t < u \<longrightarrow> i \<le> acked H v t \<longrightarrow>
        prefix (take i (log_of H t)) xs \<or> (\<exists>w < u. lost H t i w)) \<and>
     (\<forall>v t xs. ballot H v t = Some xs \<longrightarrow> matches (log_of H) xs \<and> (\<forall>e \<in> set xs. le_term e < t)) \<and>
     (\<forall>t m. leader_of H t = Some m \<longrightarrow> won M H t m)"

subsection \<open>Every later leader has the chosen entries\<close>

lemma behind_refl [simp]: "behind xs xs"
  by (simp add: behind_def up_to_date_def)

lemma matches_last:
  assumes "matches L xs" "xs \<noteq> []"
  shows "xs = take (length xs) (L (term_before xs (length xs)))"
proof -
  let ?k = "length xs - 1"
  have k: "?k < length xs" "Suc ?k = length xs" using assms(2) by simp_all
  then have "take (length xs) xs = take (length xs) (L (le_term (xs ! ?k)))"
    using assms(1) unfolding matches_def by metis
  then show ?thesis using assms(2) by (simp add: term_before_def)
qed

lemma sorted_last_term:
  assumes "sorted (map le_term xs)" "e \<in> set xs"
  shows "le_term e \<le> term_before xs (length xs)"
proof -
  obtain k where k: "k < length xs" "e = xs ! k" using assms(2) by (metis in_set_conv_nth)
  then have "map le_term xs ! k \<le> map le_term xs ! (length xs - 1)"
    using assms(1) by (intro sorted_nth_mono) auto
  then show ?thesis using k by (auto simp: term_before_def)
qed

text \<open>What the vote comparison is for: if the voter's log holds the prefix \<open>P\<close> of entries up to
  term \<open>t\<close>, so does the candidate's.\<close>

lemma behind_prefix:
  assumes hist: "history_ok L led" and xs: "matches L xs" and ys: "matches L ys" and b: "behind xs ys"
    and p: "prefix P xs" "P \<noteq> []" "\<forall>e \<in> set P. le_term e \<le> t" "le_term (last P) = t"
    and later: "\<And>u. t < u \<Longrightarrow> u = term_before ys (length ys) \<Longrightarrow> led u \<noteq> None \<Longrightarrow> prefix P (L u)"
  shows "prefix P ys"
proof -
  let ?u = "term_before ys (length ys)" and ?w = "term_before xs (length xs)"
  have ne: "xs \<noteq> []" using p(1,2) by auto
  have "last P \<in> set xs" using p(1,2) by (metis last_in_set set_mono_prefix subsetD)
  then have tw: "t \<le> ?w"
    using sorted_last_term matches_sorted [OF hist xs] p(4) by metis
  show ?thesis
  proof (cases "?w = ?u")
    case True
    then have len: "length xs \<le> length ys" using b by (simp add: behind_def up_to_date_def)
    then have ys': "ys \<noteq> []" using ne by auto
    have "xs = take (length xs) (L ?u)" using matches_last [OF xs ne] True by simp
    moreover have "ys = take (length ys) (L ?u)" using matches_last [OF ys ys'] .
    ultimately have "xs = take (length xs) ys" using len by (metis min.absorb1 take_take)
    then show ?thesis using p(1) by (metis prefix_order.trans take_is_prefix)
  next
    case False
    then have u: "t < ?u" using b tw by (auto simp: behind_def up_to_date_def)
    then have ys': "ys \<noteq> []" by (auto simp: term_before_def word_less_nat_alt)
    then have last: "last ys \<in> set ys" "le_term (last ys) = ?u"
      by (simp_all add: term_before_def last_conv_nth)
    then have "led ?u \<noteq> None" using history_none [OF hist ys] by metis
    then have pu: "prefix P (L ?u)" using later u by blast
    have yu: "ys = take (length ys) (L ?u)" using matches_last [OF ys ys'] .
    have "\<not> strict_prefix ys P"
    proof
      assume "strict_prefix ys P"
      then have "last ys \<in> set P" using last(1) by (metis prefix_order.less_imp_le set_mono_prefix subsetD)
      then show False using p(3) last(2) u by fastforce
    qed
    moreover have "prefix ys (L ?u)" using yu by (metis take_is_prefix)
    ultimately show ?thesis using pu by (metis prefix_same_cases prefix_order.le_less)
  qed
qed

theorem chosen_in_later_logs:
  assumes ok: "past_ok M H" and fin: "finite M" and ch: "chosen M H t i"
    and "t < u" "leader_of H u \<noteq> None"
  shows "prefix (take i (log_of H t)) (log_of H u)"
  using assms(4,5)
proof (induction u rule: less_induct)
  case (less u)
  let ?P = "take i (log_of H t)"
  have hist: "history_ok (log_of H) (leader_of H)" using ok by (simp add: past_ok_def)
  obtain m where "leader_of H u = Some m" using less.prems by blast
  then have "won M H u m" using ok by (simp add: past_ok_def)
  then obtain ys Q where w: "ballot H m u = Some ys" "prefix ys (log_of H u)" "Q \<subseteq> M"
      "card M < 2 * card Q" "\<forall>v \<in> Q. \<exists>xs. ballot H v u = Some xs \<and> behind xs ys"
    unfolding won_def by blast
  obtain Q' where Q': "Q' \<subseteq> M" "card M < 2 * card Q'" "\<forall>v \<in> Q'. i \<le> acked H v t"
    using ch unfolding chosen_def by blast
  have "Q \<inter> Q' \<noteq> {}"
    using w(3,4) Q'(1,2) fin by (intro quorum_sizes_meet [of M]) auto
  then obtain v xs where v: "i \<le> acked H v t" "ballot H v u = Some xs" "behind xs ys"
    using Q'(3) w(5) by blast
  have "\<not> lost H t i w" if "w < u" for w
    using less.IH [OF that] unfolding lost_def by blast
  then have "prefix ?P xs"
    using ok v(1,2) less.prems(1) unfolding past_ok_def by blast
  moreover have i: "0 < i" "i \<le> length (log_of H t)" "le_term (log_of H t ! (i - 1)) = t"
    using ch by (simp_all add: chosen_def)
  have P: "?P \<noteq> []" using i(1,2) by auto
  then have last: "le_term (last ?P) = t"
    using i by (simp add: last_conv_nth)
  have le: "\<forall>e \<in> set ?P. le_term e \<le> t"
    using hist by (auto simp: history_ok_def dest: in_set_takeD)
  have xy: "matches (log_of H) xs" "matches (log_of H) ys" "\<forall>e \<in> set ys. le_term e < u"
    using ok v(2) w(1) unfolding past_ok_def by blast+
  have "prefix ?P (log_of H x)"
    if x: "t < x" "x = term_before ys (length ys)" "leader_of H x \<noteq> None" for x
  proof -
    have "0 < x" using x(1) by (simp add: word_less_nat_alt)
    then have "ys \<noteq> []" using x(2) by (auto simp: term_before_def)
    then have "x < u" using xy(3) x(2) by (simp add: term_before_def)
    then show ?thesis using less.IH x by blast
  qed
  ultimately have "prefix ?P ys"
    using behind_prefix [OF hist xy(1,2) v(3) _ P le last] by blast
  then show ?case using w(2) by (rule prefix_order.trans)
qed

text \<open>Two chosen prefixes agree.\<close>

lemma chosen_agree:
  assumes "past_ok M H" "finite M" "chosen M H t i" "chosen M H u j" "k \<le> i" "k \<le> j"
  shows "take k (log_of H t) = take k (log_of H u)"
proof -
  have *: "take k (log_of H t) = take k (log_of H u)"
    if a: "chosen M H t i" "chosen M H u j" "k \<le> i" "k \<le> j" "t < u" for t u i j
  proof -
    have "log_of H u \<noteq> []" using a(2) by (auto simp: chosen_def)
    then have "leader_of H u \<noteq> None" using assms(1) by (auto simp: past_ok_def history_ok_def)
    then have "prefix (take i (log_of H t)) (log_of H u)"
      using chosen_in_later_logs [OF assms(1,2) a(1,5)] by simp
    then have "take k (take i (log_of H t)) = take k (log_of H u)"
      using a(1,3) by (auto simp: prefix_def chosen_def)
    then show ?thesis using a(3) by (simp add: min_def)
  qed
  consider "t < u" | "u < t" | "t = u" by (rule linorder_cases) auto
  then show ?thesis
  proof cases
    case 1
    then show ?thesis by (rule * [OF assms(3-6)])
  next
    case 2
    then show ?thesis by (rule * [OF assms(4,3,6,5), symmetric])
  qed simp
qed

subsection \<open>How the history grows\<close>

definition later :: "NodeId \<Rightarrow> Past \<Rightarrow> Past \<Rightarrow> bool" where
  "later n H H' \<longleftrightarrow> extends n (log_of H) (leader_of H) (log_of H') (leader_of H') \<and>
     (\<forall>v t. acked H v t \<le> acked H' v t) \<and> (\<forall>v t. v \<noteq> n \<longrightarrow> acked H' v t = acked H v t) \<and>
     (\<forall>v t xs. ballot H v t = Some xs \<longrightarrow> ballot H' v t = Some xs) \<and>
     (\<forall>v t. v \<noteq> n \<longrightarrow> ballot H' v t = ballot H v t)"

lemma extends_trans:
  assumes "extends n L led L1 led1" "extends n L1 led1 L2 led2"
  shows "extends n L led L2 led2"
  unfolding extends_def grows_def
proof (intro conjI allI impI)
  fix t
  show "prefix (L t) (L2 t)"
    using assms by (blast dest: extends_prefix intro: prefix_order.trans)
  show "led2 t = led t \<or> led t = None \<and> led2 t = Some n"
    using assms unfolding extends_def by (metis option.distinct(1))
  show "L2 t = L t \<or> led2 t = Some n"
    using assms extends_led [OF assms(2)] unfolding extends_def by metis
next
  fix t assume t: "led t \<noteq> None"
  then obtain es where es: "L1 t = L t @ es" "\<forall>e \<in> set es. le_term e = t"
    using assms(1) by (auto simp: extends_def)
  have "led1 t \<noteq> None" using assms(1) t by (auto dest: extends_led)
  then obtain fs where "L2 t = L1 t @ fs" "\<forall>e \<in> set fs. le_term e = t"
    using assms(2) by (auto simp: extends_def)
  then show "\<exists>es. L2 t = L t @ es \<and> (\<forall>e \<in> set es. le_term e = t)"
    using es by (intro exI [of _ "es @ fs"]) auto
qed

lemma later_refl [simp]: "later n H H"
  by (simp add: later_def)

lemma later_trans:
  assumes "later n H H1" "later n H1 H2"
  shows "later n H H2"
proof -
  have "extends n (log_of H) (leader_of H) (log_of H2) (leader_of H2)"
    using assms extends_trans by (auto simp: later_def)
  moreover have "acked H v t \<le> acked H2 v t" for v t
    using assms order.trans [of "acked H v t" "acked H1 v t"] by (simp add: later_def)
  ultimately show ?thesis
    using assms by (simp add: later_def)
qed

lemma later_prefix: "later n H H' \<Longrightarrow> prefix (log_of H t) (log_of H' t)"
  by (auto simp: later_def dest: extends_prefix)

lemma later_take:
  "later n H H' \<Longrightarrow> i \<le> length (log_of H t) \<Longrightarrow> take i (log_of H' t) = take i (log_of H t)"
  using later_prefix [of n H H' t] by (auto simp: prefix_def)

lemma later_length: "later n H H' \<Longrightarrow> length (log_of H t) \<le> length (log_of H' t)"
  by (auto dest: later_prefix prefix_length_le)

lemma later_leader: "later n H H' \<Longrightarrow> leader_of H t \<noteq> None \<Longrightarrow> leader_of H' t \<noteq> None"
  by (auto simp: later_def dest: extends_led)

lemma later_acked: "later n H H' \<Longrightarrow> i \<le> acked H v t \<Longrightarrow> i \<le> acked H' v t"
  by (auto simp: later_def intro: order.trans)

lemma later_ballot: "later n H H' \<Longrightarrow> ballot H v t = Some xs \<Longrightarrow> ballot H' v t = Some xs"
  by (simp add: later_def)

lemma chosen_later:
  assumes "chosen M H t i" "later n H H'"
  shows "chosen M H' t i"
proof -
  have i: "0 < i" "i \<le> length (log_of H t)" "le_term (log_of H t ! (i - 1)) = t"
    using assms(1) by (simp_all add: chosen_def)
  then have "log_of H' t ! (i - 1) = log_of H t ! (i - 1)"
    using later_prefix [OF assms(2), of t] by (auto simp: prefix_def nth_append)
  moreover have "\<exists>Q \<subseteq> M. card M < 2 * card Q \<and> (\<forall>v \<in> Q. i \<le> acked H' v t)"
    using assms later_acked unfolding chosen_def by meson
  ultimately show ?thesis
    using i later_length [OF assms(2), of t] by (simp add: chosen_def)
qed

text \<open>The log of a led term gets entries of that term only, so what a leader does not have it
  never gets.\<close>

lemma lost_later:
  assumes hist: "history_ok (log_of H) (leader_of H)" and i: "i \<le> length (log_of H t)"
    and l: "later n H H'" and lost: "lost H t i u"
  shows "lost H' t i u"
proof -
  let ?P = "take i (log_of H t)"
  have u: "t < u" "leader_of H u \<noteq> None" "\<not> prefix ?P (log_of H u)"
    using lost by (simp_all add: lost_def)
  obtain es where es: "log_of H' u = log_of H u @ es" "\<forall>e \<in> set es. le_term e = u"
    using l u(2) unfolding later_def extends_def by blast
  have "\<not> prefix ?P (log_of H' u)"
  proof
    assume "prefix ?P (log_of H' u)"
    then obtain zs where zs: "?P = log_of H u @ zs" "prefix zs es"
      using u(3) es(1) by (auto simp: prefix_append)
    then have "zs \<noteq> []" using u(3) by auto
    then obtain e where e: "e \<in> set zs" by (meson list.set_sel(1))
    then have "e \<in> set es" using zs(2) by (metis set_mono_prefix subsetD)
    moreover have "e \<in> set (log_of H t)" using zs(1) e by (metis Un_iff in_set_takeD set_append)
    ultimately show False using es(2) hist u(1) by (fastforce simp: history_ok_def)
  qed
  then show ?thesis
    using u later_take [OF l i] later_leader [OF l] by (simp add: lost_def)
qed

lemma won_later:
  assumes "won M H t m" "later n H H'"
  shows "won M H' t m"
proof -
  obtain ys Q where w: "ballot H m t = Some ys" "prefix ys (log_of H t)" "Q \<subseteq> M"
      "card M < 2 * card Q" "\<forall>v \<in> Q. \<exists>xs. ballot H v t = Some xs \<and> behind xs ys"
    using assms(1) unfolding won_def by blast
  moreover have "prefix ys (log_of H' t)"
    using w(2) later_prefix [OF assms(2)] by (rule prefix_order.trans)
  ultimately show ?thesis
    using later_ballot [OF assms(2)] unfolding won_def by meson
qed

text \<open>What a step has to show about its additions to keep the history in order.\<close>

lemma past_later:
  assumes ok: "past_ok M H" and l: "later n H H'"
    and hist: "history_ok (log_of H') (leader_of H')"
    and lead: "\<And>t m. leader_of H' t = Some m \<Longrightarrow> leader_of H t = None \<Longrightarrow> 0 < t \<and> won M H' t m"
    and ack: "\<And>t. acked H' n t \<noteq> acked H n t \<Longrightarrow>
      acked H' n t \<le> length (log_of H' t) \<and> (\<forall>u. t < u \<longrightarrow> ballot H' n u = None)"
    and bal: "\<And>u xs t i. ballot H' n u = Some xs \<Longrightarrow> ballot H n u = None \<Longrightarrow> t < u \<Longrightarrow>
      i \<le> acked H n t \<Longrightarrow> prefix (take i (log_of H t)) xs \<or> (\<exists>w < u. lost H t i w)"
    and bal': "\<And>u xs. ballot H' n u = Some xs \<Longrightarrow> ballot H n u = None \<Longrightarrow>
      matches (log_of H') xs \<and> (\<forall>e \<in> set xs. le_term e < u)"
  shows "past_ok M H'"
proof -
  have old: "history_ok (log_of H) (leader_of H)" "acked H v t \<le> length (log_of H t)" for v t
    using ok by (simp_all add: past_ok_def)
  have "0 < t \<and> won M H' t m" if m: "leader_of H' t = Some m" for t m
  proof (cases "leader_of H t")
    case (Some m')
    then have "m' = m" using m l by (auto simp: later_def dest: extends_led)
    moreover have "0 < t" "won M H t m'" using Some ok by (auto simp: past_ok_def)
    ultimately show ?thesis using won_later [OF _ l] by simp
  qed (use lead m in blast)
  moreover have "acked H' v t \<le> length (log_of H' t)" for v t
  proof (cases "acked H' v t = acked H v t")
    case True
    then show ?thesis using old(2) [of v t] later_length [OF l, of t] by simp
  next
    case False
    then have "v = n" using l by (auto simp: later_def)
    then show ?thesis using ack False by blast
  qed
  moreover have "prefix (take i (log_of H' t)) xs \<or> (\<exists>w < u. lost H' t i w)"
    if b: "ballot H' v u = Some xs" "t < u" "i \<le> acked H' v t" for v u xs t i
  proof -
    have a: "i \<le> acked H v t"
    proof (cases "v = n")
      case True
      then show ?thesis using b ack [of t] by force
    next
      case False
      then show ?thesis using b(3) l by (simp add: later_def)
    qed
    have "prefix (take i (log_of H t)) xs \<or> (\<exists>w < u. lost H t i w)"
    proof (cases "ballot H v u")
      case None
      then have "v = n" using b(1) l by (metis later_def option.distinct(1))
      then show ?thesis using bal b(1,2) a None by blast
    next
      case (Some ys)
      then have "ballot H v u = Some xs" using b(1) later_ballot [OF l] by force
      then show ?thesis using ok b(2) a unfolding past_ok_def by blast
    qed
    moreover have i: "i \<le> length (log_of H t)" using a old(2) by (rule order.trans)
    ultimately show ?thesis
      using lost_later [OF old(1) i l] later_take [OF l i] by metis
  qed
  moreover have "matches (log_of H') xs \<and> (\<forall>e \<in> set xs. le_term e < u)"
    if b: "ballot H' v u = Some xs" for v u xs
  proof (cases "ballot H v u")
    case None
    then have "v = n" using b l by (metis later_def option.distinct(1))
    then show ?thesis using bal' b None by blast
  next
    case (Some ys)
    then have "ballot H v u = Some xs" using b later_ballot [OF l] by force
    then have "matches (log_of H) xs \<and> (\<forall>e \<in> set xs. le_term e < u)"
      using ok unfolding past_ok_def by blast
    then show ?thesis using l by (auto simp: later_def extends_def intro: matches_grows)
  qed
  ultimately show ?thesis
    using hist unfolding past_ok_def by (metis option.exhaust)
qed

end
