(* ===== verification/Commit_Node.thy ===== *)
theory Commit_Node
  imports Commit_History
begin

text \<open>
  Committed entries, node by node. The invariant ties the state of a node, its requests and its
  responses to the history, and every operation of a node preserves it, adding to the history what
  the node writes, acknowledges or votes for. Two hypotheses exclude what the code gets wrong: a
  response is counted only in the term it is of (\<open>prompt\<close>), and a request never merely cuts a
  log short (an assumption of the lemmas on \<^verbatim>\<open>on_append_entries\<close>).
\<close>

text \<open>A response is counted only in the term it is of: \<^verbatim>\<open>handle_vote_response\<close> and
  \<^verbatim>\<open>handle_append_response\<close> do not check this.\<close>

definition prompt :: "MemStorageInner env" where
  "prompt g m \<longleftrightarrow> timely Debug g m \<and> (case m of
     Some (AppendResponse _ _ resp) \<Rightarrow> success resp \<longrightarrow> current_term (sm g) \<le> aer_term resp
   | _ \<Rightarrow> True)"

subsection \<open>What holds of a node\<close>

text \<open>What a node has acknowledged is in its log, unless a later leader did not have it.\<close>

definition acks_ok :: "Past \<Rightarrow> NodeId \<Rightarrow> MemStorageInner RaftNodeInner \<Rightarrow> bool" where
  "acks_ok H n g \<longleftrightarrow> (\<forall>t. acked H n t \<noteq> 0 \<longrightarrow> t \<le> current_term (sm g)) \<and>
     (\<forall>t i. i \<le> acked H n t \<longrightarrow> prefix (take i (log_of H t)) (entries (storage g)) \<or>
       (\<exists>u \<le> current_term (sm g). lost H t i u))"

text \<open>The ballot of a term is recorded while the term has no leader.\<close>

definition ballots_ok :: "Past \<Rightarrow> NodeId \<Rightarrow> MemStorageInner RaftNodeInner \<Rightarrow> bool" where
  "ballots_ok H n g \<longleftrightarrow> (let ct = current_term (sm g) in
     (\<forall>t. ballot H n t \<noteq> None \<longrightarrow> t \<le> ct) \<and>
     (\<forall>xs. ballot H n ct = Some xs \<longrightarrow>
       (\<exists>x ys. voted_for (sm g) = Some x \<and> ballot H x ct = Some ys \<and> behind xs ys)) \<and>
     (role (sm g) = Candidate \<longrightarrow> 0 < ct \<and> (leader_of H ct = None \<longrightarrow>
       ballot H n ct = Some (entries (storage g)) \<and>
       (\<forall>v \<in> votes_received (sm g). \<exists>xs. ballot H v ct = Some xs \<and> behind xs (entries (storage g))))))"

text \<open>A leader has its whole log, and the matching entries it knows of are acknowledged.\<close>

definition leads_ok :: "Past \<Rightarrow> NodeId \<Rightarrow> MemStorageInner RaftNodeInner \<Rightarrow> bool" where
  "leads_ok H n g \<longleftrightarrow> (let ct = current_term (sm g) in
     role (sm g) = Leader \<longrightarrow> 0 < ct \<and> acked H n ct = length (entries (storage g)) \<and>
       (\<forall>(x, pr) \<in> set (progress (sm g)). unat (match_index pr) \<le> acked H x ct))"

text \<open>The first \<open>c\<close> entries of a log are part of the chosen entries of a term up to \<open>t\<close>.\<close>

definition committed :: "NodeId set \<Rightarrow> Past \<Rightarrow> Term \<Rightarrow> LogEntry list \<Rightarrow> nat \<Rightarrow> bool" where
  "committed M H t xs c \<longleftrightarrow> c = 0 \<or> (\<exists>s i. chosen M H s i \<and> c \<le> i \<and> s \<le> t \<and> c \<le> length xs \<and>
     take c xs = take c (log_of H s))"

definition commits_ok :: "NodeId set \<Rightarrow> Past \<Rightarrow> MemStorageInner RaftNodeInner \<Rightarrow> bool" where
  "commits_ok M H g \<longleftrightarrow>
     committed M H (current_term (sm g)) (entries (storage g)) (unat (commit_index (sm g))) \<and>
     (\<forall>e \<in> set (applied g). \<exists>k < unat (commit_index (sm g)).
       k < length (entries (storage g)) \<and> e = entries (storage g) ! k)"

fun task_safe :: "NodeId set \<Rightarrow> Past \<Rightarrow> NodeId \<Rightarrow> RpcTask \<Rightarrow> bool" where
  "task_safe M H n (VoteTask to req) \<longleftrightarrow> leader_of H (rv_term req) = None \<longrightarrow>
     (\<exists>ys. ballot H n (rv_term req) = Some ys \<and> unat (last_log_index req) = length ys \<and>
       last_log_term req = term_before ys (length ys))"
| "task_safe M H n (AppendTask to i req) \<longleftrightarrow>
     unat i = unat (prev_log_index req) + length (ae_entries req) \<and>
     (slice_of (log_of H (ae_term req)) req \<and>
        (ae_entries req = [] \<longrightarrow> unat (leader_commit req) \<le> unat (prev_log_index req)) \<or>
      ae_entries req = [] \<and> prev_log_index req \<noteq> 0 \<and> prev_log_term req = 0) \<and>
     committed M H (ae_term req) (log_of H (ae_term req)) (unat (leader_commit req))"
| "task_safe M H n (SnapshotTask to i req) \<longleftrightarrow> False"

fun reply_safe :: "Past \<Rightarrow> NodeId \<Rightarrow> RaftMessage \<Rightarrow> bool" where
  "reply_safe H n (VoteResponse v resp) \<longleftrightarrow>
     vote_granted resp \<longrightarrow> leader_of H (rvr_term resp) = None \<longrightarrow>
     (\<exists>xs ys. ballot H v (rvr_term resp) = Some xs \<and> ballot H n (rvr_term resp) = Some ys \<and>
       behind xs ys)"
| "reply_safe H n (AppendResponse v i resp) \<longleftrightarrow>
     success resp \<longrightarrow> unat i \<le> acked H v (aer_term resp)"
| "reply_safe H n (SnapshotResponse v i resp) \<longleftrightarrow> False"
| "reply_safe H n _ \<longleftrightarrow> True"

definition node_safe :: "NodeId set \<Rightarrow> Past \<Rightarrow> NodeId \<Rightarrow> MemStorageInner RaftNodeInner \<Rightarrow> bool" where
  "node_safe M H n g \<longleftrightarrow> acks_ok H n g \<and> ballots_ok H n g \<and> leads_ok H n g \<and> commits_ok M H g \<and>
     (\<forall>t \<in> set (spawned g). task_safe M H n t)"

subsection \<open>The history grows\<close>

lemma committed_later:
  assumes "committed M H t xs c" "later n H H'" "t \<le> t'"
    and "c \<le> length xs \<Longrightarrow> c \<le> length ys \<and> take c ys = take c xs"
  shows "committed M H' t' ys c"
proof (cases "c = 0")
  case False
  then obtain s i where s: "chosen M H s i" "c \<le> i" "s \<le> t" "c \<le> length xs" "take c xs = take c (log_of H s)"
    using assms(1) by (auto simp: committed_def)
  have "c \<le> length (log_of H s)" using s(1,2) by (simp add: chosen_def)
  then have "take c ys = take c (log_of H' s)"
    using later_take [OF assms(2)] s(4,5) assms(4) by simp
  then show ?thesis
    using s assms(3,4) chosen_later [OF s(1) assms(2)] unfolding committed_def by (meson order.trans)
qed (simp add: committed_def)

lemma committed_sub:
  assumes "committed M H t xs c" "c' \<le> c" "c' \<le> length ys" "take c' ys = take c' xs"
  shows "committed M H t ys c'"
proof (cases "c' = 0")
  case False
  then obtain s i where s: "chosen M H s i" "c \<le> i" "s \<le> t" "take c xs = take c (log_of H s)"
    using assms(1,2) by (auto simp: committed_def)
  have "take c' ys = take c' (log_of H s)"
    using assms(4) take_eq_shorter [OF s(4) assms(2)] by simp
  then show ?thesis
    using s assms(2,3) unfolding committed_def by (meson order.trans)
qed (simp add: committed_def)

lemma task_safe_later:
  assumes "task_safe M H m t" "later n H H'"
  shows "task_safe M H' m t"
proof (cases t)
  case (VoteTask to req)
  then show ?thesis
    using assms later_leader [OF assms(2), of "rv_term req"] later_ballot [OF assms(2)]
    by auto
next
  case (AppendTask to i req)
  let ?c = "unat (leader_commit req)" and ?L = "log_of H (ae_term req)"
  have "committed M H (ae_term req) ?L ?c" using assms(1) AppendTask by simp
  then have "committed M H' (ae_term req) (log_of H' (ae_term req)) ?c"
    by (rule committed_later [OF _ assms(2) order.refl])
      (use later_take [OF assms(2)] later_length [OF assms(2), of "ae_term req"] in auto)
  moreover have "slice_of ?L req \<Longrightarrow> slice_of (log_of H' (ae_term req)) req"
    by (rule slice_of_grows [OF _ later_prefix [OF assms(2)]])
  ultimately show ?thesis using assms(1) AppendTask by auto
qed (use assms in simp)

lemma reply_safe_later:
  assumes "reply_safe H m msg" "later n H H'"
  shows "reply_safe H' m msg"
proof (cases msg)
  case (VoteResponse v resp)
  then show ?thesis
    using assms later_leader [OF assms(2), of "rvr_term resp"] later_ballot [OF assms(2)]
    by auto
next
  case (AppendResponse v i resp)
  then show ?thesis using assms later_acked [OF assms(2)] by auto
qed (use assms in auto)

lemma acks_ok_later:
  assumes "past_ok M H" "acks_ok H m g" "later n H H'" "m \<noteq> n"
  shows "acks_ok H' m g"
proof -
  have a: "acked H' m t = acked H m t" for t using assms(3,4) by (simp add: later_def)
  have hist: "history_ok (log_of H) (leader_of H)" and len: "acked H m t \<le> length (log_of H t)" for t
    using assms(1) by (simp_all add: past_ok_def)
  show ?thesis
    unfolding acks_ok_def a
  proof (intro conjI allI impI)
    fix t i assume i: "i \<le> acked H m t"
    then have i': "i \<le> length (log_of H t)" using len by (rule order.trans)
    show "prefix (take i (log_of H' t)) (entries (storage g)) \<or> (\<exists>u\<le>current_term (sm g). lost H' t i u)"
      using assms(2) i lost_later [OF hist i' assms(3)] unfolding acks_ok_def later_take [OF assms(3) i']
      by blast
  qed (use assms(2) in \<open>simp add: acks_ok_def\<close>)
qed

lemma ballots_ok_later:
  assumes "ballots_ok H m g" "later n H H'" "m \<noteq> n"
  shows "ballots_ok H' m g"
proof -
  have b: "ballot H' m t = ballot H m t" for t using assms(2,3) by (simp add: later_def)
  show ?thesis
    using assms(1) later_ballot [OF assms(2)] later_leader [OF assms(2), of "current_term (sm g)"]
    unfolding ballots_ok_def Let_def b by blast
qed

lemma node_safe_later:
  assumes "past_ok M H" "node_safe M H m g" "later n H H'" "m \<noteq> n"
  shows "node_safe M H' m g"
proof -
  have "leads_ok H' m g"
    using assms(2-4) later_acked [OF assms(3)] by (fastforce simp: node_safe_def leads_ok_def Let_def later_def)
  moreover have "commits_ok M H' g"
    using assms(2) committed_later [OF _ assms(3) order.refl] by (auto simp: node_safe_def commits_ok_def)
  ultimately show ?thesis
    using assms acks_ok_later ballots_ok_later task_safe_later unfolding node_safe_def by metis
qed

lemma acks_ok_cong:
  "acks_ok H n g \<Longrightarrow> current_term (sm g) \<le> current_term (sm g') \<Longrightarrow>
   entries (storage g') = entries (storage g) \<Longrightarrow> acks_ok H n g'"
  unfolding acks_ok_def by (simp only:) (blast intro: order.trans)

lemma node_safe_steady:
  assumes "node_safe M H n g" "steady g g'"
  shows "node_safe M H n g'"
proof -
  let ?t = "current_term (sm g)" and ?t' = "current_term (sm g')"
  have k: "entries (storage g') = entries (storage g)" "spawned g' = spawned g" "applied g' = applied g"
      "commit_index (sm g') = commit_index (sm g)"
    using assms(2) by (simp_all add: steady_def keeps_def)
  have le: "?t \<le> ?t'" using assms(2) by (auto simp: steady_def)
  have "acks_ok H n g"
    using assms(1) by (simp add: node_safe_def)
  then have "acks_ok H n g'"
    using le k(1) by (rule acks_ok_cong)
  moreover have "ballots_ok H n g'"
  proof (cases "?t' = ?t")
    case True
    then have "voted_for (sm g') = voted_for (sm g)" "role (sm g') = role (sm g)"
        "votes_received (sm g') = votes_received (sm g)"
      using assms(2) by (auto simp: steady_def)
    then have "ballots_ok H n g' = ballots_ok H n g"
      using True k(1) by (simp only: ballots_ok_def)
    then show ?thesis using assms(1) by (simp add: node_safe_def)
  next
    case False
    then have "?t < ?t'" "role (sm g') = Follower" using assms(2) by (auto simp: steady_def)
    moreover have b: "\<forall>t. ballot H n t \<noteq> None \<longrightarrow> t \<le> ?t"
      using assms(1) unfolding node_safe_def ballots_ok_def Let_def by blast
    moreover from this \<open>?t < ?t'\<close> have "ballot H n ?t' = None"
      using not_le by blast
    ultimately show ?thesis
      using order.trans [OF _ le] by (simp add: ballots_ok_def Let_def)
  qed
  moreover have "leads_ok H n g'"
    using assms k(1) by (auto simp: node_safe_def leads_ok_def Let_def steady_def)
  moreover have "committed M H ?t' (entries (storage g)) (unat (commit_index (sm g)))"
    using assms(1) le by (auto simp: node_safe_def commits_ok_def intro: committed_later [OF _ later_refl])
  ultimately show ?thesis
    using assms(1) k by (simp add: node_safe_def commits_ok_def)
qed

subsection \<open>Votes\<close>

text \<open>The ballot of the current term, unless the term has a leader or the node has voted.\<close>

definition cast_ballot :: "NodeId \<Rightarrow> MemStorageInner RaftNodeInner \<Rightarrow> Past \<Rightarrow> Past" where
  "cast_ballot n g H = (let ct = current_term (sm g) in
     if leader_of H ct = None \<and> ballot H n ct = None
     then H\<lparr>ballot := (ballot H)(n := (ballot H n)(ct \<mapsto> entries (storage g)))\<rparr> else H)"

lemma cast_ballot_simps [simp]:
  "log_of (cast_ballot n g H) = log_of H" "leader_of (cast_ballot n g H) = leader_of H"
  "acked (cast_ballot n g H) = acked H"
  by (simp_all add: cast_ballot_def Let_def)

lemma cast_ballot_frames [simp]:
  "lost (cast_ballot n g H) = lost H" "chosen M (cast_ballot n g H) = chosen M H"
  "committed M (cast_ballot n g H) = committed M H" "acks_ok (cast_ballot n g H) = acks_ok H"
  "commits_ok M (cast_ballot n g H) = commits_ok M H" "leads_ok (cast_ballot n g H) = leads_ok H"
  by (simp_all add: lost_def chosen_def committed_def acks_ok_def commits_ok_def leads_ok_def fun_eq_iff)

lemma cast_ballot_new:
  assumes "ballot (cast_ballot n g H) v t = Some xs" "ballot H v t = None"
  shows "v = n" "t = current_term (sm g)" "leader_of H t = None" "xs = entries (storage g)"
  using assms by (auto simp: cast_ballot_def Let_def split: if_splits)

lemma cast_ballot_past:
  assumes ok: "past_ok M H" and logs: "node_logs (log_of H) (leader_of H) n g" and acks: "acks_ok H n g"
  shows "later n H (cast_ballot n g H)" "past_ok M (cast_ballot n g H)"
proof -
  let ?ct = "current_term (sm g)" and ?H = "cast_ballot n g H" and ?xs = "entries (storage g)"
  show l: "later n H ?H"
    by (auto simp: later_def cast_ballot_def Let_def)
  have hist: "history_ok (log_of H) (leader_of H)" using ok by (simp add: past_ok_def)
  show "past_ok M ?H"
  proof (rule past_later [OF ok l])
    fix u xs t i assume u: "ballot ?H n u = Some xs" "ballot H n u = None" "t < u" "i \<le> acked H n t"
    note new = cast_ballot_new [OF u(1,2)]
    have "\<not> lost H t i u" using new(3) by (simp add: lost_def)
    then show "prefix (take i (log_of H t)) xs \<or> (\<exists>w < u. lost H t i w)"
      using acks u(4) new(2,4) unfolding acks_ok_def by (metis order.not_eq_order_implies_strict)
  next
    fix u xs assume u: "ballot ?H n u = Some xs" "ballot H n u = None"
    note new = cast_ballot_new [OF u]
    have "matches (log_of H) ?xs" "\<forall>e \<in> set ?xs. le_term e \<le> ?ct"
      using logs by (simp_all add: node_logs_def)
    moreover from this have "\<forall>e \<in> set ?xs. le_term e \<noteq> ?ct"
      using history_none [OF hist _ ] new(2,3) by metis
    ultimately show "matches (log_of ?H) xs \<and> (\<forall>e \<in> set xs. le_term e < u)"
      using new(2,4) by (auto simp: order.strict_iff_order)
  qed (use hist in auto)
qed

text \<open>A node grants a vote.\<close>

lemma grant_safe:
  assumes safe: "node_safe M H n g" and logs: "node_logs (log_of H) (leader_of H) n g"
    and task: "task_safe M H x (VoteTask n req)"
    and t: "rv_term req = current_term (sm g)" and vote: "voted_for (sm g) \<in> {None, Some x}"
    and up: "up_to_date (entries (storage g)) (last_log_term req) (unat (last_log_index req))"
    and k: "keeps g g'" "sm g' = (sm g)\<lparr>voted_for := Some x\<rparr>"
  shows "node_safe M (cast_ballot n g H) n g'"
    "reply_safe (cast_ballot n g H) x (VoteResponse n \<lparr>rvr_term = rv_term req, vote_granted = True\<rparr>)"
proof -
  let ?ct = "current_term (sm g)" and ?H = "cast_ballot n g H" and ?xs = "entries (storage g)"
  have e: "entries (storage g') = ?xs" "applied g' = applied g" "spawned g' = spawned g"
    using k(1) by (simp_all add: keeps_def)
  have l: "later n H ?H" by (auto simp: later_def cast_ballot_def Let_def)
  have b: "ballots_ok H n g" using safe by (simp add: node_safe_def)
  have mine: "\<exists>ys. ballot ?H x ?ct = Some ys \<and> behind xs ys" if xs: "ballot ?H n ?ct = Some xs" for xs
  proof (cases "ballot H n ?ct")
    case None
    note new = cast_ballot_new [OF xs None]
    obtain ys where ys: "ballot H x ?ct = Some ys" "unat (last_log_index req) = length ys"
        "last_log_term req = term_before ys (length ys)"
      using task t new(3) by auto
    then show ?thesis
      using up new(4) later_ballot [OF l] by (auto simp: behind_def)
  next
    case (Some zs)
    then have "ballot H n ?ct = Some xs" using xs later_ballot [OF l] by force
    then obtain y ys where "voted_for (sm g) = Some y" "ballot H y ?ct = Some ys" "behind xs ys"
      using b unfolding ballots_ok_def Let_def by blast
    then show ?thesis using vote later_ballot [OF l] by auto
  qed
  have "ballots_ok ?H n g'"
  proof -
    have "ballot ?H n t \<noteq> None \<Longrightarrow> t \<le> ?ct" for t
    proof (cases "ballot H n t")
      case None
      then show "ballot ?H n t \<noteq> None \<Longrightarrow> t \<le> ?ct"
        using cast_ballot_new(2) by blast
    qed (use b in \<open>auto simp: ballots_ok_def Let_def\<close>)
    then show ?thesis
      using b mine e(1) k(2) later_ballot [OF l] by (auto simp: ballots_ok_def Let_def)
  qed
  moreover have "acks_ok ?H n g'" "leads_ok ?H n g'" "commits_ok M ?H g'"
    using safe e k(2) by (simp_all add: node_safe_def acks_ok_def leads_ok_def commits_ok_def)
  moreover have "\<forall>t \<in> set (spawned g'). task_safe M ?H n t"
    using safe e(3) task_safe_later [OF _ l] by (simp add: node_safe_def)
  ultimately show "node_safe M ?H n g'" by (simp add: node_safe_def)
  have "leader_of H ?ct = None \<Longrightarrow> \<exists>xs. ballot ?H n ?ct = Some xs"
    by (auto simp: cast_ballot_def Let_def)
  then show "reply_safe ?H x (VoteResponse n \<lparr>rvr_term = rv_term req, vote_granted = True\<rparr>)"
    using mine t by auto
qed

subsection \<open>Leaders\<close>

text \<open>A leader's requests.\<close>

lemma sends_safe:
  assumes safe: "node_safe M H n g" and logs: "log_of H (current_term (sm g)) = entries (storage g)"
    and s: "sends ps g g'"
  shows "node_safe M H n g'"
proof -
  obtain ts where ts: "g' = g\<lparr>spawned := spawned g @ ts\<rparr>" "\<forall>t \<in> set ts. leader_request g t"
    using s by (auto simp: sends_def)
  have c: "committed M H (current_term (sm g)) (entries (storage g)) (unat (commit_index (sm g)))"
    using safe by (simp add: node_safe_def commits_ok_def)
  have "task_safe M H n t" if "leader_request g t" for t
  proof (cases t)
    case (AppendTask to i req)
    have "unat (commit_index (sm g)) \<le> length (entries (storage g))"
      using c by (auto simp: committed_def)
    then show ?thesis using that AppendTask c logs by auto
  qed (use that in auto)
  then show ?thesis
    using safe ts by (auto simp: node_safe_def acks_ok_def ballots_ok_def leads_ok_def commits_ok_def)
qed

text \<open>A step of node \<open>n\<close> and what it adds to the history.\<close>

definition advances ::
  "NodeId set \<Rightarrow> NodeId \<Rightarrow> Past \<Rightarrow> MemStorageInner RaftNodeInner \<Rightarrow> Past \<Rightarrow> bool" where
  "advances M n H g' H' \<longleftrightarrow> log_step n (log_of H) (leader_of H) g' (log_of H') (leader_of H') \<and>
     later n H H' \<and> past_ok M H' \<and> node_safe M H' n g'"

text \<open>A leader has the votes of a majority, and no other node is recorded for its term.\<close>

definition entitled :: "NodeId set \<Rightarrow> Past \<Rightarrow> NodeId \<Rightarrow> MemStorageInner RaftNodeInner \<Rightarrow> bool" where
  "entitled M H n g \<longleftrightarrow> (role (sm g) = Leader \<longrightarrow>
     leader_of H (current_term (sm g)) \<in> {None, Some n} \<and> votes_received (sm g) \<subseteq> M \<and>
     card M < 2 * card (votes_received (sm g)))"

lemma advances_quiet:
  assumes "past_ok M H" "node_logs (log_of H) (leader_of H) n g'" "node_safe M H n g'"
  shows "\<exists>H'. advances M n H g' H'"
proof -
  have "advances M n H g' H"
    using assms by (simp add: advances_def log_step_same past_ok_def)
  then show ?thesis by blast
qed

lemma log_step_leader:
  assumes "log_step n L led g' L' led'" "role (sm g') = Leader"
  shows "L' = L(current_term (sm g') := entries (storage g'))" "led' = led(current_term (sm g') := Some n)"
proof -
  let ?t = "current_term (sm g')"
  have "L' ?t = entries (storage g')" "led' ?t = Some n"
    using assms by (simp_all add: log_step_def node_logs_def)
  moreover have "\<forall>t. t \<noteq> ?t \<longrightarrow> L' t = L t \<and> led' t = led t"
    using assms(1) unfolding log_step_def by blast
  ultimately show "L' = L(?t := entries (storage g'))" "led' = led(?t := Some n)"
    by (auto simp: fun_eq_iff)
qed

definition write_log :: "NodeId \<Rightarrow> MemStorageInner RaftNodeInner \<Rightarrow> Past \<Rightarrow> Past" where
  "write_log n g H = (let ct = current_term (sm g) in
     H\<lparr>log_of := (log_of H)(ct := entries (storage g)), leader_of := (leader_of H)(ct := Some n),
       acked := (acked H)(n := (acked H n)(ct := length (entries (storage g))))\<rparr>)"

lemma write_log_simps [simp]:
  "log_of (write_log n g H) = (log_of H)(current_term (sm g) := entries (storage g))"
  "leader_of (write_log n g H) = (leader_of H)(current_term (sm g) := Some n)"
  "acked (write_log n g H) = (acked H)(n := (acked H n)(current_term (sm g) := length (entries (storage g))))"
  "ballot (write_log n g H) = ballot H"
  by (simp_all add: write_log_def Let_def)

text \<open>A candidate becomes the leader of its term, or a leader appends an entry; \<open>g\<close> is the node
  before, \<open>g1\<close> after, and \<open>g'\<close> after it has created its requests.\<close>

lemma leader_advances:
  assumes ok: "past_ok M H" and acks: "acks_ok H n g" and bals: "ballots_ok H n g"
    and coms: "commits_ok M H g" and tasks: "\<forall>t \<in> set (spawned g). task_safe M H n t"
    and step: "log_step n (log_of H) (leader_of H) g' L' led'" and s: "sends ps g1 g'"
    and lead: "role (sm g1) = Leader" and pos: "0 < current_term (sm g1)"
    and same: "current_term (sm g1) = current_term (sm g)" "voted_for (sm g1) = voted_for (sm g)"
      "commit_index (sm g1) = commit_index (sm g)" "applied g1 = applied g" "spawned g1 = spawned g"
    and grow: "prefix (entries (storage g)) (entries (storage g1))"
    and prog: "\<forall>(x, pr) \<in> set (progress (sm g1)). unat (match_index pr) \<le> acked H x (current_term (sm g))"
    and elected: "leader_of H (current_term (sm g)) = None \<Longrightarrow>
      won M (write_log n g1 H) (current_term (sm g)) n"
  shows "\<exists>H'. advances M n H g' H'"
proof -
  let ?ct = "current_term (sm g)" and ?H = "write_log n g1 H"
  let ?xs = "entries (storage g1)"
  have f: "storage g' = storage g1" "sm g' = sm g1"
    using sends_frame [OF s] by simp_all
  have H': "log_of ?H = L'" "leader_of ?H = led'"
    using log_step_leader [OF step] f lead by simp_all
  then have ext: "extends n (log_of H) (leader_of H) (log_of ?H) (leader_of ?H)"
    using step by (simp only: log_step_def)
  have len: "acked H v t \<le> length (log_of H t)" for v t using ok by (simp add: past_ok_def)
  have "acked H v t \<le> acked ?H v t" for v t
  proof -
    have "prefix (log_of H ?ct) ?xs" using extends_prefix [OF ext, of ?ct] same(1) by simp
    then show ?thesis
      using len [of n ?ct] same(1) by (auto dest!: prefix_length_le)
  qed
  then have l: "later n H ?H"
    using ext unfolding later_def by simp
  have past: "past_ok M ?H"
  proof (rule past_later [OF ok l])
    show "history_ok (log_of ?H) (leader_of ?H)" using step H' by (simp only: log_step_def)
  next
    fix t assume t: "acked ?H n t \<noteq> acked H n t"
    then have t': "t = ?ct" using same(1) by (simp split: if_splits)
    have "ballot H n u = None" if "?ct < u" for u
      using bals that unfolding ballots_ok_def Let_def by force
    then show "acked ?H n t \<le> length (log_of ?H t) \<and> (\<forall>u. t < u \<longrightarrow> ballot ?H n u = None)"
      using t' same(1) by simp
  qed (use elected pos same(1) in \<open>auto split: if_splits\<close>)
  have "acks_ok ?H n g1"
    unfolding acks_ok_def
  proof (intro conjI allI impI)
    fix t assume "acked ?H n t \<noteq> 0"
    then show "t \<le> current_term (sm g1)"
      using acks same(1) by (auto simp: acks_ok_def split: if_splits)
  next
    fix t i assume i: "i \<le> acked ?H n t"
    show "prefix (take i (log_of ?H t)) ?xs \<or> (\<exists>u \<le> current_term (sm g1). lost ?H t i u)"
    proof (cases "t = ?ct")
      case True
      then show ?thesis using same(1) by (simp add: take_is_prefix)
    next
      case False
      then have i': "i \<le> acked H n t" using i same(1) by simp
      then have "prefix (take i (log_of H t)) (entries (storage g)) \<or> (\<exists>u \<le> ?ct. lost H t i u)"
        using acks by (simp add: acks_ok_def)
      moreover have "i \<le> length (log_of H t)" using i' len by (rule order.trans)
      ultimately show ?thesis
        using lost_later [OF _ _ l] ok grow same(1) later_take [OF l] unfolding past_ok_def
        by (metis prefix_order.trans)
    qed
  qed
  moreover have "ballots_ok ?H n g1"
    using bals lead same(1,2) by (auto simp: ballots_ok_def Let_def)
  moreover have "leads_ok ?H n g1"
    using prog pos later_acked [OF l] same(1) by (fastforce simp: leads_ok_def Let_def)
  moreover have "commits_ok M ?H g1"
  proof -
    let ?c = "unat (commit_index (sm g))"
    have take: "?c \<le> length (entries (storage g)) \<Longrightarrow> ?c \<le> length ?xs \<and> take ?c ?xs = take ?c (entries (storage g))"
      using grow by (auto simp: prefix_def)
    have "committed M H ?ct (entries (storage g)) ?c" using coms by (simp add: commits_ok_def)
    then have "committed M ?H ?ct ?xs ?c" by (rule committed_later [OF _ l order.refl take])
    moreover have "e \<in> set (applied g) \<Longrightarrow> \<exists>k < ?c. k < length ?xs \<and> e = ?xs ! k" for e
      using coms grow by (force simp: commits_ok_def prefix_def nth_append)
    ultimately show ?thesis using same by (simp add: commits_ok_def)
  qed
  moreover have "\<forall>t \<in> set (spawned g1). task_safe M ?H n t"
    using tasks same(5) task_safe_later [OF _ l] by simp
  ultimately have "node_safe M ?H n g1" by (simp add: node_safe_def)
  then have "node_safe M ?H n g'"
    by (rule sends_safe [OF _ _ s]) simp
  then show ?thesis
    using past l step H' unfolding advances_def by metis
qed

lemma win_advances:
  assumes ok: "past_ok M H" and logs: "node_logs (log_of H) (leader_of H) n g"
    and safe: "node_safe M H n g" and cand: "role (sm g) = Candidate"
    and step: "win_election Debug (mem_storage Debug) g = Some g'" and ent: "entitled M H n g'"
  shows "\<exists>H'. advances M n H g' H'"
proof -
  let ?ct = "current_term (sm g)" and ?xs = "entries (storage g)"
  have hist: "history_ok (log_of H) (leader_of H)" using ok by (simp add: past_ok_def)
  obtain L' led' where st: "log_step n (log_of H) (leader_of H) g' L' led'"
    using win_election_logs [OF hist logs cand step] ent by (auto simp: entitled_def)
  have plain: "plain_log (storage g)" using logs by (simp add: node_logs_def)
  from plain step obtain g1 where g1: "keeps g g1" "role (sm g1) = Leader" "current_term (sm g1) = ?ct"
      "voted_for (sm g1) = voted_for (sm g)" "votes_received (sm g1) = votes_received (sm g)"
      "commit_index (sm g1) = commit_index (sm g)" "\<forall>(x, q) \<in> set (progress (sm g1)). match_index q = 0"
    and s: "sends (set (peers (config g))) g1 g'"
    by (rule win_outcome)
  have g': "sm g' = sm g1" using sends_frame [OF s] by simp
  have "leader_of H ?ct \<noteq> Some n" using logs cand by (simp add: node_logs_def)
  then have none: "leader_of H ?ct = None"
    using ent g1(2,3) g' by (auto simp: entitled_def)
  have b: "0 < ?ct" "ballot H n ?ct = Some ?xs"
      "\<forall>v \<in> votes_received (sm g). \<exists>xs. ballot H v ?ct = Some xs \<and> behind xs ?xs"
    using safe cand none by (simp_all add: node_safe_def ballots_ok_def Let_def)
  have e: "entries (storage g1) = ?xs" "applied g1 = applied g" "spawned g1 = spawned g"
    using g1(1) by (simp_all add: keeps_def)
  have "won M (write_log n g1 H) ?ct n"
    unfolding won_def using b(2,3) e(1) g1(2,3,5) g' ent
    by (intro exI [of _ ?xs] exI [of _ "votes_received (sm g)"]) (simp add: entitled_def)
  then show ?thesis
    using safe g1 b(1) e unfolding node_safe_def
    by (intro leader_advances [OF ok _ _ _ _ st s]) auto
qed

lemma proposal_advances:
  assumes ok: "past_ok M H" and logs: "node_logs (log_of H) (leader_of H) n g"
    and safe: "node_safe M H n g"
    and step: "on_proposal Debug (mem_storage Debug) g pr = Some g'"
  shows "\<exists>H'. advances M n H g' H'"
proof -
  have hist: "history_ok (log_of H) (leader_of H)" using ok by (simp add: past_ok_def)
  have plain: "plain_log (storage g)" using logs by (simp add: node_logs_def)
  from plain step show ?thesis
  proof (cases rule: proposal_cases)
    case quiet
    then show ?thesis
      using advances_quiet [OF ok] node_safe_steady [OF safe] log_frame_logs [OF logs steady_log_frame] by blast
  next
    case (appended g1 e)
    obtain L' led' where st: "log_step n (log_of H) (leader_of H) g' L' led'"
      using proposal_logs [OF hist logs step] by blast
    have "leader_of H (current_term (sm g)) \<noteq> None"
      using logs appended(1) by (simp add: node_logs_def)
    then show ?thesis
      using safe appended unfolding node_safe_def
      by (intro leader_advances [OF ok _ _ _ _ st appended(10)]) (auto simp: leads_ok_def Let_def)
  qed
qed

text \<open>A node stands for election: it votes for itself.\<close>

lemma candidate_advances:
  assumes ok: "past_ok M H" and logs: "node_logs (log_of H) (leader_of H) n g"
    and safe: "node_safe M H n g"
    and step: "start_election Debug (mem_storage Debug) g = Some g'" and ent: "entitled M H n g'"
  shows "\<exists>H'. advances M n H g' H'"
proof -
  have hist: "history_ok (log_of H) (leader_of H)" using ok by (simp add: past_ok_def)
  have plain: "plain_log (storage g)" and id: "cfg_id (config g) = n"
    using logs by (simp_all add: node_logs_def)
  from plain step obtain g2 req where g2: "entries (storage g2) = entries (storage g)"
      "snapshot (storage g2) = snapshot (storage g)" "config g2 = config g" "applied g2 = applied g"
      "spawned g2 = spawned g @ map (\<lambda>peer. VoteTask peer req) (peers (config g))"
      "current_term (sm g) < current_term (sm g2)" "role (sm g2) = Candidate"
      "voted_for (sm g2) = Some (cfg_id (config g))" "votes_received (sm g2) = {cfg_id (config g)}"
      "commit_index (sm g2) = commit_index (sm g)"
      "rv_term req = current_term (sm g2)" "candidate_id req = cfg_id (config g)"
      "unat (last_log_index req) = length (entries (storage g))"
      "last_log_term req = term_before (entries (storage g)) (length (entries (storage g)))"
    and g': "g' = g2 \<or> win_election Debug (mem_storage Debug) g2 = Some g'"
    by (rule candidate_outcome)
  let ?ct = "current_term (sm g2)" and ?H = "cast_ballot n g2 H" and ?xs = "entries (storage g)"
  have le: "current_term (sm g) \<le> ?ct" using g2(6) by simp
  have "\<forall>u. leader_of H u = Some n \<longrightarrow> u < ?ct"
    using logs g2(6) by (auto simp: node_logs_def intro: order.strict_trans1)
  then have logs2: "node_logs (log_of H) (leader_of H) n g2"
    using logs g2 le unfolding node_logs_def plain_log_def by (auto intro: order.trans)
  have acks: "acks_ok H n g2"
    using safe le g2(1) by (auto simp: node_safe_def intro: acks_ok_cong)
  note cast = cast_ballot_past [OF ok logs2 acks]
  have old: "ballot H n t \<noteq> None \<Longrightarrow> t \<le> current_term (sm g)" for t
    using safe by (simp add: node_safe_def ballots_ok_def Let_def)
  have fresh: "ballot H n ?ct = None" using old g2(6) not_le by blast
  then have mine: "ballot ?H n t = (if t = ?ct \<and> leader_of H t = None then Some ?xs else ballot H n t)" for t
    using g2(1) by (simp add: cast_ballot_def Let_def)
  have "ballots_ok ?H n g2"
    using fresh mine id g2(1,6-9) order.trans [OF old le] by (auto simp: ballots_ok_def Let_def word_gt_0)
  moreover have "commits_ok M H g2"
    using safe g2 committed_later [OF _ later_refl le] by (auto simp: node_safe_def commits_ok_def)
  moreover have "task_safe M ?H n t" if t: "t \<in> set (spawned g2)" for t
  proof -
    have "t \<in> set (spawned g) \<or> (\<exists>to. t = VoteTask to req)" using t g2(5) by auto
    then show ?thesis
    proof
      assume "t \<in> set (spawned g)"
      then show ?thesis using safe task_safe_later [OF _ cast(1)] by (simp add: node_safe_def)
    qed (use mine g2(11,13,14) in auto)
  qed
  ultimately have safe2: "node_safe M ?H n g2"
    using acks g2(7) by (simp add: node_safe_def leads_ok_def)
  from g' show ?thesis
  proof
    assume "g' = g2"
    then have "advances M n H g' ?H"
      using cast safe2 log_step_same [OF hist] logs2 by (simp add: advances_def)
    then show ?thesis by blast
  next
    assume w: "win_election Debug (mem_storage Debug) g2 = Some g'"
    have "entitled M ?H n g'" using ent by (simp add: entitled_def)
    then obtain H' where "advances M n ?H g' H'"
      using win_advances [OF cast(2) _ safe2 g2(7) w] logs2 by auto
    moreover from this have "later n H H'"
      using cast(1) later_trans by (auto simp: advances_def)
    ultimately have "advances M n H g' H'" by (simp add: advances_def)
    then show ?thesis by blast
  qed
qed

lemma vote_response_advances:
  assumes ok: "past_ok M H" and logs: "node_logs (log_of H) (leader_of H) n g"
    and safe: "node_safe M H n g" and reply: "reply_safe H n (VoteResponse peer resp)"
    and env: "vote_granted resp \<Longrightarrow> current_term (sm g) \<le> rvr_term resp"
    and step: "handle_vote_response Debug (mem_storage Debug) g peer resp = Some g'"
    and ent: "entitled M H n g'"
  shows "\<exists>H'. advances M n H g' H'"
proof -
  have hist: "history_ok (log_of H) (leader_of H)" using ok by (simp add: past_ok_def)
  from step show ?thesis
  proof (cases rule: vote_response_cases)
    case quiet
    then show ?thesis
      using advances_quiet [OF ok] node_safe_steady [OF safe] log_frame_logs [OF logs steady_log_frame] by blast
  next
    case (counted g1)
    have t: "rvr_term resp = current_term (sm g)" using counted(4,5) env by simp
    have f: "log_frame g g1" using counted(1,2) by (simp add: log_frame_def keeps_def)
    have logs1: "node_logs (log_of H) (leader_of H) n g1" using log_frame_logs [OF logs f] .
    have k: "entries (storage g1) = entries (storage g)" "applied g1 = applied g" "spawned g1 = spawned g"
      using counted(1) by (simp_all add: keeps_def)
    have "acks_ok H n g1" "leads_ok H n g1" "commits_ok M H g1" "\<forall>t \<in> set (spawned g1). task_safe M H n t"
      using safe k counted(2) by (simp_all add: node_safe_def acks_ok_def leads_ok_def commits_ok_def)
    moreover have "ballots_ok H n g1"
      using safe reply t counted(2-4) k(1) by (auto simp: node_safe_def ballots_ok_def Let_def)
    ultimately have safe1: "node_safe M H n g1" by (simp add: node_safe_def)
    from counted(6) show ?thesis
    proof
      assume "g' = g1"
      then show ?thesis using advances_quiet [OF ok] logs1 safe1 by blast
    next
      assume "win_election Debug (mem_storage Debug) g1 = Some g'"
      then show ?thesis
        using win_advances [OF ok logs1 safe1] counted(2,3) ent by simp
    qed
  qed
qed

subsection \<open>A follower takes entries\<close>

definition acknowledge :: "NodeId \<Rightarrow> Term \<Rightarrow> nat \<Rightarrow> Past \<Rightarrow> Past" where
  "acknowledge n t k H = H\<lparr>acked := (acked H)(n := (acked H n)(t := max (acked H n t) k))\<rparr>"

lemma acknowledge_simps [simp]:
  "log_of (acknowledge n t k H) = log_of H" "leader_of (acknowledge n t k H) = leader_of H"
  "ballot (acknowledge n t k H) = ballot H" "lost (acknowledge n t k H) = lost H"
  "acked (acknowledge n t k H) = (acked H)(n := (acked H n)(t := max (acked H n t) k))"
  by (simp_all add: acknowledge_def lost_def fun_eq_iff)

lemma acknowledge_past:
  assumes ok: "past_ok M H" and bals: "ballots_ok H n g" and k: "k \<le> length (log_of H (current_term (sm g)))"
  shows "later n H (acknowledge n (current_term (sm g)) k H)"
    "past_ok M (acknowledge n (current_term (sm g)) k H)"
proof -
  let ?ct = "current_term (sm g)" and ?H = "acknowledge n (current_term (sm g)) k H"
  show l: "later n H ?H" by (simp add: later_def)
  have none: "ballot H n u = None" if "?ct < u" for u
    using bals that unfolding ballots_ok_def Let_def by force
  have len: "acked H n ?ct \<le> length (log_of H ?ct)" "history_ok (log_of H) (leader_of H)"
    using ok by (simp_all add: past_ok_def)
  show "past_ok M ?H"
    by (rule past_later [OF ok l]) (use none len k in \<open>auto split: if_splits\<close>)
qed

text \<open>What a follower keeps when its log is cut to a prefix of the leader's, and not merely cut.\<close>

lemma not_cut:
  assumes "prefix P xs" "ys = xs \<or> prefix ys zs" "\<not> strict_prefix ys xs" "prefix P zs"
  shows "prefix P ys"
proof (cases "ys = xs")
  case False
  then have "prefix ys P \<or> prefix P ys" using assms(2,4) prefix_same_cases by blast
  then show ?thesis
  proof
    assume "prefix ys P"
    then have "prefix ys xs" using assms(1) by (rule prefix_order.trans)
    then show ?thesis using assms(3) False by (simp add: strict_prefix_def)
  qed
qed (use assms(1) in simp)

lemma history_positive:
  assumes "past_ok M H" "matches (log_of H) xs" "0 < k" "k \<le> length xs"
  shows "term_before xs k \<noteq> 0"
proof -
  have hist: "history_ok (log_of H) (leader_of H)" using assms(1) by (simp add: past_ok_def)
  have "xs ! (k - 1) \<in> set xs" using assms(3,4) by simp
  then have "leader_of H (le_term (xs ! (k - 1))) \<noteq> None"
    using history_none [OF hist assms(2)] by metis
  then have "0 < le_term (xs ! (k - 1))"
    using assms(1) unfolding past_ok_def by blast
  then show ?thesis
    using assms(3) by (auto simp: term_before_def)
qed

text \<open>The log of a follower after it has taken a request agrees with the leader's up to the
  acknowledged index.\<close>

lemma takes_prefix:
  assumes ok: "past_ok M H" and logs: "node_logs (log_of H) (leader_of H) n g"
    and task: "task_safe M H x (AppendTask n i req)"
    and prev: "check_prev p (mem_storage p) g req = Some None" and step: "takes p req g g'"
  shows "take (unat i) (entries (storage g')) = take (unat i) (log_of H (ae_term req))"
    "unat i \<le> length (entries (storage g'))" "unat i \<le> length (log_of H (ae_term req))"
    "entries (storage g') = entries (storage g) \<or> prefix (entries (storage g')) (log_of H (ae_term req))"
    "length (entries (storage g')) \<le> unat i \<or> unat (leader_commit req) \<le> unat i"
proof -
  let ?xs = "log_of H (ae_term req)" and ?k = "unat (prev_log_index req)"
  have hist: "history_ok (log_of H) (leader_of H)" using ok by (simp add: past_ok_def)
  have xs: "matches (log_of H) ?xs" "contiguous 1 ?xs" using hist by (simp_all add: history_ok_def)
  have plain: "plain_log (storage g)" and match: "matches (log_of H) (entries (storage g))"
    using logs by (simp_all add: node_logs_def)
  have i: "unat i = ?k + length (ae_entries req)" using task by simp
  note c = plain_check_prev [OF plain prev]
  have slice: "slice_of ?xs req"
  proof (rule ccontr)
    assume "\<not> slice_of ?xs req"
    then have z: "prev_log_index req \<noteq> 0" "prev_log_term req = 0" using task by auto
    then have "term_before (entries (storage g)) ?k \<noteq> 0"
      using history_positive [OF ok match _ c(1)] by (simp add: unat_gt_0)
    then show False using c(2) z by simp
  qed
  note a = prev_agree [OF xs(1) slice plain match prev]
  have kx: "?k \<le> length ?xs" "prefix (request_entries req) (drop ?k ?xs)"
    using slice by (simp_all add: slice_of_def)
  have "take (unat i) (entries (storage g')) = take (unat i) ?xs \<and>
    unat i \<le> length (entries (storage g')) \<and> unat i \<le> length ?xs \<and>
    (entries (storage g') = entries (storage g) \<or> prefix (entries (storage g')) ?xs) \<and>
    (length (entries (storage g')) \<le> unat i \<or> unat (leader_commit req) \<le> unat i)"
  proof (cases "ae_entries req = []")
    case True
    then have "entries (storage g') = entries (storage g)" using step by (simp add: takes_def)
    moreover have "unat (leader_commit req) \<le> ?k"
      using task True slice c(2) history_positive [OF ok match _ c(1)] by (auto simp: unat_gt_0)
    ultimately show ?thesis using a kx(1) i True by simp
  next
    case False
    have e: "entries (storage g') = take (unat i) ?xs"
      using slice_accepted(1) [OF xs slice False plain match prev step] i by simp
    have "length (request_entries req) = length (ae_entries req)" by (simp add: request_entries_def)
    then have "unat i \<le> length ?xs"
      using prefix_length_le [OF kx(2)] kx(1) i by simp
    then show ?thesis using e by (simp add: take_is_prefix)
  qed
  then show "take (unat i) (entries (storage g')) = take (unat i) ?xs"
    "unat i \<le> length (entries (storage g'))" "unat i \<le> length ?xs"
    "entries (storage g') = entries (storage g) \<or> prefix (entries (storage g')) ?xs"
    "length (entries (storage g')) \<le> unat i \<or> unat (leader_commit req) \<le> unat i"
    by blast+
qed

text \<open>A committed prefix is in the log of the leader of the current term.\<close>

lemma committed_leader:
  assumes "past_ok M H" "finite M" "committed M H t xs c" "leader_of H t \<noteq> None" "c \<noteq> 0"
  shows "prefix (take c xs) (log_of H t)"
proof -
  obtain s i where s: "chosen M H s i" "c \<le> i" "s \<le> t" "take c xs = take c (log_of H s)"
    using assms(3,5) by (auto simp: committed_def)
  have "prefix (take i (log_of H s)) (log_of H t)"
  proof (cases "s = t")
    case False
    then show ?thesis using chosen_in_later_logs [OF assms(1,2) s(1)] s(3) assms(4) by simp
  qed (simp add: take_is_prefix)
  moreover have "prefix (take c (log_of H s)) (take i (log_of H s))"
    using s(2) by (metis min.absorb1 take_is_prefix take_take)
  ultimately show ?thesis using s(4) by (metis prefix_order.trans)
qed

lemma takes_advances:
  assumes ok: "past_ok M H" and fin: "finite M" and logs: "node_logs (log_of H) (leader_of H) n g"
    and safe: "node_safe M H n g"
    and task: "task_logged (log_of H) (leader_of H) x (AppendTask n i req)" "task_safe M H x (AppendTask n i req)"
    and t: "current_term (sm g) = ae_term req"
    and prev: "check_prev Debug (mem_storage Debug) g req = Some None" and step: "takes Debug req g g'"
    and cut: "\<not> strict_prefix (entries (storage g')) (entries (storage g))"
  shows "\<exists>H'. advances M n H g' H' \<and> log_of H' = log_of H \<and> leader_of H' = leader_of H \<and>
    unat i \<le> acked H' n (ae_term req) \<and> unat (commit_index (sm g)) \<le> unat (commit_index (sm g'))"
proof -
  let ?ct = "ae_term req" and ?k = "unat i" and ?H = "acknowledge n (ae_term req) (unat i) H"
  let ?xs = "entries (storage g)" and ?ys = "entries (storage g')" and ?L = "log_of H (ae_term req)"
  let ?c = "unat (commit_index (sm g))" and ?c' = "unat (commit_index (sm g'))"
  have hist: "history_ok (log_of H) (leader_of H)" using ok by (simp add: past_ok_def)
  have led: "leader_of H ?ct = Some x" "x \<noteq> n" using task(1) by auto
  have f: "config g' = config g" "spawned g' = spawned g" "applied g' = applied g"
      "snapshot (storage g') = snapshot (storage g)" "current_term (sm g') = ?ct"
      "voted_for (sm g') = voted_for (sm g)" "role (sm g') = role (sm g)"
      "votes_received (sm g') = votes_received (sm g)"
    using step t by (simp_all add: takes_def)
  have ci: "commit_index (sm g') = (if commit_index (sm g) < leader_commit req
      then min (leader_commit req) (mem_last_index (storage g')) else commit_index (sm g))"
    using step by (simp add: takes_def)
  note tp = takes_prefix [OF ok logs task(2) prev step]
  have logs': "node_logs (log_of H) (leader_of H) n g'"
    using takes_logs [OF hist logs task(1) t prev step] .
  have keep: "prefix P ?ys" if "prefix P ?xs" "prefix P ?L" for P
    using not_cut [OF that(1) tp(4) cut that(2)] .
  have bals: "ballots_ok H n g" using safe by (simp add: node_safe_def)
  note past = acknowledge_past [OF ok bals, unfolded t, OF tp(3)]
  have "acks_ok ?H n g'"
    unfolding acks_ok_def
  proof (intro conjI allI impI)
    fix s assume "acked ?H n s \<noteq> 0"
    then show "s \<le> current_term (sm g')"
      using safe t f(5) by (auto simp: node_safe_def acks_ok_def split: if_splits)
  next
    fix s j assume j: "j \<le> acked ?H n s"
    show "prefix (take j (log_of ?H s)) ?ys \<or> (\<exists>u \<le> current_term (sm g'). lost ?H s j u)"
    proof (cases "j \<le> acked H n s")
      case False
      then have "s = ?ct" "j \<le> ?k" using j by (auto split: if_splits)
      moreover from this have "prefix (take j ?L) ?ys"
        using tp(1) by (metis min.absorb1 take_is_prefix take_take)
      ultimately show ?thesis by simp
    next
      case True
      show ?thesis
      proof (cases "j = 0")
        case False
        then have "s \<le> ?ct"
          using True safe t by (force simp: node_safe_def acks_ok_def)
        moreover have "prefix (take j (log_of H s)) ?xs \<or> (\<exists>u \<le> ?ct. lost H s j u)"
          using True safe t by (auto simp: node_safe_def acks_ok_def)
        moreover have "lost H s j ?ct" if "s \<noteq> ?ct" "s \<le> ?ct" "\<not> prefix (take j (log_of H s)) ?L"
          using that led(1) by (simp add: lost_def)
        moreover have "prefix (take j (log_of H s)) ?L" if "s = ?ct"
          using that by (simp add: take_is_prefix)
        ultimately show ?thesis
          using keep f(5) by (metis acknowledge_simps(1,4) order.refl)
      qed simp
    qed
  qed
  moreover have "ballots_ok ?H n g'"
    using bals t f(5-8) led by (auto simp: ballots_ok_def Let_def)
  moreover have "role (sm g) \<noteq> Leader"
    using logs led t by (auto simp: node_logs_def)
  then have "leads_ok ?H n g'" using f(7) by (simp add: leads_ok_def Let_def)
  moreover have com: "committed M H ?ct ?xs ?c"
    using safe t by (simp add: node_safe_def commits_ok_def)
  have old: "?c \<le> length ?ys \<and> take ?c ?ys = take ?c ?xs"
  proof (cases "?c = 0")
    case False
    have len: "?c \<le> length ?xs" using com False by (auto simp: committed_def)
    have "prefix (take ?c ?xs) ?L"
      using committed_leader [OF ok fin com _ False] led(1) by simp
    then have "prefix (take ?c ?xs) ?ys" using keep take_is_prefix by blast
    then show ?thesis using len by (auto simp: prefix_def)
  qed simp
  moreover have last: "unat (mem_last_index (storage g')) = length ?ys"
    using logs' by (simp add: node_logs_def plain_last)
  have mono: "?c \<le> ?c'"
    using ci old last by (auto simp: word_le_nat_alt word_less_nat_alt min_def)
  have "committed M H ?ct ?ys ?c'"
  proof (cases "commit_index (sm g) < leader_commit req")
    case False
    then show ?thesis
      using ci old committed_later [OF com later_refl order.refl] by simp
  next
    case True
    then have c': "?c' \<le> unat (leader_commit req)" "?c' \<le> length ?ys"
      using ci last by (auto simp: word_le_nat_alt min_def)
    then have "?c' \<le> ?k" using tp(5) by auto
    then have "take ?c' ?ys = take ?c' ?L"
      using take_eq_shorter [OF tp(1)] by blast
    moreover have "committed M H ?ct ?L (unat (leader_commit req))" using task(2) by simp
    ultimately show ?thesis using committed_sub [OF _ c'] by blast
  qed
  then have com': "committed M ?H ?ct ?ys ?c'"
    by (rule committed_later [OF _ past(1) order.refl]) simp
  have app: "\<exists>k < ?c'. k < length ?ys \<and> e = ?ys ! k" if e: "e \<in> set (applied g)" for e
  proof -
    obtain k where k: "k < ?c" "k < length ?xs" "e = ?xs ! k"
      using safe e by (auto simp: node_safe_def commits_ok_def)
    then have "?ys ! k = ?xs ! k" using old nth_take by metis
    then show ?thesis using k old mono by (intro exI [of _ k]) auto
  qed
  then have "commits_ok M ?H g'"
    using f(3,5) com' by (simp add: commits_ok_def)
  moreover have "\<forall>t \<in> set (spawned g'). task_safe M ?H n t"
    using safe f(2) task_safe_later [OF _ past(1)] by (simp add: node_safe_def)
  ultimately have "node_safe M ?H n g'" by (simp add: node_safe_def)
  then have "advances M n H g' ?H"
    using past log_step_same [OF hist logs'] by (simp add: advances_def)
  then show ?thesis using mono by (intro exI [of _ ?H]) simp
qed

subsection \<open>Committing and applying\<close>

text \<open>The commit index of a leader moves to entries that a majority has acknowledged.\<close>

lemma commit_safe:
  assumes logs: "node_logs (log_of H) (leader_of H) n g" and safe: "node_safe M H n g"
    and M: "members (config g) = M" and lead: "leader_ok g'"
    and step: "maybe_advance_commit Debug (mem_storage Debug) g = Some g'"
  shows "node_safe M H n g'"
proof (cases "role (sm g) = Leader")
  case False
  then show ?thesis using step safe by (simp add: maybe_advance_commit_def)
next
  case True
  let ?ct = "current_term (sm g)" and ?xs = "entries (storage g)"
  have plain: "plain_log (storage g)" and L: "log_of H ?ct = ?xs"
    and peers: "cfg_id (config g) = n" "n \<notin> set (peers (config g))"
    using logs True by (simp_all add: node_logs_def)
  have own: "0 < ?ct" "acked H n ?ct = length ?xs"
      "\<forall>(x, pr) \<in> set (progress (sm g)). unat (match_index pr) \<le> acked H x ?ct"
    using safe True by (simp_all add: node_safe_def leads_ok_def Let_def)
  then have "?ct \<noteq> 0" by auto
  from plain this step show ?thesis
  proof (cases rule: commit_outcome)
    case same
    then show ?thesis using node_safe_steady [OF safe] by blast
  next
    case (advanced N)
    let ?Q = "holders (config g) (progress (sm g)) N"
    have k: "entries (storage g') = ?xs" "applied g' = applied g" "spawned g' = spawned g"
        "config g' = config g"
      using advanced(1) by (simp_all add: keeps_def)
    have "progress_ok (config g) (progress (sm g))"
      using lead advanced(2,3) k(4) by (simp add: leader_ok_def)
    then have Q: "card ?Q = replicated (progress (sm g)) N" "?Q \<subseteq> M"
      using replicated_card [of "config g"] peers M by simp_all
    have "card M < 2 * quorum (config g)"
      using members_less_two_quorums [of "config g"] unfolding M .
    then have "card M < 2 * card ?Q" using Q(1) advanced(7) by linarith
    moreover have "unat N \<le> acked H v ?ct" if v: "v \<in> ?Q" for v
    proof (cases "v = n")
      case True
      then show ?thesis using own(2) advanced(5) by simp
    next
      case False
      then obtain q where "map_of (progress (sm g)) v = Some q" "N \<le> match_index q"
        using v peers by (auto simp: holders_def)
      then show ?thesis
        using own(3) map_of_SomeD [of "progress (sm g)" v q]
        by (auto simp: word_le_nat_alt intro: order.trans)
    qed
    moreover have "0 < unat N" using advanced(4) by (simp add: word_less_nat_alt)
    ultimately have "chosen M H ?ct (unat N)"
      using L advanced(5,6) Q(2) unfolding chosen_def by (auto intro: exI [of _ ?Q])
    then have "committed M H ?ct ?xs (unat N)"
      using L advanced(5) unfolding committed_def by (metis order.refl)
    moreover have "unat (commit_index (sm g)) < unat N" using advanced(4) by (simp add: word_less_nat_alt)
    then have "k < unat (commit_index (sm g)) \<Longrightarrow> k < unat N" for k by simp
    then have "\<forall>e \<in> set (applied g). \<exists>k < unat N. k < length ?xs \<and> e = ?xs ! k"
      using safe unfolding node_safe_def commits_ok_def by blast
    ultimately have "commits_ok M H g'"
      using k advanced(2) by (simp add: commits_ok_def)
    then show ?thesis
      using safe k advanced(2,3)
      by (simp add: node_safe_def acks_ok_def ballots_ok_def leads_ok_def Let_def)
  qed
qed

lemma apply_safe:
  assumes logs: "node_logs (log_of H) (leader_of H) n g" and safe: "node_safe M H n g"
    and step: "apply_committed Debug (mem_storage Debug) g = Some g'"
  shows "node_safe M H n g'"
proof -
  have plain: "plain_log (storage g)" using logs by (simp add: node_logs_def)
  from plain step obtain es where es: "steady (g\<lparr>applied := applied g @ es\<rparr>) g'"
      "\<forall>e \<in> set es. \<exists>k < unat (commit_index (sm g)). k < length (entries (storage g)) \<and> e = entries (storage g) ! k"
    by (rule apply_outcome)
  have "node_safe M H n (g\<lparr>applied := applied g @ es\<rparr>)"
    using safe es(2) by (auto simp: node_safe_def acks_ok_def ballots_ok_def leads_ok_def commits_ok_def)
  then show ?thesis using es(1) by (rule node_safe_steady)
qed

lemma append_response_safe:
  assumes logs: "node_logs (log_of H) (leader_of H) n g" and safe: "node_safe M H n g"
    and M: "members (config g) = M" and lead: "leader_ok g"
    and reply: "reply_safe H n (AppendResponse peer i resp)"
    and env: "success resp \<Longrightarrow> current_term (sm g) \<le> aer_term resp"
    and step: "handle_append_response Debug (mem_storage Debug) g peer i resp = Some g'"
  shows "node_safe M H n g'"
proof -
  have "handle_message Debug (mem_storage Debug) g (AppendResponse peer i resp) = Some (g', True)"
    using step by simp
  then have lead': "leader_ok g'" using lead by (rule handle_message_leader_ok)
  from step show ?thesis
  proof (cases rule: append_response_cases)
    case quiet
    then show ?thesis using node_safe_steady [OF safe] by blast
  next
    case (counted g1 prs)
    let ?ct = "current_term (sm g)"
    have k: "entries (storage g1) = entries (storage g)" "applied g1 = applied g" "spawned g1 = spawned g"
        "config g1 = config g"
      using counted(3) by (simp_all add: keeps_def)
    have "log_frame g g1" using counted(3,4) by (simp add: log_frame_def keeps_def)
    then have logs1: "node_logs (log_of H) (leader_of H) n g1" using log_frame_logs [OF logs] by blast
    have old: "0 < ?ct" "acked H n ?ct = length (entries (storage g))"
        "\<forall>(x, q) \<in> set (progress (sm g)). unat (match_index q) \<le> acked H x ?ct"
      using safe counted(1) by (simp_all add: node_safe_def leads_ok_def Let_def)
    have "unat (match_index q) \<le> acked H x ?ct" if q: "(x, q) \<in> set prs" for x q
    proof (cases "(x, q) \<in> set (progress (sm g))")
      case True
      then show ?thesis using old(3) by blast
    next
      case False
      then obtain q' where q': "x = peer" "(x, q') \<in> set (progress (sm g))"
          "match_index q = (if success resp then max (match_index q') i else match_index q')"
        using counted(5) q by blast
      have "unat (match_index q') \<le> acked H x ?ct" using old(3) q'(2) by blast
      moreover have "success resp \<Longrightarrow> unat i \<le> acked H x ?ct"
        using reply env counted(2) q'(1) by force
      ultimately show ?thesis using q'(3) by (auto simp: max_def)
    qed
    then have "node_safe M H n g1"
      using safe old k counted(1,4)
      by (auto simp: node_safe_def acks_ok_def ballots_ok_def leads_ok_def commits_ok_def Let_def)
    then show ?thesis
      using commit_safe [OF logs1 _ _ lead' counted(6)] M k(4) by simp
  qed
qed

subsection \<open>The steps of a node\<close>

lemma on_timeout_advances:
  assumes ok: "past_ok M H" and logs: "node_logs (log_of H) (leader_of H) n (inner r)"
    and safe: "node_safe M H n (inner r)" and M: "members (config (inner r)) = M"
    and lead: "leader_ok (inner r)" and ent: "entitled M H n (inner r')"
    and step: "on_timeout Debug (mem_storage Debug) now now' j r = Some r'"
  shows "\<exists>H'. advances M n H (inner r') H'"
proof -
  consider "start_election Debug (mem_storage Debug) (inner r) = Some (inner r')" | "r' = r"
    | g1 g2 where "replicate_all Debug (mem_storage Debug) (inner r) = Some g1"
      "maybe_advance_commit Debug (mem_storage Debug) g1 = Some g2"
      "apply_committed Debug (mem_storage Debug) g2 = Some (inner r')" "role (sm (inner r)) = Leader"
    using step by (auto simp: on_timeout_def Let_def elim!: bind_SomeE split: if_splits)
  then show ?thesis
  proof cases
    case 1
    then show ?thesis using candidate_advances [OF ok logs safe _ ent] by blast
  next
    case 2
    then show ?thesis using advances_quiet [OF ok logs safe] by simp
  next
    case (3 g1 g2)
    have L: "plain_log (storage (inner r))" "log_of H (current_term (sm (inner r))) = entries (storage (inner r))"
      using logs 3(4) by (simp_all add: node_logs_def)
    have s: "sends (set (peers (config (inner r)))) (inner r) g1"
      using L(1) 3(1) by (rule replicate_all_sends)
    note f = sends_frame [OF s]
    have logs1: "node_logs (log_of H) (leader_of H) n g1" using logs 3(1) by (rule replicate_all_logs)
    have lead2: "leader_ok g2"
      using lead f advance_commit_same_lead [OF 3(2)] by (auto simp: leader_ok_def same_lead_def)
    have safe2: "node_safe M H n g2"
      using commit_safe [OF logs1 sends_safe [OF safe L(2) s] _ lead2 3(2)] M f by simp
    have logs2: "node_logs (log_of H) (leader_of H) n g2"
      using log_frame_logs [OF logs1 log_frame_commit [OF 3(2)]] .
    show ?thesis
      using advances_quiet [OF ok log_frame_logs [OF logs2 log_frame_apply [OF 3(3)]]
          apply_safe [OF logs2 safe2 3(3)]] .
  qed
qed

lemma handle_message_advances:
  assumes ok: "past_ok M H" and logs: "node_logs (log_of H) (leader_of H) n g"
    and safe: "node_safe M H n g" and M: "members (config g) = M" and lead: "leader_ok g"
    and reply: "reply_safe H n m" and env: "prompt g (Some m)" and ent: "entitled M H n g'"
    and step: "handle_message Debug (mem_storage Debug) g m = Some (g', b)"
  shows "\<exists>H'. advances M n H g' H'"
proof (cases m)
  case (VoteResponse peer resp)
  then have "handle_vote_response Debug (mem_storage Debug) g peer resp = Some g'"
    using step by (auto elim!: bind_SomeE)
  then show ?thesis
    using vote_response_advances [OF ok logs safe _ _ _ ent] reply env VoteResponse
    by (auto simp: prompt_def timely_def)
next
  case (Propose pr)
  then have "on_proposal Debug (mem_storage Debug) g pr = Some g'"
    using step by (auto elim!: bind_SomeE)
  then show ?thesis using proposal_advances [OF ok logs safe] by blast
next
  case (AppendResponse peer i resp)
  then have s: "handle_append_response Debug (mem_storage Debug) g peer i resp = Some g'"
    using step by (auto elim!: bind_SomeE)
  have "node_safe M H n g'"
    using append_response_safe [OF logs safe M lead _ _ s] reply env AppendResponse
    by (simp add: prompt_def)
  then show ?thesis
    using advances_quiet [OF ok log_frame_logs [OF logs log_frame_append_response [OF s]]] by blast
next
  case (SnapshotResponse peer i resp)
  then show ?thesis using reply by simp
qed (use step advances_quiet [OF ok log_frame_logs [OF logs] node_safe_steady [OF safe]] in
    \<open>auto simp: log_frame_def steady_def keeps_def\<close>)

lemma vote_advances:
  assumes ok: "past_ok M H" and logs: "node_logs (log_of H) (leader_of H) n g"
    and safe: "node_safe M H n g" and task: "task_safe M H x (VoteTask n req)" "candidate_id req = x"
    and step: "on_request_vote (mem_storage Debug) g req = Some (g', r)"
  shows "\<exists>H'. advances M n H g' H' \<and> (\<forall>resp. r = Inr resp \<longrightarrow> reply_safe H' x (VoteResponse n resp))"
proof -
  have hist: "history_ok (log_of H) (leader_of H)" using ok by (simp add: past_ok_def)
  have logs': "node_logs (log_of H) (leader_of H) n g'"
    using log_frame_logs [OF logs log_frame_vote [OF step]] .
  have "plain_log (storage g)" using logs by (simp add: node_logs_def)
  from this step show ?thesis
  proof (cases rule: vote_outcome)
    case (denied g1 resp)
    then have "advances M n H g' H"
      using ok hist logs' node_safe_steady [OF safe] by (simp add: advances_def log_step_same)
    then show ?thesis using denied by (intro exI [of _ H]) simp
  next
    case (granted g1 resp)
    let ?H = "cast_ballot n g1 H"
    note safe1 = node_safe_steady [OF safe granted(1)]
    note logs1 = log_frame_logs [OF logs steady_log_frame [OF granted(1)]]
    have acks: "acks_ok H n g1" using safe1 by (simp add: node_safe_def)
    note g = grant_safe [OF safe1 logs1 task(1) granted(2) _ granted(8,3)]
    have "node_safe M ?H n g'" "reply_safe ?H x (VoteResponse n resp)"
      using g granted(5-7) task(2) by simp_all
    moreover have "advances M n H g' ?H"
      using cast_ballot_past [OF ok logs1 acks] log_step_same [OF hist logs'] calculation
      by (simp add: advances_def)
    ultimately show ?thesis using granted(4) by (intro exI [of _ ?H]) simp
  qed
qed

lemma append_advances:
  assumes ok: "past_ok M H" and fin: "finite M" and logs: "node_logs (log_of H) (leader_of H) n g"
    and safe: "node_safe M H n g"
    and task: "task_logged (log_of H) (leader_of H) x (AppendTask n i req)" "task_safe M H x (AppendTask n i req)"
    and step: "on_append_entries Debug (mem_storage Debug) g req = Some (g', r)"
    and cut: "\<not> strict_prefix (entries (storage g')) (entries (storage g))"
  shows "\<exists>H'. advances M n H g' H' \<and> (\<forall>resp. r = Inr resp \<longrightarrow> reply_safe H' x (AppendResponse n i resp)) \<and>
    unat (commit_index (sm g)) \<le> unat (commit_index (sm g'))"
proof -
  have hist: "history_ok (log_of H) (leader_of H)" using ok by (simp add: past_ok_def)
  from step show ?thesis
  proof (cases rule: append_outcome)
    case (refused resp)
    have "advances M n H g' H"
      using ok node_safe_steady [OF safe refused(1)]
        log_step_same [OF hist log_frame_logs [OF logs steady_log_frame [OF refused(1)]]]
      by (simp add: advances_def)
    then show ?thesis
      using refused by (intro exI [of _ H]) (auto simp: steady_def)
  next
    case (taken g1 resp)
    note safe1 = node_safe_steady [OF safe taken(1)]
    note logs1 = log_frame_logs [OF logs steady_log_frame [OF taken(1)]]
    have e: "entries (storage g1) = entries (storage g)" "commit_index (sm g1) = commit_index (sm g)"
      using taken(1) by (simp_all add: steady_def keeps_def)
    obtain H' where H': "advances M n H g' H'" "unat i \<le> acked H' n (ae_term req)"
        "unat (commit_index (sm g1)) \<le> unat (commit_index (sm g'))"
      using takes_advances [OF ok fin logs1 safe1 task taken(2-4)] cut e(1) by auto
    then show ?thesis
      using taken(5,6) e(2) by (intro exI [of _ H']) simp
  qed
qed

lemma restart_advances:
  assumes ok: "past_ok M H" and logs: "node_logs (log_of H) (leader_of H) n g"
    and safe: "node_safe M H n g" and s: "synced hard_state g" and v: "voted_for (sm g) \<noteq> Some 0"
    and step: "boot (mem_storage Debug) (config g) (storage g) now j = Some r"
  shows "\<exists>H'. advances M n H (inner r) H'"
proof -
  note out = restart_outcome [OF s step]
  have "node_safe M H n (inner r)"
    using safe out(1,3-7) out(9) [OF v]
    by (auto simp: node_safe_def acks_ok_def ballots_ok_def leads_ok_def commits_ok_def Let_def)
  then show ?thesis
    using advances_quiet [OF ok restart_logs [OF logs s step]] by blast
qed

text \<open>The commit index never decreases.\<close>

lemma commit_up:
  "observe_term S t l g = Some g' \<Longrightarrow> commit_index (sm g') = commit_index (sm g)"
  "maybe_advance_commit p S g = Some g' \<Longrightarrow> commit_index (sm g) \<le> commit_index (sm g')"
  "with_progress peer f g = Some g' \<Longrightarrow> commit_index (sm g') = commit_index (sm g)"
  "apply_committed p S g = Some g' \<Longrightarrow> commit_index (sm g') = commit_index (sm g)"
  "win_election p S g = Some g' \<Longrightarrow> commit_index (sm g') = commit_index (sm g)"
  by (auto simp: observe_term_def become_follower_def maybe_advance_commit_def notify_pending_def
      with_progress_def apply_committed_def fold_apply_entry win_election_def become_leader_def Let_def
      elim!: bind_SomeE dest!: save_same_lead replicate_all_frame split: if_splits option.splits sum.splits)

lemma handle_message_commit:
  assumes "handle_message p S g m = Some (g', b)"
  shows "commit_index (sm g) \<le> commit_index (sm g')"
proof (cases m)
  case (VoteResponse peer resp)
  then show ?thesis
    using assms by (auto simp: handle_vote_response_def Let_def elim!: bind_SomeE dest!: commit_up(1,5)
        split: if_splits)
next
  case (AppendResponse peer i resp)
  then show ?thesis
    using assms by (auto simp: handle_append_response_def elim!: bind_SomeE dest!: commit_up(1-3)
        split: if_splits)
next
  case (SnapshotResponse peer i resp)
  then show ?thesis
    using assms by (auto simp: handle_snapshot_response_def elim!: bind_SomeE dest!: commit_up(1-3)
        split: if_splits)
next
  case (Propose pr)
  then have "on_proposal p S g pr = Some g'" using assms by (auto elim!: bind_SomeE)
  then show ?thesis
    by (auto simp: on_proposal_def send_opt_def Let_def elim!: bind_SomeE dest!: replicate_all_frame
        split: if_splits sum.splits option.splits)
qed (use assms in auto)

lemma start_election_commit:
  "start_election p S g = Some g' \<Longrightarrow> commit_index (sm g') = commit_index (sm g)"
  by (auto simp: start_election_def become_candidate_def Let_def elim!: bind_SomeE
      dest!: save_same_lead commit_up(5) split: if_splits)

lemma on_timeout_commit:
  assumes "on_timeout p S now now' j r = Some r'"
  shows "commit_index (sm (inner r)) \<le> commit_index (sm (inner r'))"
proof -
  consider "start_election p S (inner r) = Some (inner r')" | "r' = r"
    | g1 g2 where "replicate_all p S (inner r) = Some g1"
      "maybe_advance_commit p S g1 = Some g2" "apply_committed p S g2 = Some (inner r')"
    using assms by (auto simp: on_timeout_def Let_def elim!: bind_SomeE split: if_splits)
  then show ?thesis
  proof cases
    case 1
    then show ?thesis using start_election_commit by fastforce
  next
    case 3
    then show ?thesis
      using replicate_all_frame [OF 3(1)] commit_up(2) [OF 3(2)] commit_up(4) [OF 3(3)] by simp
  qed simp
qed

end
