(* ===== verification/Cluster_Commit.thy ===== *)
theory Cluster_Commit
  imports Commit_Node
begin

text \<open>
  Committed entries in a cluster. In a run in which responses are counted only in their own term and
  no request merely cuts a log short, what one node has committed is a prefix of what any other node
  has committed, then or later, and of the log of every leader of a later term; and every node
  applies the same entry at an index. Neither proviso can be dropped: two runs, each violating one
  of them, make nodes apply different commands.
\<close>

subsection \<open>Careful runs\<close>

text \<open>No step merely cuts a log short: \<^verbatim>\<open>append_entries\<close> truncates the log also when it
  agrees with the request.\<close>

definition keeps_logs :: "NodeId set \<Rightarrow> MemStorageInner Cluster \<Rightarrow> MemStorageInner Cluster \<Rightarrow> bool" where
  "keeps_logs M c c' \<longleftrightarrow> (\<forall>n \<in> M. \<not> strict_prefix (entries (storage (inner (procs c' n))))
     (entries (storage (inner (procs c n)))))"

definition keeping_run ::
  "NodeId set \<Rightarrow> MemStorageInner env \<Rightarrow> MemStorageInner Cluster \<Rightarrow> MemStorageInner Cluster \<Rightarrow> bool" where
  "keeping_run M env =
     rtranclp (\<lambda>c c'. cluster_step Debug (mem_storage Debug) M env c c' \<and> keeps_logs M c c')"

abbreviation careful_run :: "NodeId set \<Rightarrow> MemStorageInner Cluster \<Rightarrow> MemStorageInner Cluster \<Rightarrow> bool" where
  "careful_run M \<equiv> keeping_run M prompt"

text \<open>Schedules of such runs. An event changes one node.\<close>

fun event_node :: "ClusterEvent \<Rightarrow> NodeId" where
  "event_node (EvClient n _) = n"
| "event_node (EvRecv n) = n"
| "event_node (EvTick n _ _) = n"
| "event_node (EvDispatch n) = n"
| "event_node (EvDeliver _ t) = task_target t"
| "event_node (EvArrive n _) = n"
| "event_node (EvRestart n _ _) = n"

lemma event_node_only:
  "apply_event p S M env e c = Some c' \<Longrightarrow> n \<noteq> event_node e \<Longrightarrow> procs c' n = procs c n"
  by (cases e) (auto split: if_splits list.splits option.splits sum.splits)

abbreviation log_in :: "MemStorageInner Cluster \<Rightarrow> NodeId \<Rightarrow> LogEntry list" where
  "log_in c n \<equiv> entries (storage (inner (procs c n)))"

fun run_keeping ::
  "NodeId set \<Rightarrow> MemStorageInner env \<Rightarrow> ClusterEvent list \<Rightarrow> MemStorageInner Cluster \<Rightarrow>
   MemStorageInner Cluster option" where
  "run_keeping M env [] c = Some c"
| "run_keeping M env (e # es) c = (case apply_event Debug (mem_storage Debug) M env e c of
     None \<Rightarrow> None
   | Some c' \<Rightarrow> if strict_prefix (log_in c' (event_node e)) (log_in c (event_node e)) then None
       else run_keeping M env es c')"

lemma run_keeping_run:
  "run_keeping M env es c = Some c' \<Longrightarrow> keeping_run M env c c'"
proof (induction es arbitrary: c)
  case Nil
  then show ?case by (simp add: keeping_run_def)
next
  case (Cons e es)
  then obtain c1 where c1: "apply_event Debug (mem_storage Debug) M env e c = Some c1"
      "\<not> strict_prefix (log_in c1 (event_node e)) (log_in c (event_node e))"
      "run_keeping M env es c1 = Some c'"
    by (auto split: option.splits if_splits)
  have "\<not> strict_prefix (log_in c1 n) (log_in c n)" for n
    using c1(2) event_node_only [OF c1(1), of n] by (cases "n = event_node e") auto
  then have "cluster_step Debug (mem_storage Debug) M env c c1 \<and> keeps_logs M c c1"
    using apply_event_step [OF c1(1)] by (simp add: keeps_logs_def)
  then show ?case
    using Cons.IH [OF c1(3)] unfolding keeping_run_def by (rule converse_rtranclp_into_rtranclp)
qed

subsection \<open>The cluster\<close>

definition cluster_safe :: "NodeId set \<Rightarrow> Past \<Rightarrow> MemStorageInner Cluster \<Rightarrow> bool" where
  "cluster_safe M H c \<longleftrightarrow> cluster_logs M (log_of H) (leader_of H) c \<and> past_ok M H \<and>
     (\<forall>n \<in> M. node_safe M H n (inner (procs c n)) \<and> (\<forall>m \<in> set (rx (procs c n)). reply_safe H n m)) \<and>
     (\<forall>(n, m) \<in> replies c. reply_safe H n m) \<and> (\<forall>(n, t) \<in> net c. task_safe M H n t)"

lemma put_replies [simp]: "replies (put n r c) = replies c"
  by (simp add: put_def)

lemma put_safe:
  assumes c: "cluster_safe M H c" and n: "n \<in> M" and inv: "cluster_inv hard M (put n r c)"
    and step: "advances M n H (inner r) H'" and rx: "\<forall>m \<in> set (rx r). reply_safe H' n m"
  shows "cluster_safe M H' (put n r c)"
proof -
  have l: "later n H H'" and st: "log_step n (log_of H) (leader_of H) (inner r) (log_of H') (leader_of H')"
    using step by (simp_all add: advances_def)
  have ok: "past_ok M H" and logs: "cluster_logs M (log_of H) (leader_of H) c"
    using c by (simp_all add: cluster_safe_def)
  have "node_safe M H' m (inner (procs (put n r c) m)) \<and>
      (\<forall>msg \<in> set (rx (procs (put n r c) m)). reply_safe H' m msg)" if m: "m \<in> M" for m
  proof (cases "m = n")
    case True
    then show ?thesis using step rx by (simp add: advances_def)
  next
    case False
    then show ?thesis
      using c m node_safe_later [OF ok _ l False] reply_safe_later [OF _ l]
      by (simp add: cluster_safe_def)
  qed
  then show ?thesis
    using c put_logs [OF logs n inv st] step reply_safe_later [OF _ l] task_safe_later [OF _ l]
    by (auto simp: cluster_safe_def advances_def)
qed

lemma put_entitled:
  assumes c: "cluster_safe M H c" and n: "n \<in> M" and inv: "cluster_inv hard M (put n r c)"
  shows "entitled M H n (inner r)"
proof -
  have "vote_inv M (votes_cast (put n r c)) n (sm (inner r)) (config (inner r))"
    and M: "members (config (inner r)) = M"
    using cluster_node_inv [OF inv n] by (simp_all add: node_inv_def)
  moreover have "card M < 2 * quorum (config (inner r))"
    using members_less_two_quorums [of "config (inner r)"] unfolding M .
  ultimately show ?thesis
    using put_free [OF _ n inv] c
    by (auto simp: entitled_def cluster_safe_def vote_inv_def)
qed

lemma cluster_finite: "cluster_inv hard M c \<Longrightarrow> finite M"
  using finite_members by (cases "M = {}") (auto simp: cluster_inv_def node_inv_def)

lemma reply_safe_client: "is_client m \<Longrightarrow> reply_safe H n m"
  by (cases m) simp_all

lemma cluster_step_env:
  assumes "cluster_step p S M env c c'" "\<And>g m. env g m \<Longrightarrow> env' g m"
  shows "cluster_step p S M env' c c'"
  using assms(1) by cases (use assms(2) in \<open>auto intro: cluster_step.intros\<close>)

definition commits_grow :: "NodeId set \<Rightarrow> MemStorageInner Cluster \<Rightarrow> MemStorageInner Cluster \<Rightarrow> bool" where
  "commits_grow M c c' \<longleftrightarrow> (\<forall>n \<in> M. unat (commit_index (sm (inner (procs c n)))) \<le>
     unat (commit_index (sm (inner (procs c' n)))))"

lemma commits_grow_put [simp]:
  "commits_grow M c (put n r c) \<longleftrightarrow>
   (n \<in> M \<longrightarrow> unat (commit_index (sm (inner (procs c n)))) \<le> unat (commit_index (sm (inner r))))"
  by (auto simp: commits_grow_def)

text \<open>A step of the cluster with its additions to the history.\<close>

lemma cluster_step_safe:
  assumes step: "cluster_step Debug (mem_storage Debug) M prompt c c'" and keep: "keeps_logs M c c'"
    and inv: "cluster_inv hard_state M c" "cluster_inv hard_state M c'"
    and lead: "\<forall>n \<in> M. leader_ok (inner (procs c n))" and safe: "cluster_safe M H c"
  shows "\<exists>n H'. later n H H' \<and> cluster_safe M H' c' \<and> commits_grow M c c'"
proof -
  have ok: "past_ok M H" and fin: "finite M"
    using safe cluster_finite [OF inv(1)] by (simp_all add: cluster_safe_def)
  have hist: "history_ok (log_of H) (leader_of H)" using ok by (simp add: past_ok_def)
  have node: "node_logs (log_of H) (leader_of H) n (inner (procs c n))"
      "node_safe M H n (inner (procs c n))" "\<forall>m \<in> set (rx (procs c n)). reply_safe H n m"
      "members (config (inner (procs c n))) = M" "synced hard_state (inner (procs c n))"
      "voted_for (sm (inner (procs c n))) \<noteq> Some 0"
    if "n \<in> M" for n
    using safe cluster_node_inv [OF inv(1) that] that
    by (auto simp: cluster_safe_def cluster_logs_def node_inv_def vote_inv_def)
  have quiet: ?thesis if c': "c' = put n r c" and n: "n \<in> M" and i: "inner r = inner (procs c n)"
    and rx: "\<forall>m \<in> set (rx r). reply_safe H n m" for n r
  proof -
    have "advances M n H (inner r) H"
      using ok hist node(1,2) [OF n] i by (simp add: advances_def log_step_same)
    then have "cluster_safe M H c'"
      using put_safe [OF safe n] inv(2) c' rx by blast
    moreover have "commits_grow M c c'" using c' i by simp
    ultimately show ?thesis using later_refl by blast
  qed
  have moved: ?thesis if c': "c' = put n r c" and n: "n \<in> M"
    and ex: "\<exists>H'. advances M n H (inner r) H'" and rx: "\<forall>m \<in> set (rx r). reply_safe H n m"
    and com: "commit_index (sm (inner (procs c n))) \<le> commit_index (sm (inner r))" for n r
  proof -
    obtain H' where H': "advances M n H (inner r) H'" using ex by blast
    then have l: "later n H H'" by (simp add: advances_def)
    have "cluster_safe M H' c'"
      using put_safe [OF safe n _ H'] inv(2) c' rx reply_safe_later [OF _ l] by blast
    moreover have "commits_grow M c c'" using c' com by (simp add: word_le_nat_alt)
    ultimately show ?thesis using l by blast
  qed
  from step show ?thesis
  proof cases
    case (client n m r)
    then have r: "r = (procs c n)\<lparr>rx := rx (procs c n) @ [m]\<rparr>"
      by (auto simp: api_send_def split: if_splits)
    show ?thesis
      using quiet [OF client(1,2)] r node(3) [OF client(2)] reply_safe_client [OF client(3)] by auto
  next
    case (recv n m ms r)
    obtain b where b: "handle_message Debug (mem_storage Debug) (inner (procs c n)) m = Some (inner r, b)"
        "set (rx r) \<subseteq> set ms"
      using recv(4,6) by (auto simp: on_recv_def elim!: bind_SomeE split: if_splits)
    have ms: "reply_safe H n m" "\<forall>m \<in> set ms. reply_safe H n m"
      using node(3) [OF recv(2)] recv(4) by simp_all
    have ent: "entitled M H n (inner r)" using put_entitled [OF safe recv(2)] inv(2) recv(1) by blast
    have "\<exists>H'. advances M n H (inner r) H'"
      using handle_message_advances [OF ok node(1,2,4) [OF recv(2)] _ ms(1) recv(5) ent b(1)] lead recv(2)
      by blast
    then show ?thesis
      using moved [OF recv(1,2)] handle_message_commit [OF b(1)] b(2) ms(2) by blast
  next
    case (tick n now now' j r)
    have ent: "entitled M H n (inner r)" using put_entitled [OF safe tick(2)] inv(2) tick(1) by blast
    have "\<exists>H'. advances M n H (inner r) H'"
      using on_timeout_advances [OF ok node(1,2,4) [OF tick(2)] _ ent tick(8)] lead tick(2) by blast
    moreover have "rx r = rx (procs c n)"
      using tick(8) by (auto simp: on_timeout_def Let_def elim!: bind_SomeE split: if_splits)
    ultimately show ?thesis
      using moved [OF tick(1,2)] on_timeout_commit [OF tick(8)] node(3) [OF tick(2)] by simp
  next
    case (dispatch n t ts)
    let ?g = "(inner (procs c n))\<lparr>spawned := ts\<rparr>"
      and ?d = "put n (inner_update (\<lambda>g. g\<lparr>spawned := ts\<rparr>) (procs c n)) c"
    have t: "task_safe M H n t" and "node_safe M H n ?g"
      using node(2) [OF dispatch(2)] dispatch(3)
      by (auto simp: node_safe_def acks_ok_def ballots_ok_def leads_ok_def commits_ok_def)
    moreover have "node_logs (log_of H) (leader_of H) n ?g" and tl: "task_logged (log_of H) (leader_of H) n t"
      using node(1) [OF dispatch(2)] dispatch(3) by (auto simp: node_logs_def)
    ultimately have "advances M n H ?g H"
      using ok hist by (simp add: advances_def log_step_same)
    moreover have "cluster_inv hard_state M ?d"
      using inv(2) dispatch(1) by (simp add: cluster_inv_def)
    ultimately have "cluster_safe M H ?d"
      using put_safe [OF safe dispatch(2)] node(3) [OF dispatch(2)] by simp
    then have "cluster_safe M H c'"
      using dispatch(1) t tl by (simp add: cluster_safe_def cluster_logs_def)
    moreover have "commits_grow M c c'" using dispatch(1) by (simp add: commits_grow_def)
    ultimately show ?thesis using later_refl by blast
  next
    case (deliver n t g reply)
    let ?to = "task_target t" and ?d = "put (task_target t) ((procs c (task_target t))\<lparr>inner := g\<rparr>) c"
    note to = deliver(3)
    have t: "task_logged (log_of H) (leader_of H) n t" "task_safe M H n t" "task_ok M n t"
      using safe inv(1) deliver(2) by (auto simp: cluster_safe_def cluster_logs_def cluster_inv_def)
    have d: "cluster_inv hard_state M ?d"
      using inv(2) deliver(1) by (simp add: cluster_inv_def split: option.splits)
    have cut: "\<not> strict_prefix (entries (storage g)) (entries (storage (inner (procs c ?to))))"
      using keep to deliver(1) by (auto simp: keeps_logs_def)
    have "\<exists>H'. advances M ?to H g H' \<and> (\<forall>m. reply = Some m \<longrightarrow> reply_safe H' n m) \<and>
        unat (commit_index (sm (inner (procs c ?to)))) \<le> unat (commit_index (sm g))"
    proof (cases t)
      case (VoteTask x req)
      then have x: "x \<in> M" "?to = x" using to by simp_all
      obtain r where r: "on_request_vote (mem_storage Debug) (inner (procs c x)) req = Some (g, r)"
          "reply = (case r of Inr resp \<Rightarrow> Some (VoteResponse x resp) | Inl _ \<Rightarrow> None)"
        using deliver(4) VoteTask by (auto elim!: bind_SomeE)
      have "candidate_id req = n" using t(3) VoteTask by (simp add: task_ok_def)
      then obtain H' where H': "advances M x H g H'" "\<forall>resp. r = Inr resp \<longrightarrow> reply_safe H' n (VoteResponse x resp)"
        using vote_advances [OF ok node(1,2) [OF x(1)] _ _ r(1)] t(2) VoteTask by auto
      moreover have "commit_index (sm g) = commit_index (sm (inner (procs c x)))"
        using r(1) by (auto simp: on_request_vote_def Let_def elim!: bind_SomeE
            dest!: commit_up(1) save_same_lead split: if_splits)
      ultimately show ?thesis
        using r(2) unfolding x(2) by (intro exI [of _ H']) (auto split: sum.splits)
    next
      case (AppendTask x i req)
      then have x: "x \<in> M" "?to = x" using to by simp_all
      obtain r where r: "on_append_entries Debug (mem_storage Debug) (inner (procs c x)) req = Some (g, r)"
          "reply = (case r of Inr resp \<Rightarrow> Some (AppendResponse x i resp) | Inl _ \<Rightarrow> None)"
        using deliver(4) AppendTask by (auto elim!: bind_SomeE)
      obtain H' where "advances M x H g H'" "\<forall>resp. r = Inr resp \<longrightarrow> reply_safe H' n (AppendResponse x i resp)"
          "unat (commit_index (sm (inner (procs c x)))) \<le> unat (commit_index (sm g))"
        using append_advances [OF ok fin node(1,2) [OF x(1)] _ _ r(1) cut [unfolded x(2)]] t(1,2) AppendTask
        by blast
      then show ?thesis
        using r(2) unfolding x(2) by (intro exI [of _ H']) (auto split: sum.splits)
    qed (use t(1) in simp)
    then obtain H' where H': "advances M ?to H g H'" "\<forall>m. reply = Some m \<longrightarrow> reply_safe H' n m"
        "unat (commit_index (sm (inner (procs c ?to)))) \<le> unat (commit_index (sm g))"
      by blast
    then have l: "later ?to H H'" by (simp add: advances_def)
    have "cluster_safe M H' ?d"
      using put_safe [OF safe to d] H'(1) node(3) [OF to] reply_safe_later [OF _ l] by simp
    then have "cluster_safe M H' c'"
      using deliver(1) H'(2) by (auto simp: cluster_safe_def cluster_logs_def put_def split: option.splits)
    moreover have "commits_grow M c c'" using deliver(1) H'(3) by (simp add: commits_grow_def)
    ultimately show ?thesis using l by blast
  next
    case (arrive n m)
    have "reply_safe H n m" using safe arrive(2) by (auto simp: cluster_safe_def)
    then show ?thesis
      using quiet [OF arrive(1,3)] node(3) [OF arrive(3)] by auto
  next
    case (restart n j now r)
    note out = restart_outcome [OF node(5) [OF restart(2)] restart(4)]
    have "\<exists>H'. advances M n H (inner r) H'"
      using restart_advances [OF ok node(1,2,5,6) [OF restart(2)] restart(4)] .
    then show ?thesis
      using moved [OF restart(1,2)] out(7,8) by simp
  qed
qed

subsection \<open>Careful runs keep what is committed\<close>

definition grown :: "Past \<Rightarrow> Past \<Rightarrow> bool" where
  "grown = rtranclp (\<lambda>H H'. \<exists>n. later n H H')"

lemma grown_chosen: "grown H H' \<Longrightarrow> chosen M H t i \<Longrightarrow> chosen M H' t i"
  unfolding grown_def by (induction rule: rtranclp_induct) (auto intro: chosen_later)

lemma grown_prefix: "grown H H' \<Longrightarrow> prefix (log_of H t) (log_of H' t)"
  unfolding grown_def
  by (induction rule: rtranclp_induct) (auto dest: later_prefix intro: prefix_order.trans)

text \<open>A cluster that starts with empty logs and nothing committed.\<close>

definition fresh_cluster :: "NodeId set \<Rightarrow> MemStorageInner Cluster \<Rightarrow> bool" where
  "fresh_cluster M c \<longleftrightarrow> fresh_logs M c \<and> (\<forall>n \<in> M. commit_index (sm (inner (procs c n))) = 0)"

definition no_past :: Past where
  "no_past = \<lparr>log_of = \<lambda>_. [], leader_of = \<lambda>_. None, acked = \<lambda>_ _. 0, ballot = \<lambda>_ _. None\<rparr>"

lemma restore_applied: "restore S g = Some g' \<Longrightarrow> applied g' = applied g"
  by (auto simp: restore_def elim!: bind_SomeE split: sum.splits)

lemma fresh_cluster_safe:
  assumes "fresh_cluster M c"
  shows "cluster_safe M no_past c"
proof -
  have fresh: "fresh_logs M c" and init: "cluster_init (mem_storage Debug) M c"
    using assms by (simp_all add: fresh_cluster_def fresh_logs_def)
  have "node_safe M no_past n (inner (procs c n)) \<and> rx (procs c n) = []" if n: "n \<in> M" for n
  proof -
    let ?g = "inner (procs c n)"
    obtain st now j where "boot (mem_storage Debug) (config ?g) st now j = Some (procs c n)"
      using init n by (auto simp: cluster_init_def)
    then have r: "restore (mem_storage Debug) (node_new (config ?g) st) = Some ?g" "rx (procs c n) = []"
      by (auto dest: start_facts)
    then have "role (sm ?g) = Follower" "spawned ?g = []"
      using mem_hs.restore_synced(1,6) [of Debug "node_new (config ?g) st" ?g]
      by (simp_all add: node_new_def sm_new_def)
    moreover have "applied ?g = []"
      using restore_applied [OF r(1)] by (simp add: node_new_def)
    moreover have "commit_index (sm ?g) = 0" using assms n by (simp add: fresh_cluster_def)
    ultimately show ?thesis
      using r(2) by (simp add: node_safe_def acks_ok_def ballots_ok_def leads_ok_def commits_ok_def
          committed_def no_past_def)
  qed
  moreover have "past_ok M no_past"
    by (simp add: past_ok_def history_ok_def matches_def no_past_def)
  ultimately show ?thesis
    using fresh_logs_inv [OF fresh] init by (simp add: cluster_safe_def no_past_def cluster_init_def)
qed

lemma careful_run_safe:
  assumes "careful_run M c c'" "reachable Debug (mem_storage Debug) M prompt c"
    and "cluster_inv hard_state M c" "cluster_safe M H c"
  shows "reachable Debug (mem_storage Debug) M prompt c' \<and> cluster_inv hard_state M c' \<and>
    (\<exists>H'. cluster_safe M H' c' \<and> grown H H') \<and> commits_grow M c c'"
  using assms unfolding keeping_run_def
proof (induction rule: rtranclp_induct)
  case base
  then show ?case by (auto simp: grown_def commits_grow_def)
next
  case (step c1 c2)
  then obtain H1 where 1: "reachable Debug (mem_storage Debug) M prompt c1" "cluster_inv hard_state M c1"
      "cluster_safe M H1 c1" "grown H H1" "commits_grow M c c1"
    by blast
  have s: "cluster_step Debug (mem_storage Debug) M prompt c1 c2" "keeps_logs M c1 c2"
    using step.hyps(2) by simp_all
  have r: "reachable Debug (mem_storage Debug) M prompt c2"
    using reachable.step [OF 1(1) s(1)] .
  have inv: "cluster_inv hard_state M c2"
    using cluster_step_env [OF s(1), of "timely Debug"] 1(2) mem_hs.cluster_step_inv
    by (auto simp: prompt_def)
  obtain n H2 where 2: "later n H1 H2" "cluster_safe M H2 c2" "commits_grow M c1 c2"
    using cluster_step_safe [OF s 1(2) inv reachable_leader_ok [OF 1(1)] 1(3)] by blast
  have "grown H H2"
    using 1(4) 2(1) unfolding grown_def by (auto intro: rtranclp.rtrancl_into_rtrancl)
  moreover have "commits_grow M c c2"
    using 1(5) 2(3) unfolding commits_grow_def by (meson order.trans)
  ultimately show ?case using r inv 2(2) by blast
qed

lemma careful_run_states:
  assumes "fresh_cluster M c0" "careful_run M c0 c" "careful_run M c c'"
  obtains H H' where "finite M" "cluster_safe M H c" "cluster_safe M H' c'" "grown H H'" "commits_grow M c c'"
proof -
  have fresh: "fresh_logs M c0" "cluster_init (mem_storage Debug) M c0"
    using assms(1) by (simp_all add: fresh_cluster_def fresh_logs_def)
  have inv: "cluster_inv hard_state M c0" using fresh(2) by (rule mem_hs.cluster_init_inv)
  have "reachable Debug (mem_storage Debug) M prompt c0" using fresh(2) by (rule reachable.initial)
  note run = careful_run_safe [OF assms(2) this inv fresh_cluster_safe [OF assms(1)]]
  then obtain H where H: "reachable Debug (mem_storage Debug) M prompt c" "cluster_inv hard_state M c"
      "cluster_safe M H c"
    by blast
  then show ?thesis
    using careful_run_safe [OF assms(3) H] cluster_finite that by blast
qed

text \<open>The committed entries of a node, and where they come from in a later history.\<close>

abbreviation commit_in :: "MemStorageInner Cluster \<Rightarrow> NodeId \<Rightarrow> nat" where
  "commit_in c n \<equiv> unat (commit_index (sm (inner (procs c n))))"

lemma committed_chosen:
  assumes "cluster_safe M H c" "grown H H'" "n \<in> M" "commit_in c n \<noteq> 0"
  obtains s i where "chosen M H' s i" "commit_in c n \<le> i" "s \<le> current_term (sm (inner (procs c n)))"
    "commit_in c n \<le> length (log_in c n)" "take (commit_in c n) (log_in c n) = take (commit_in c n) (log_of H' s)"
proof -
  let ?k = "commit_in c n"
  have "committed M H (current_term (sm (inner (procs c n)))) (log_in c n) ?k"
    using assms(1,3) by (simp add: cluster_safe_def node_safe_def commits_ok_def)
  then obtain s i where s: "chosen M H s i" "?k \<le> i" "s \<le> current_term (sm (inner (procs c n)))"
      "?k \<le> length (log_in c n)" "take ?k (log_in c n) = take ?k (log_of H s)"
    using assms(4) by (auto simp: committed_def)
  have "take ?k (log_of H' s) = take ?k (log_of H s)"
    using grown_prefix [OF assms(2), of s] s(1,2) by (auto simp: prefix_def chosen_def)
  then show ?thesis
    using that [of s i] s grown_chosen [OF assms(2)] by simp
qed

lemma committed_within:
  assumes "cluster_safe M H c" "n \<in> M"
  shows "commit_in c n \<le> length (log_in c n)"
proof (cases "commit_in c n = 0")
  case False
  have "grown H H" by (simp add: grown_def)
  then show ?thesis using committed_chosen [OF assms(1) _ assms(2) False] by blast
qed simp

lemma applied_within:
  assumes "cluster_safe M H c" "n \<in> M" "e \<in> set (applied (inner (procs c n)))"
  shows "\<exists>k < commit_in c n. k < length (log_in c n) \<and> e = log_in c n ! k"
proof -
  have "commits_ok M H (inner (procs c n))"
    using assms(1,2) by (simp add: cluster_safe_def node_safe_def)
  then show ?thesis using assms(3) by (simp add: commits_ok_def)
qed

lemma committed_agree:
  assumes "fresh_cluster M c0" "careful_run M c0 c" "careful_run M c c'" "n \<in> M" "m \<in> M"
    and "k \<le> commit_in c n" "k \<le> commit_in c' m"
  shows "take k (log_in c n) = take k (log_in c' m)"
proof (cases "k = 0")
  case False
  obtain H H' where H: "finite M" "cluster_safe M H c" "cluster_safe M H' c'" "grown H H'"
    using careful_run_states [OF assms(1-3)] by blast
  have "grown H' H'" and pos: "commit_in c n \<noteq> 0" "commit_in c' m \<noteq> 0"
    using False assms(6,7) by (auto simp: grown_def)
  obtain s i where s: "chosen M H' s i" "commit_in c n \<le> i"
      "take (commit_in c n) (log_in c n) = take (commit_in c n) (log_of H' s)"
    using committed_chosen [OF H(2,4) assms(4) pos(1)] by blast
  obtain t j where t: "chosen M H' t j" "commit_in c' m \<le> j"
      "take (commit_in c' m) (log_in c' m) = take (commit_in c' m) (log_of H' t)"
    using committed_chosen [OF H(3) \<open>grown H' H'\<close> assms(5) pos(2)] by blast
  have "take k (log_in c n) = take k (log_of H' s)"
    using s(3) assms(6) by (rule take_eq_shorter)
  moreover have "take k (log_in c' m) = take k (log_of H' t)"
    using t(3) assms(7) by (rule take_eq_shorter)
  moreover have "past_ok M H'" using H(3) by (simp add: cluster_safe_def)
  then have "take k (log_of H' s) = take k (log_of H' t)"
    using H(1) s(1) t(1) by (rule chosen_agree) (use s(2) t(2) assms(6,7) in simp_all)
  ultimately show ?thesis by simp
qed simp

text \<open>A run for the witnesses: node 1 commits an entry in term 1 and applies it, its next heartbeat
  tells node 2, and node 2 then wins term 2 with the vote of node 3 and applies the entry.\<close>

definition stand :: "Term \<Rightarrow> NodeId \<Rightarrow> LogIndex \<Rightarrow> Term \<Rightarrow> RequestVoteRequest" where
  "stand t n i u = \<lparr>rv_term = t, candidate_id = n, last_log_index = i, last_log_term = u, pre_vote = False\<rparr>"

definition append_from ::
  "Term \<Rightarrow> NodeId \<Rightarrow> LogIndex \<Rightarrow> Term \<Rightarrow> LogEntry list \<Rightarrow> LogIndex \<Rightarrow> AppendEntriesRequest" where
  "append_from t n prev u es c = \<lparr>ae_term = t, ae_leader_id = n, prev_log_index = prev, prev_log_term = u,
     ae_entries = map log_entry_to_proto_entry es, leader_commit = c\<rparr>"

definition answers :: "NodeId \<Rightarrow> RaftMessage \<Rightarrow> ClusterEvent list" where
  "answers n m = [EvArrive n m, EvRecv n]"

definition vote_of :: "NodeId \<Rightarrow> Term \<Rightarrow> RaftMessage" where
  "vote_of v t = VoteResponse v \<lparr>rvr_term = t, vote_granted = True\<rparr>"

definition handover :: "ClusterEvent list" where
  "handover = [EvTick 1 400 300, EvDispatch 1, EvDispatch 1, EvDispatch 1,
     EvDeliver 1 (AppendTask 2 1 (append_from 1 1 1 1 [] 1)),
     EvTick 2 800 300, EvDispatch 2, EvDispatch 2, EvDeliver 2 (VoteTask 3 (stand 2 2 1 1))] @
     answers 2 (vote_of 3 2) @ [EvTick 2 900 300]"

lemma handover_run:
  obtains c c' where "careful_run node_ids demo_cluster c" "careful_run node_ids c c'"
    "commit_in c 1 = 1" "current_term (sm (inner (procs c 1))) = 1" "is_leader c' 2 2"
    "map le_index (applied (inner (procs c' 1))) = [1]" "map le_index (applied (inner (procs c' 2))) = [1]"
proof -
  have "case run_keeping node_ids prompt commit_one demo_cluster of None \<Rightarrow> False
    | Some c \<Rightarrow> commit_in c 1 = 1 \<and> current_term (sm (inner (procs c 1))) = 1 \<and>
        (case run_keeping node_ids prompt handover c of None \<Rightarrow> False
        | Some c' \<Rightarrow> is_leader c' 2 2 \<and> map le_index (applied (inner (procs c' 1))) = [1] \<and>
            map le_index (applied (inner (procs c' 2))) = [1])"
    by code_simp
  then show ?thesis
    by (auto split: option.splits simp del: One_nat_def intro!: that dest!: run_keeping_run)
qed

lemma demo_fresh_cluster: "fresh_cluster node_ids demo_cluster"
  using demo_fresh
  by (simp add: fresh_cluster_def demo_cluster_def demo_node_def node_new_def sm_new_def)

text \<open>C1 (safety): state machine safety. In a dev build, with any losses, delays, reordering and
  duplicates of messages and any restarts, if responses are counted only in their own term and no
  request merely cuts a log short, then the entries with the same index that two nodes have applied,
  each at any time of a run, are the same.\<close>

theorem state_machine_safety:
  assumes "fresh_cluster M c0" "careful_run M c0 c" "careful_run M c c'" "n \<in> M" "m \<in> M"
    and "e \<in> set (applied (inner (procs c n)))" "f \<in> set (applied (inner (procs c' m)))"
    and "le_index e = le_index f"
  shows "e = f"
proof -
  obtain H H' where H: "cluster_safe M H c" "cluster_safe M H' c'"
    using careful_run_states [OF assms(1-3)] by blast
  obtain k where k: "k < commit_in c n" "k < length (log_in c n)" "e = log_in c n ! k"
    using applied_within [OF H(1) assms(4,6)] by blast
  obtain l where l: "l < commit_in c' m" "l < length (log_in c' m)" "f = log_in c' m ! l"
    using applied_within [OF H(2) assms(5,7)] by blast
  have "contiguous 1 (log_in c n)" "contiguous 1 (log_in c' m)"
    using H assms(4,5) by (simp_all add: cluster_safe_def cluster_logs_def node_logs_def plain_log_def)
  then have "unat (le_index e) = Suc k" "unat (le_index f) = Suc l"
    using k l by (simp_all add: contiguous_def)
  then have "k = l" using assms(8) by simp
  then have "take (Suc k) (log_in c n) = take (Suc k) (log_in c' m)"
    using k(1) l(1) by (intro committed_agree [OF assms(1-5)]) simp_all
  then show ?thesis
    using k l \<open>k = l\<close> nth_take [of k "Suc k"] by (metis lessI)
qed

theorem state_machine_safety_witness:
  "\<exists>c e f. careful_run node_ids demo_cluster c \<and> e \<in> set (applied (inner (procs c 1))) \<and>
    f \<in> set (applied (inner (procs c 2))) \<and> e = f"
proof -
  obtain c c' where c: "careful_run node_ids demo_cluster c" "careful_run node_ids c c'"
      "map le_index (applied (inner (procs c' 1))) = [1]" "map le_index (applied (inner (procs c' 2))) = [1]"
    by (rule handover_run)
  have run: "careful_run node_ids demo_cluster c'"
    using c(1,2) unfolding keeping_run_def by (rule rtranclp_trans)
  obtain e f where "applied (inner (procs c' 1)) = [e]" "applied (inner (procs c' 2)) = [f]"
      "le_index e = le_index f"
    using c(3,4) by auto
  moreover have "careful_run node_ids c' c'" by (simp add: keeping_run_def)
  ultimately show ?thesis
    using state_machine_safety [OF demo_fresh_cluster run _, of c' 1 2 e f] run
    by (auto simp: node_ids_def)
qed

text \<open>C2 (safety): leader completeness. What a node has committed in some state is a prefix of the
  log of every leader of the same or a later term, then and later.\<close>

theorem leader_completeness:
  assumes "fresh_cluster M c0" "careful_run M c0 c" "careful_run M c c'" "n \<in> M" "m \<in> M"
    and "is_leader c' m t" "current_term (sm (inner (procs c n))) \<le> t"
  shows "prefix (take (commit_in c n) (log_in c n)) (log_in c' m)"
proof (cases "commit_in c n = 0")
  case False
  obtain H H' where H: "finite M" "cluster_safe M H c" "cluster_safe M H' c'" "grown H H'"
    using careful_run_states [OF assms(1-3)] by blast
  obtain s i where s: "chosen M H' s i" "commit_in c n \<le> i" "s \<le> current_term (sm (inner (procs c n)))"
      "take (commit_in c n) (log_in c n) = take (commit_in c n) (log_of H' s)"
    using committed_chosen [OF H(2,4) assms(4) False] by blast
  have ok: "past_ok M H'" using H(3) by (simp add: cluster_safe_def)
  have L: "leader_of H' t = Some m" "log_of H' t = log_in c' m"
    using H(3) assms(5,6) by (auto simp: cluster_safe_def cluster_logs_def node_logs_def is_leader_def)
  have "prefix (take i (log_of H' s)) (log_of H' t)"
  proof (cases "s = t")
    case False
    then show ?thesis
      using chosen_in_later_logs [OF ok H(1) s(1)] L(1) s(3) assms(7) by simp
  qed (simp add: take_is_prefix)
  moreover have "prefix (take (commit_in c n) (log_of H' s)) (take i (log_of H' s))"
    using s(2) by (metis min.absorb1 take_is_prefix take_take)
  ultimately show ?thesis using s(4) L(2) by (metis prefix_order.trans)
qed simp

theorem leader_completeness_witness:
  "\<exists>c c'. careful_run node_ids demo_cluster c \<and> careful_run node_ids c c' \<and> commit_in c 1 = 1 \<and>
    is_leader c' 2 2 \<and> prefix (take (commit_in c 1) (log_in c 1)) (log_in c' 2)"
proof -
  obtain c c' where c: "careful_run node_ids demo_cluster c" "careful_run node_ids c c'"
      "commit_in c 1 = 1" "current_term (sm (inner (procs c 1))) = 1" "is_leader c' 2 2"
    by (rule handover_run)
  have "prefix (take (commit_in c 1) (log_in c 1)) (log_in c' 2)"
    by (rule leader_completeness [OF demo_fresh_cluster c(1,2) _ _ c(5)]) (simp_all add: node_ids_def c(4))
  then show ?thesis using c by blast
qed

text \<open>C5 (invariant): what is committed stays. The commit index of a node never decreases, restarts
  included, is at most the length of its log, and the entries up to it never change.\<close>

theorem committed_entries_stay:
  assumes "fresh_cluster M c0" "careful_run M c0 c" "careful_run M c c'" "n \<in> M"
  shows "commit_in c n \<le> commit_in c' n \<and> commit_in c' n \<le> length (log_in c' n) \<and>
    take (commit_in c n) (log_in c' n) = take (commit_in c n) (log_in c n)"
proof -
  obtain H H' where H: "cluster_safe M H c" "cluster_safe M H' c'" "commits_grow M c c'"
    using careful_run_states [OF assms(1-3)] by blast
  have le: "commit_in c n \<le> commit_in c' n" using H(3) assms(4) by (simp add: commits_grow_def)
  then show ?thesis
    using committed_agree [OF assms(1-3) assms(4,4) order.refl le] committed_within [OF H(2) assms(4)]
    by simp
qed

theorem committed_entries_stay_witness:
  "\<exists>c c'. careful_run node_ids demo_cluster c \<and> careful_run node_ids c c' \<and> commit_in c 1 = 1 \<and>
    take (commit_in c 1) (log_in c' 1) = take (commit_in c 1) (log_in c 1)"
proof -
  obtain c c' where c: "careful_run node_ids demo_cluster c" "careful_run node_ids c c'" "commit_in c 1 = 1"
    by (rule handover_run)
  have "1 \<in> node_ids" by (simp add: node_ids_def)
  then show ?thesis
    using committed_entries_stay [OF demo_fresh_cluster c(1,2)] c by blast
qed

end
