(* ===== verification/Cluster_Faults.thy ===== *)
theory Cluster_Faults
  imports Cluster_Commit
begin

text \<open>
  Runs in which committed entries are not safe. Each breaks one of the two provisos of
  \<open>Cluster_Commit\<close> and keeps the other: a request that arrives late cuts a follower's log, or a
  response that arrives late is counted in a later term.
\<close>

subsection \<open>A request that cuts a log\<close>

text \<open>Node 1 leads term 1 and proposes two commands; node 2 takes both at once, so both are committed
  and applied and both clients are answered. The request with the first command alone reaches node
  2 late and truncates its log. Node 2 then wins term 2 with the vote of node 3, and commits and
  applies another command at index 2.\<close>

definition demo_entry_at :: "Term \<Rightarrow> LogIndex \<Rightarrow> u8 \<Rightarrow> LogEntry" where
  "demo_entry_at t i d = \<lparr>le_term = t, le_index = i, le_data = [d], le_type = Normal\<rparr>"

definition append_ok :: "Term \<Rightarrow> NodeId \<Rightarrow> LogIndex \<Rightarrow> RaftMessage" where
  "append_ok t n i = AppendResponse n i \<lparr>aer_term = t, success = True, conflict_index = 0, conflict_term = 0\<rparr>"

definition append_from_two :: "LogIndex \<Rightarrow> Term \<Rightarrow> LogEntry list \<Rightarrow> AppendEntriesRequest" where
  "append_from_two prev t es = \<lparr>ae_term = 2, ae_leader_id = 2, prev_log_index = prev, prev_log_term = t,
     ae_entries = map log_entry_to_proto_entry es, leader_commit = 0\<rparr>"

definition commit_two :: "ClusterEvent list" where
  "commit_two = elect_one @
    [EvClient 1 (Propose \<lparr>prop_data = [42], prop_tx = Some 7\<rparr>), EvRecv 1,
     EvClient 1 (Propose \<lparr>prop_data = [43], prop_tx = Some 8\<rparr>), EvRecv 1] @
    replicate 6 (EvDispatch 1) @
    [EvDeliver 1 (AppendTask 2 2 (demo_append [demo_entry_at 1 1 42, demo_entry_at 1 2 43])),
     EvArrive 1 (append_ok 1 2 2), EvRecv 1, EvTick 1 400 300]"

definition lose_commit :: "ClusterEvent list" where
  "lose_commit = commit_two @
    [EvDeliver 1 (AppendTask 2 1 (demo_append [demo_entry_at 1 1 42])),
     EvTick 2 400 300, EvDispatch 2, EvDispatch 2,
     EvDeliver 2 (VoteTask 3 \<lparr>rv_term = 2, candidate_id = 2, last_log_index = 1, last_log_term = 1,
       pre_vote = False\<rparr>),
     EvArrive 2 (VoteResponse 3 \<lparr>rvr_term = 2, vote_granted = True\<rparr>), EvRecv 2,
     EvDispatch 2, EvDispatch 2,
     EvDeliver 2 (AppendTask 3 1 (append_from_two 1 1 [])),
     EvArrive 2 (AppendResponse 3 1 (reject 1 0 2)), EvRecv 2,
     EvClient 2 (Propose \<lparr>prop_data = [99], prop_tx = Some 9\<rparr>), EvRecv 2, EvDispatch 2, EvDispatch 2,
     EvDeliver 2 (AppendTask 3 2 (append_from_two 0 0 [demo_entry_at 1 1 42, demo_entry_at 2 2 99])),
     EvArrive 2 (append_ok 2 3 2), EvRecv 2, EvTick 2 500 300]"

text \<open>C7 (error): committed entries can be lost. With no late votes, no restarts and no lost messages,
  two nodes apply different commands at index 2, and the clients of both have been told that theirs
  is committed.\<close>

theorem committed_entry_lost:
  "\<exists>c. run_demo prompt lose_commit = Some c \<and>
    applied (inner (procs c 1)) = [demo_entry_at 1 1 42, demo_entry_at 1 2 43] \<and>
    applied (inner (procs c 2)) = [demo_entry_at 1 1 42, demo_entry_at 2 2 99] \<and>
    (8, ProposeReply (Inr 2)) \<in> set (sent (inner (procs c 1))) \<and>
    (9, ProposeReply (Inr 2)) \<in> set (sent (inner (procs c 2)))"
proof -
  have "case run_demo prompt lose_commit of None \<Rightarrow> False
    | Some c \<Rightarrow> applied (inner (procs c 1)) = [demo_entry_at 1 1 42, demo_entry_at 1 2 43] \<and>
        applied (inner (procs c 2)) = [demo_entry_at 1 1 42, demo_entry_at 2 2 99] \<and>
        (8, ProposeReply (Inr 2)) \<in> set (sent (inner (procs c 1))) \<and>
        (9, ProposeReply (Inr 2)) \<in> set (sent (inner (procs c 2)))"
    by code_simp
  then show ?thesis by (simp split: option.splits)
qed

subsection \<open>A late acknowledgement\<close>

text \<open>Node 1 leads terms 1, 3 and 5, node 3 leads terms 2, 4 and 6. In term 3 node 2 acknowledges
  two entries of term 1, which are not committed; node 3 then replaces them in the log of node 1 by
  one entry of term 2. In term 5 node 1 appends an entry at index 2 and counts the acknowledgement of
  term 3, so the entry is committed with no other copy. Node 3, elected by node 2, commits another
  one at that index.\<close>

definition appended_at :: "NodeId \<Rightarrow> LogIndex \<Rightarrow> LogIndex \<Rightarrow> Term \<Rightarrow> Term \<Rightarrow> RaftMessage" where
  "appended_at v i ci ct t = AppendResponse v i (reject ci ct t)"

definition proposes :: "NodeId \<Rightarrow> u8 \<Rightarrow> oneshot \<Rightarrow> ClusterEvent list" where
  "proposes n d tx = [EvClient n (Propose \<lparr>prop_data = [d], prop_tx = Some tx\<rparr>), EvRecv n]"

definition late_ack :: "ClusterEvent list" where
  "late_ack =
    elect_one @ proposes 1 42 7 @ proposes 1 43 8 @ replicate 7 (EvDispatch 1) @
    [EvTick 3 300 300, EvTick 3 900 300] @ replicate 4 (EvDispatch 3) @
    [EvDeliver 3 (VoteTask 2 (stand 2 3 0 0))] @ answers 3 (vote_of 2 2) @
    [EvDeliver 3 (VoteTask 1 (stand 2 3 0 0))] @ proposes 3 50 9 @ replicate 4 (EvDispatch 3) @
    [EvTick 1 1200 300] @ replicate 2 (EvDispatch 1) @
    [EvDeliver 1 (VoteTask 3 (stand 3 1 2 1)), EvDeliver 1 (VoteTask 2 (stand 3 1 2 1))] @
    answers 1 (vote_of 2 3) @ replicate 2 (EvDispatch 1) @
    [EvDeliver 1 (AppendTask 2 2 (append_from 3 1 2 1 [] 0))] @ answers 1 (appended_at 2 2 2 0 3) @
    [EvTick 1 1250 300] @ replicate 2 (EvDispatch 1) @
    [EvDeliver 1 (AppendTask 2 2 (append_from 3 1 1 1 [demo_entry_at 1 2 43] 0))] @
    answers 1 (appended_at 2 2 1 0 3) @
    [EvTick 1 1300 300] @ replicate 2 (EvDispatch 1) @
    [EvDeliver 1 (AppendTask 2 2 (append_from 3 1 0 0 [demo_entry_at 1 1 42, demo_entry_at 1 2 43] 0))] @
    [EvTick 3 1200 300] @ replicate 2 (EvDispatch 3) @
    [EvDeliver 3 (VoteTask 2 (stand 4 3 1 2))] @ answers 3 (vote_of 2 4) @ replicate 2 (EvDispatch 3) @
    [EvDeliver 3 (AppendTask 1 1 (append_from 4 3 1 2 [] 0))] @ answers 3 (appended_at 1 1 1 1 4) @
    [EvTick 3 1250 300] @ replicate 2 (EvDispatch 3) @
    [EvDeliver 3 (AppendTask 1 1 (append_from 4 3 0 0 [demo_entry_at 2 1 50] 0))] @
    [EvTick 1 1500 300] @ replicate 2 (EvDispatch 1) @
    [EvDeliver 1 (VoteTask 3 (stand 5 1 1 2))] @ answers 1 (vote_of 3 5) @
    proposes 1 60 10 @ answers 1 (append_ok 3 2 2) @ [EvTick 1 1550 300] @
    [EvTick 3 1500 300] @ replicate 2 (EvDispatch 3) @
    [EvDeliver 3 (VoteTask 2 (stand 6 3 1 2))] @ answers 3 (vote_of 2 6) @ replicate 2 (EvDispatch 3) @
    [EvDeliver 3 (AppendTask 2 1 (append_from 6 3 1 2 [] 0))] @ answers 3 (appended_at 2 1 1 1 6) @
    proposes 3 70 11 @ replicate 2 (EvDispatch 3) @
    [EvDeliver 3 (AppendTask 2 2 (append_from 6 3 0 0 [demo_entry_at 2 1 50, demo_entry_at 6 2 70] 0))] @
    answers 3 (append_ok 6 2 2) @ [EvTick 3 1550 300]"

text \<open>C6 (error): acknowledgements of an earlier term are counted. In a run without late votes,
  without restarts, in which no log is merely cut short, two nodes apply different commands at index
  2 and the clients of both have been told that theirs is committed, because
  \<^verbatim>\<open>handle_append_response\<close> counts a success of an earlier term.\<close>

theorem late_ack_breaks_commit:
  "\<exists>es c. run_keeping node_ids (timely Debug) es demo_cluster = Some c \<and>
    (\<forall>n now j. EvRestart n now j \<notin> set es) \<and> keeping_run node_ids (timely Debug) demo_cluster c \<and>
    applied (inner (procs c 1)) = [demo_entry_at 2 1 50, demo_entry_at 5 2 60] \<and>
    applied (inner (procs c 3)) = [demo_entry_at 2 1 50, demo_entry_at 6 2 70] \<and>
    (10, ProposeReply (Inr 2)) \<in> set (sent (inner (procs c 1))) \<and>
    (11, ProposeReply (Inr 2)) \<in> set (sent (inner (procs c 3)))"
proof -
  have "case run_keeping node_ids (timely Debug) late_ack demo_cluster of None \<Rightarrow> False
    | Some c \<Rightarrow> applied (inner (procs c 1)) = [demo_entry_at 2 1 50, demo_entry_at 5 2 60] \<and>
        applied (inner (procs c 3)) = [demo_entry_at 2 1 50, demo_entry_at 6 2 70] \<and>
        (10, ProposeReply (Inr 2)) \<in> set (sent (inner (procs c 1))) \<and>
        (11, ProposeReply (Inr 2)) \<in> set (sent (inner (procs c 3)))"
    by code_simp
  moreover have "\<forall>n now j. EvRestart n now j \<notin> set late_ack"
    by (simp add: late_ack_def elect_one_def proposes_def answers_def)
  ultimately show ?thesis
    by (intro exI [of _ late_ack]) (auto split: option.splits dest: run_keeping_run)
qed

end
