(* ===== verification/Cluster_Restart.thy ===== *)
theory Cluster_Restart
  imports Cluster_Faults
begin

text \<open>
  What a restart means for the application. The event loop takes the restored commit index for the
  index of the last applied entry, so a node that stops between committing an entry and applying it
  never applies it.
\<close>

subsection \<open>The last applied index never decreases\<close>









subsection \<open>Entries a restarted node never applies\<close>








subsection \<open>An entry that is never applied\<close>










end
