(* ===== verification/Node_Behaviour.thy ===== *)
theory Node_Behaviour
  imports Node_Replication Node_Votes
begin

text \<open>
  The remaining handlers and the event loop of one node: when a vote is granted, how a snapshot
  is assembled and installed, what the loop does with messages and timeouts, and that a cluster of one
  commits what is proposed to it.
\<close>

subsection \<open>Votes\<close>

text \<open>The term of the last entry, and the comparison of logs of an election.\<close>

definition last_term_of :: "AbsLog \<Rightarrow> Term" where
  "last_term_of l = (if ents l \<noteq> [] then le_term (last (ents l))
     else if base l = 0 then 0 else base_term l)"

definition up_to_date :: "AbsLog \<Rightarrow> RequestVoteRequest \<Rightarrow> bool" where
  "up_to_date l req \<longleftrightarrow> last_term_of l < last_log_term req \<or>
     last_term_of l = last_log_term req \<and> alog_last l \<le> unat (last_log_index req)"

lemma alog_term_last:
  assumes "unat i = alog_last l"
  shows "(if i = 0 then 0 else unwrap_or (alog_term l i) 0) = last_term_of l"
proof (cases "ents l = []")
  case True
  then show ?thesis
    using assms by (auto simp: alog_term_def last_term_of_def alog_last_def unat_0_iff unat_eq_0)
next
  case False
  then have "unat i = base l + length (ents l)" "base l < unat i" "i \<noteq> 0"
    using assms by (auto simp: alog_last_def)
  then show ?thesis
    using False by (auto simp: alog_term_def last_term_of_def alog_last_def last_conv_nth)
qed

context storage_contract
begin

lemma request_vote_ok:
  assumes "invar (storage g)"
  shows "\<exists>g' resp. on_request_vote S g req = Some (g', Inr resp) \<and> invar (storage g') \<and>
    alog (storage g') = alog (storage g) \<and>
    current_term (sm g') = max (current_term (sm g)) (rv_term req) \<and>
    rvr_term resp = current_term (sm g') \<and>
    (vote_granted resp \<longleftrightarrow> current_term (sm g) \<le> rv_term req \<and>
      (current_term (sm g) < rv_term req \<or> voted_for (sm g) \<in> {None, Some (candidate_id req)}) \<and>
      up_to_date (alog (storage g)) req) \<and>
    (vote_granted resp \<longrightarrow> voted_for (sm g') = Some (candidate_id req) \<and>
      hard (storage g') = \<lparr>hs_term = rv_term req, hs_vote = candidate_id req,
        hs_commit = commit_index (sm g)\<rparr>)"
proof -
  obtain g1 where g1: "observe_term S (rv_term req) None g = Some g1" "invar (storage g1)"
      "alog (storage g1) = alog (storage g)"
      "sm g1 = (if current_term (sm g) < rv_term req then become_follower (rv_term req) None (sm g) else sm g)"
    using observe_ok [OF assms, of "rv_term req" None] by auto
  obtain i :: LogIndex where i: "i = of_nat (alog_last (alog (storage g)))" "unat i = alog_last (alog (storage g))"
    using log_ok [OF assms] by (metis alog_lastE)
  have rd: "last_index_or_0 S (storage g1) = Some i"
    using g1(3) i(1) by (simp add: last_index_ok [OF g1(2)])
  have rd': "term_or_0 S (storage g1) i = Some (last_term_of (alog (storage g)))"
    by (simp only: term_or_0_ok [OF g1(2)] g1(3) alog_term_last [OF i(2)])
  have upd: "last_term_of (alog (storage g)) < last_log_term req \<or>
      last_log_term req = last_term_of (alog (storage g)) \<and> i \<le> last_log_index req \<longleftrightarrow>
      up_to_date (alog (storage g)) req"
    using i(2) by (auto simp: up_to_date_def word_le_nat_alt)
  obtain g2 where g2: "node_save_hard_state S (upd_sm (\<lambda>s. s\<lparr>voted_for := Some (candidate_id req)\<rparr>) g1) = Some g2"
      "invar (storage g2)" "alog (storage g2) = alog (storage g)"
      "hard (storage g2) = hard_state_of ((sm g1)\<lparr>voted_for := Some (candidate_id req)\<rparr>)"
      "sm g2 = (sm g1)\<lparr>voted_for := Some (candidate_id req)\<rparr>"
    using node_save_ok [of "upd_sm (\<lambda>s. s\<lparr>voted_for := Some (candidate_id req)\<rparr>) g1"] g1(2,3) by auto
  show ?thesis
    using g1 rd rd' g2 upd
    by (cases "voted_for (sm g)")
      (auto simp: on_request_vote_def Let_def become_follower_def hard_state_of_def max_def)
qed

end

subsection \<open>Snapshots\<close>

text \<open>The chunks of one snapshot, delivered in order: all but the last with
  \<^verbatim>\<open>done = false\<close>.\<close>

definition chunk :: "InstallSnapshotRequest \<Rightarrow> u8 list \<Rightarrow> bool \<Rightarrow> InstallSnapshotRequest" where
  "chunk req d fin = req\<lparr>is_data := d, is_done := fin\<rparr>"

fun install_chunks ::
  "'s Storage \<Rightarrow> 's RaftNodeInner \<Rightarrow> InstallSnapshotRequest \<Rightarrow> u8 list list \<Rightarrow> u8 list \<Rightarrow>
   ('s RaftNodeInner \<times> InstallSnapshotResponse result) option" where
  "install_chunks S g req [] final = on_install_snapshot S g (chunk req final True)"
| "install_chunks S g req (d # ds) final = do {
     (g', r) \<leftarrow> on_install_snapshot S g (chunk req d False);
     install_chunks S g' req ds final
   }"

definition snapshot_of :: "InstallSnapshotRequest \<Rightarrow> u8 list \<Rightarrow> Snapshot" where
  "snapshot_of req d = \<lparr>snap_data = d, metadata = \<lparr>
     last_included_index = is_last_included_index req,
     last_included_term = is_last_included_term req, conf_nodes = []\<rparr>\<rparr>"

text \<open>What the buffer holds for a request while its chunks arrive.\<close>

definition buffered :: "InstallSnapshotRequest \<Rightarrow> u8 list \<Rightarrow> 's RaftNodeInner \<Rightarrow> bool" where
  "buffered req d g \<longleftrightarrow> snapshot_buf g = None \<and> d = [] \<or>
     snapshot_buf g = Some (\<lparr>sm_index = is_last_included_index req, sm_term = is_last_included_term req,
       sm_conf_nodes = []\<rparr>, d)"

lemma buffer_chunk_buffered:
  "buffered req d g \<Longrightarrow> buffer_chunk (snapshot_buf g) (chunk req d' b) =
     (\<lparr>sm_index = is_last_included_index req, sm_term = is_last_included_term req,
       sm_conf_nodes = []\<rparr>, d @ d')"
  by (auto simp: buffered_def buffer_chunk_def chunk_def)

lemma chunk_buffered:
  assumes "is_term req = current_term (sm g)" "buffered req d g"
  shows "\<exists>g' r. on_install_snapshot S g (chunk req d' False) = Some (g', Inr r) \<and>
    buffered req (d @ d') g' \<and> storage g' = storage g \<and> sm g' = sm g"
  using assms buffer_chunk_buffered [OF assms(2), of d' False]
  by (simp add: on_install_snapshot_def observe_term_def chunk_def buffered_def)

context storage_contract
begin

lemma last_chunk_installs:
  assumes "invar (storage g)" "is_term req = current_term (sm g)" "buffered req d g"
    and "base (alog (storage g)) \<le> unat (is_last_included_index req)"
    and "unat (is_last_included_index req) < 2 ^ 64 - 1"
  shows "\<exists>g'. on_install_snapshot S g (chunk req d' True) =
      Some (g', Inr \<lparr>isr_term = current_term (sm g)\<rparr>) \<and> invar (storage g') \<and>
    snap (storage g') = Some (snapshot_of req (d @ d')) \<and>
    alog (storage g') = alog_compact (alog (storage g)) (unat (is_last_included_index req))
      (is_last_included_term req) \<and> snapshot_buf g' = None \<and>
    sm g' = (sm g)\<lparr>commit_index := max (commit_index (sm g)) (is_last_included_index req),
      last_applied := max (last_applied (sm g)) (is_last_included_index req)\<rparr>"
proof -
  obtain st where st: "apply_snapshot S (storage g) (snapshot_of req (d @ d')) = Some (st, Inr ())"
      "invar st" "alog st = alog_compact (alog (storage g)) (unat (is_last_included_index req))
        (is_last_included_term req)" "snap st = Some (snapshot_of req (d @ d'))"
    using install [OF assms(1), of "snapshot_of req (d @ d')"] assms(4,5)
    by (auto simp: snapshot_of_def)
  let ?g = "upd_sm (\<lambda>s. s\<lparr>commit_index := max (commit_index s) (is_last_included_index req),
      last_applied := max (last_applied s) (is_last_included_index req)\<rparr>)
    (g\<lparr>storage := st, snapshot_buf := None\<rparr>)"
  have "\<exists>g'. node_save_hard_state S ?g = Some g' \<and> invar (storage g') \<and> alog (storage g') = alog st \<and>
      snap (storage g') = snap st \<and> sm g' = sm ?g \<and> snapshot_buf g' = None"
    using node_save_ok [of ?g] st(2) by auto
  then show ?thesis
    using st assms(2) buffer_chunk_buffered [OF assms(3), of d' True]
    by (auto simp: on_install_snapshot_def observe_term_def finish_snapshot_def snapshot_of_def
        chunk_def)
qed

lemma chunks_install:
  assumes "invar (storage g)" "is_term req = current_term (sm g)" "buffered req d g"
    and "base (alog (storage g)) \<le> unat (is_last_included_index req)"
    and "unat (is_last_included_index req) < 2 ^ 64 - 1"
  shows "\<exists>g'. install_chunks S g req ds final =
      Some (g', Inr \<lparr>isr_term = current_term (sm g)\<rparr>) \<and> invar (storage g') \<and>
    snap (storage g') = Some (snapshot_of req (d @ concat ds @ final)) \<and>
    alog (storage g') = alog_compact (alog (storage g)) (unat (is_last_included_index req))
      (is_last_included_term req) \<and> snapshot_buf g' = None \<and>
    sm g' = (sm g)\<lparr>commit_index := max (commit_index (sm g)) (is_last_included_index req),
      last_applied := max (last_applied (sm g)) (is_last_included_index req)\<rparr>"
  using assms
proof (induction ds arbitrary: g d)
  case Nil
  then show ?case using last_chunk_installs [of g req d final] by simp
next
  case (Cons c ds)
  obtain g1 r where g1: "on_install_snapshot S g (chunk req c False) = Some (g1, Inr r)"
      "buffered req (d @ c) g1" "storage g1 = storage g" "sm g1 = sm g"
    using chunk_buffered [OF Cons.prems(2,3)] by blast
  then show ?case
    using Cons.IH [of g1 "d @ c"] Cons.prems by simp
qed

end

subsection \<open>A cluster of one\<close>

lemma single_quorum: "peers c = [] \<Longrightarrow> quorum c = 1"
  by (simp add: quorum_def)

text \<open>A leader without peers may commit everything up to a last entry of its term.\<close>

lemma single_next_commit:
  assumes "progress (sm g) = []" "peers (config g) = []" "commit_index (sm g) < l"
    and "readable_term S (storage g) l = Some (current_term (sm g))"
  shows "next_commit S g l = l"
  using assms
  by (simp add: next_commit_def maybe_commit_loop.simps replicated_def single_quorum)

context storage_contract
begin

lemma single_node_commits:
  assumes "invar (storage g)" "role (sm g) = Leader" "current_term (sm g) \<noteq> 0"
    and "peers (config g) = []" "progress (sm g) = []"
    and "base (alog (storage g)) \<le> unat (last_applied (sm g))"
    and "last_applied (sm g) \<le> commit_index (sm g)"
    and "unat (commit_index (sm g)) \<le> alog_last (alog (storage g))"
    and "alog_last (alog (storage g)) + 1 < 2 ^ 64 - 1"
    and "data_bytes (ents (alog (storage g))) + length d < 2 ^ 64"
  shows "\<exists>i g1 g2 g3. unat i = alog_last (alog (storage g)) + 1 \<and>
    on_proposal p S g \<lparr>prop_data = d, prop_tx = Some tx\<rparr> = Some g1 \<and>
    sm g1 = sm g \<and> replicate_all p S g1 = Some g1 \<and> maybe_advance_commit p S g1 = Some g2 \<and>
    apply_committed p S g2 = Some g3 \<and>
    commit_index (sm g3) = i \<and> last_applied (sm g3) = i \<and>
    (tx, ProposeReply (Inr i)) \<in> set (sent g3) \<and>
    \<lparr>le_term = current_term (sm g), le_index = i, le_data = d, le_type = Normal\<rparr> \<in> set (applied g3)"
proof -
  let ?e = "\<lambda>i. \<lparr>le_term = current_term (sm g), le_index = i, le_data = d, le_type = Normal\<rparr>"
  let ?l = "alog (storage g)"
  obtain i g1 where i: "unat i = alog_last ?l + 1"
    and req: "on_proposal p S g \<lparr>prop_data = d, prop_tx = Some tx\<rparr> = replicate_all p S g1"
    and g1: "invar (storage g1)" "ents (alog (storage g1)) = ents ?l @ [?e i]"
      "base (alog (storage g1)) = base ?l" "sm g1 = sm g" "config g1 = config g"
      "pending g1 = pending g @ [(i, tx)]"
    using proposal_appends [of g "\<lparr>prop_data = d, prop_tx = Some tx\<rparr>" p] assms(1,2,9,10) by auto
  have rep: "replicate_all p S g1 = Some g1"
    using g1(5) assms(4) by (simp add: replicate_all_def)
  have last: "alog_last (alog (storage g1)) = alog_last ?l + 1"
    using g1(2,3) by (simp add: alog_last_def)
  then have li: "of_nat (alog_last (alog (storage g1))) = i"
    by (simp only: last i [symmetric]) simp
  have "log_term S (storage g1) i = Some (Inr (current_term (sm g)))"
    using i g1(2,3) last read_term [OF g1(1), of i] alog_term_inside [of "alog (storage g1)" i]
    by (simp add: term_of_def alog_last_def nth_append)
  then have nc: "next_commit S g1 i = i"
    using g1(4,5) assms(4,5,8) i
    by (intro single_next_commit) (simp_all add: readable_term_def word_less_nat_alt)
  obtain g2 where g2: "maybe_advance_commit p S g1 = Some g2" "invar (storage g2)"
      "alog (storage g2) = alog (storage g1)" "sm g2 = (sm g)\<lparr>commit_index := i\<rparr>"
      "(tx, ProposeReply (Inr i)) \<in> set (sent g2)"
    using advance_commit [OF g1(1), of p] g1(4,6) assms(2,3,7) li nc by auto
  let ?sl = "alog_slice (alog (storage g2)) (unat (last_applied (sm g)) + 1) (unat i + 1)"
  have b: "base (alog (storage g2)) \<le> unat (last_applied (sm g2))" "last_applied (sm g2) \<le> commit_index (sm g2)"
      "unat (commit_index (sm g2)) \<le> alog_last (alog (storage g2))" "unat (last_applied (sm g)) < unat i"
    using assms(6-8) g1(3) g2(3,4) last i by (auto simp: word_le_nat_alt)
  note ap = apply_range [OF g2(2) b(1-3), of p]
  have "length ?sl = unat i - unat (last_applied (sm g))"
    using alog_slice_facts(2) [OF log_ok [OF g2(2)], of "unat (last_applied (sm g)) + 1" "unat i + 1"]
      b g2(4) by simp
  then have "?sl ! (length ?sl - 1) = ?e i" "?sl \<noteq> []"
    using b(1,4) g2(3,4) g1(2,3) i assms(6) by (auto simp: alog_slice_def alog_last_def nth_append)
  then have "?e i \<in> set ?sl"
    using nth_mem [of "length ?sl - 1" ?sl] by simp
  then obtain g3 where g3: "apply_committed p S g2 = Some g3" "commit_index (sm g3) = i"
      "last_applied (sm g3) = i" "(tx, ProposeReply (Inr i)) \<in> set (sent g3)"
      "?e i \<in> set (applied g3)"
    using ap g2(4,5) by simp
  show ?thesis
    using i req rep g1(4) g2(1) g3
    by (intro exI [of _ i] exI [of _ g1] exI [of _ g2] exI [of _ g3]) simp
qed

end

subsection \<open>Properties\<close>

text \<open>C13 (functional): a vote. The handler never panics; it grants exactly if the request is not of an
  older term, no other candidate has this node's vote in that term, and the candidate's log is
  at least as up to date (last term first, then last index). The node is then in the newer of
  the two terms, the response carries that term, a granted vote is in the storage before the
  response leaves, and the log is untouched.\<close>

theorem vote_granted_iff:
  assumes "mem_ok (storage g)"
  shows "\<exists>g' resp. on_request_vote (mem_storage p) g req = Some (g', Inr resp) \<and>
    mem_ok (storage g') \<and> mem_alog (storage g') = mem_alog (storage g) \<and>
    current_term (sm g') = max (current_term (sm g)) (rv_term req) \<and>
    rvr_term resp = current_term (sm g') \<and>
    (vote_granted resp \<longleftrightarrow> current_term (sm g) \<le> rv_term req \<and>
      (current_term (sm g) < rv_term req \<or> voted_for (sm g) \<in> {None, Some (candidate_id req)}) \<and>
      up_to_date (mem_alog (storage g)) req) \<and>
    (vote_granted resp \<longrightarrow> voted_for (sm g') = Some (candidate_id req) \<and>
      hard_state (storage g') = \<lparr>hs_term = rv_term req, hs_vote = candidate_id req,
        hs_commit = commit_index (sm g)\<rparr>)"
  using assms by (rule mem.request_vote_ok)

theorem vote_granted_iff_witness:
  "\<exists>g' resp. on_request_vote (mem_storage Debug) sample_follower \<lparr>rv_term = 3, candidate_id = 2,
      last_log_index = 4, last_log_term = 2, pre_vote = False\<rparr> = Some (g', Inr resp) \<and>
    vote_granted resp \<and> hs_vote (hard_state (storage g')) = 2"
  using vote_granted_iff [of sample_follower Debug "\<lparr>rv_term = 3, candidate_id = 2,
      last_log_index = 4, last_log_term = 2, pre_vote = False\<rparr>"] sample_mem_ok
  by (auto simp: up_to_date_def last_term_of_def sample_mem_alog alog_last_def)

text \<open>C27 (functional): a snapshot that arrives in any number of chunks, in order and in the current
  term, is stored with the concatenation of their data and the index and term of the request;
  the log is compacted up to it, keeping the suffix, and the commit and applied indices move up
  to it but never back.\<close>

theorem snapshot_chunks_assembled:
  assumes "mem_ok (storage g)" "is_term req = current_term (sm g)" "snapshot_buf g = None"
    and "base (mem_alog (storage g)) \<le> unat (is_last_included_index req)"
    and "unat (is_last_included_index req) < 2 ^ 64 - 1"
  shows "\<exists>g'. install_chunks (mem_storage p) g req ds final =
      Some (g', Inr \<lparr>isr_term = current_term (sm g)\<rparr>) \<and> mem_ok (storage g') \<and>
    snapshot (storage g') = Some (snapshot_of req (concat ds @ final)) \<and>
    mem_alog (storage g') = alog_compact (mem_alog (storage g)) (unat (is_last_included_index req))
      (is_last_included_term req) \<and> snapshot_buf g' = None \<and>
    sm g' = (sm g)\<lparr>commit_index := max (commit_index (sm g)) (is_last_included_index req),
      last_applied := max (last_applied (sm g)) (is_last_included_index req)\<rparr>"
  using mem.chunks_install [of g req "[]" p ds final] assms by (simp add: buffered_def)

theorem snapshot_chunks_assembled_witness:
  "\<exists>g'. install_chunks (mem_storage Debug) sample_follower \<lparr>is_term = 2, is_leader_id = 2,
      is_last_included_index = 3, is_last_included_term = 1, is_offset = 0, is_data = [],
      is_done = False\<rparr> [[1, 2], [3]] [4] = Some (g', Inr \<lparr>isr_term = 2\<rparr>) \<and>
    map_option snap_data (snapshot (storage g')) = Some [1, 2, 3, 4] \<and> commit_index (sm g') = 3"
proof -
  have "snapshot_buf sample_follower = None"
    by (simp add: sample_follower_def node_new_def)
  then show ?thesis
    using snapshot_chunks_assembled [of sample_follower "\<lparr>is_term = 2, is_leader_id = 2,
        is_last_included_index = 3, is_last_included_term = 1, is_offset = 0, is_data = [],
        is_done = False\<rparr>" Debug "[[1, 2], [3]]" "[4]"] sample_mem_ok
    by (auto simp: sample_mem_alog snapshot_of_def)
qed

text \<open>C28 (liveness): a leader without peers commits what is proposed to it. Once its event loop has
  taken the proposal, the next heartbeat commits it, applies it and answers the caller with the
  index right after its log.\<close>

theorem single_node_commits_proposal:
  assumes "g = inner n" "running n" "rx n = []" "heartbeat_deadline (deadlines n) \<le> now"
    and "mem_ok (storage g)" "role (sm g) = Leader" "current_term (sm g) \<noteq> 0"
    and "peers (config g) = []" "progress (sm g) = []"
    and "base (mem_alog (storage g)) \<le> unat (last_applied (sm g))"
    and "last_applied (sm g) \<le> commit_index (sm g)"
    and "unat (commit_index (sm g)) \<le> alog_last (mem_alog (storage g))"
    and "alog_last (mem_alog (storage g)) + 1 < 2 ^ 64 - 1"
    and "data_bytes (entries (storage g)) + length d < 2 ^ 64"
  shows "\<exists>i n1 n2 n3. propose n d tx = Inr n1 \<and> on_recv p (mem_storage p) n1 = Some n2 \<and>
    on_timeout p (mem_storage p) now now' j n2 = Some n3 \<and>
    unat i = alog_last (mem_alog (storage g)) + 1 \<and>
    (tx, ProposeReply (Inr i)) \<in> set (sent (inner n3)) \<and> commit_index (sm (inner n3)) = i \<and>
    \<lparr>le_term = current_term (sm g), le_index = i, le_data = d, le_type = Normal\<rparr>
      \<in> set (applied (inner n3))"
proof -
  obtain i g1 g2 g3 where s: "unat i = alog_last (mem_alog (storage g)) + 1"
      "on_proposal p (mem_storage p) g \<lparr>prop_data = d, prop_tx = Some tx\<rparr> = Some g1" "sm g1 = sm g"
      "replicate_all p (mem_storage p) g1 = Some g1" "maybe_advance_commit p (mem_storage p) g1 = Some g2"
      "apply_committed p (mem_storage p) g2 = Some g3" "commit_index (sm g3) = i"
      "(tx, ProposeReply (Inr i)) \<in> set (sent g3)"
      "\<lparr>le_term = current_term (sm g), le_index = i, le_data = d, le_type = Normal\<rparr> \<in> set (applied g3)"
    using mem.single_node_commits [of g d p p tx] assms(5-14) by auto
  let ?n1 = "n\<lparr>rx := [Propose \<lparr>prop_data = d, prop_tx = Some tx\<rparr>]\<rparr>"
  let ?n2 = "n\<lparr>inner := g1, rx := [], running := True\<rparr>"
  have "propose n d tx = Inr ?n1"
    using assms(2,3) by (simp add: propose_def api_send_def)
  moreover have "on_recv p (mem_storage p) ?n1 = Some ?n2"
    using s(2) assms(1) by (simp add: on_recv_def)
  moreover have "\<exists>n3. on_timeout p (mem_storage p) now now' j ?n2 = Some n3 \<and> inner n3 = g3"
    using s(3-6) assms(4,6) by (simp add: on_timeout_def Let_def)
  ultimately show ?thesis
    using s(1,7-9) by blast
qed

definition sample_single :: "MemStorageInner RaftNode" where
  "sample_single = \<lparr>inner = (node_new default_config mem_new)\<lparr>sm := sm_new\<lparr>current_term := 1,
       role := Leader, voted_for := Some 1, votes_received := {1}, leader_id := Some 1\<rparr>\<rparr>,
     rx = [], deadlines = \<lparr>heartbeat_deadline = 400, election_deadline = 700\<rparr>, running = True\<rparr>"

theorem single_node_commits_proposal_witness:
  "\<exists>i n1 n2 n3. propose sample_single [104, 105] 9 = Inr n1 \<and>
    on_recv Debug (mem_storage Debug) n1 = Some n2 \<and>
    on_timeout Debug (mem_storage Debug) 400 400 300 n2 = Some n3 \<and> unat i = 1 \<and>
    (9, ProposeReply (Inr i)) \<in> set (sent (inner n3))"
proof -
  have "mem_alog mem_new = \<lparr>base = 0, base_term = 0, ents = []\<rparr>" "entries mem_new = []"
    by (simp_all add: mem_alog_def mem_new_def)
  then show ?thesis
    using single_node_commits_proposal [OF refl, of sample_single 400 "[104, 105]" 9 Debug 400 300]
    by (auto simp: sample_single_def node_new_def sm_new_def default_config_def alog_last_def)
qed

text \<open>C30 (round trip): a restart. \<^verbatim>\<open>start\<close> hands out a follower of term 0 on the old
  storage. If nothing reaches it before its event loop runs, the loop panics exactly when the
  election timeout range is empty, which \<^verbatim>\<open>validate\<close> would have refused, but nobody calls
  it. Otherwise the node is a follower that knows no leader, with the term, the vote and the commit
  index that were saved; the entries up to there count as applied.\<close>

theorem restart_roundtrip:
  assumes "hard_state (storage g) = hard_state_of (sm g)" "voted_for (sm g) \<noteq> Some 0"
  shows "(enter_loop (mem_storage p) now j (start cfg (storage g)) = None \<longleftrightarrow>
      election_timeout_max_ms cfg < election_timeout_min_ms cfg) \<and>
    (validate cfg = Inr () \<longrightarrow> enter_loop (mem_storage p) now j (start cfg (storage g)) \<noteq> None) \<and>
    (\<forall>r. enter_loop (mem_storage p) now j (start cfg (storage g)) = Some r \<longrightarrow>
      current_term (sm (inner r)) = current_term (sm g) \<and>
      voted_for (sm (inner r)) = voted_for (sm g) \<and>
      commit_index (sm (inner r)) = commit_index (sm g) \<and>
      last_applied (sm (inner r)) = commit_index (sm g) \<and>
      role (sm (inner r)) = Follower \<and> leader_id (sm (inner r)) = None \<and>
      config (inner r) = cfg \<and> storage (inner r) = storage g \<and> rx r = [] \<and> running r \<and>
      heartbeat_deadline (deadlines r) = now + unat (heartbeat_interval_ms cfg) \<and>
      election_deadline (deadlines r) = now + unat j)"
proof -
  have vote: "(if hs_vote (hard_state_of (sm g)) = 0 then None else Some (hs_vote (hard_state_of (sm g)))) =
      voted_for (sm g)"
    using assms(2) by (cases "voted_for (sm g)") (simp_all add: hard_state_of_def)
  have boot: "enter_loop (mem_storage p) now j (start cfg (storage g)) =
      (if election_timeout_max_ms cfg < election_timeout_min_ms cfg then None
       else Some \<lparr>inner = (node_new cfg (storage g))\<lparr>sm := sm_new\<lparr>current_term := current_term (sm g),
           voted_for := voted_for (sm g), commit_index := commit_index (sm g),
           last_applied := commit_index (sm g)\<rparr>\<rparr>, rx = [],
         deadlines = \<lparr>heartbeat_deadline = now + unat (heartbeat_interval_ms cfg),
           election_deadline = now + unat j\<rparr>, running = True\<rparr>)"
    using assms(1) vote
    by (simp add: enter_loop_def start_def restore_def next_election_deadline_def node_new_def)
      (simp add: hard_state_of_def)
  have "election_timeout_min_ms cfg \<le> election_timeout_max_ms cfg" if "validate cfg = Inr ()"
    using that by (auto simp: validate_def split: if_splits)
  then have "validate cfg = Inr () \<longrightarrow> \<not> election_timeout_max_ms cfg < election_timeout_min_ms cfg"
    by (simp add: not_less)
  then show ?thesis
    unfolding boot by (cases "election_timeout_max_ms cfg < election_timeout_min_ms cfg")
      (simp_all add: node_new_def sm_new_def)
qed

theorem restart_roundtrip_witness:
  "\<exists>r. enter_loop (mem_storage Debug) 0 300 (start default_config (storage (inner sample_single)\<lparr>hard_state :=
      \<lparr>hs_term = 1, hs_vote = 1, hs_commit = 0\<rparr>\<rparr>)) = Some r \<and>
    current_term (sm (inner r)) = 1 \<and> voted_for (sm (inner r)) = Some 1 \<and>
    role (sm (inner r)) = Follower"
proof -
  let ?g = "(inner sample_single)\<lparr>storage := storage (inner sample_single)\<lparr>hard_state :=
      \<lparr>hs_term = 1, hs_vote = 1, hs_commit = 0\<rparr>\<rparr>\<rparr>"
  have "validate default_config = Inr ()" "hard_state (storage ?g) = hard_state_of (sm ?g)"
    "voted_for (sm ?g) = Some 1" "current_term (sm ?g) = 1"
    by (simp_all add: validate_def default_config_def sample_single_def hard_state_of_def sm_new_def)
  note g = this
  have "voted_for (sm ?g) \<noteq> Some 0" unfolding g(3) by simp
  note R = restart_roundtrip [OF g(2) this, of Debug 0 300 default_config]
  obtain r where r: "enter_loop (mem_storage Debug) 0 300 (start default_config (storage ?g)) = Some r"
    using R g(1) by blast
  have "current_term (sm (inner r)) = current_term (sm ?g)" "voted_for (sm (inner r)) = voted_for (sm ?g)"
    "role (sm (inner r)) = Follower"
    using R r by blast+
  moreover have "storage ?g = storage (inner sample_single)\<lparr>hard_state :=
      \<lparr>hs_term = 1, hs_vote = 1, hs_commit = 0\<rparr>\<rparr>"
    by simp
  ultimately show ?thesis using r unfolding g(3,4) by metis
qed

text \<open>After a shutdown message the loop ends: what was queued behind it is dropped without
  an answer, waiting proposals stay unanswered, and every later call to the node's channel fails
  with \<^verbatim>\<open>ChannelClosed\<close>.\<close>

theorem shutdown_closes_channel:
  assumes "rx n = ShutdownMsg # ms"
  shows "\<exists>n'. on_recv p S n = Some n' \<and> \<not> running n' \<and> rx n' = [] \<and> inner n' = inner n \<and>
    propose n' d tx = Inl ChannelClosed \<and> leader n' tx = n' \<and> get_term n' tx = n' \<and> shutdown n' = n'"
  using assms
  by (simp add: on_recv_def propose_def leader_def get_term_def shutdown_def api_send_def)

theorem shutdown_closes_channel_witness:
  "\<exists>n'. on_recv Debug (mem_storage Debug) (shutdown sample_single) = Some n' \<and>
    propose n' [1] 5 = Inl ChannelClosed"
proof -
  have "rx (shutdown sample_single) = ShutdownMsg # []"
    by (simp add: shutdown_def api_send_def sample_single_def)
  then show ?thesis
    using shutdown_closes_channel [of "shutdown sample_single" "[]" Debug "mem_storage Debug" "[1]" 5]
    by blast
qed

end
