(* ===== verification/Cluster_Boot.thy ===== *)
theory Cluster_Boot
  imports Cluster_Safety Node_Behaviour
begin

text \<open>
  A node that starts, step by step. \<^verbatim>\<open>RaftNode::start\<close> returns before the event loop has
  restored the hard state, while \<open>cluster_step\<close> takes both in one step. Here they are apart: a
  node is in the set \<open>B\<close> between the two. If no RPC is handled in between, nothing is lost by
  the coarser step: every state of the finer model is one of the coarser model, but for the nodes
  that are still starting. An RPC that is handled in between finds a node that has forgotten its
  term and its vote.
\<close>

subsection \<open>Starting in two steps\<close>

text \<open>A node under the name \<open>n\<close> is started on the configuration and storage it had.\<close>

definition started :: "'s RaftNode \<Rightarrow> 's RaftNode" where
  "started r = (let (g, ch) = start (config (inner r)) (storage (inner r))
     in r\<lparr>inner := g, rx := ch, running := True\<rparr>)"

inductive split_step ::
  "bool \<Rightarrow> profile \<Rightarrow> 's Storage \<Rightarrow> NodeId set \<Rightarrow> 's env \<Rightarrow> 's Cluster \<times> NodeId set \<Rightarrow>
   's Cluster \<times> NodeId set \<Rightarrow> bool"
  for early p S M env where
  others: "cluster_step p S (M - B) env c c' \<Longrightarrow> split_step early p S M env (c, B) (c', B)"
| begin_start: "n \<in> M \<Longrightarrow> split_step early p S M env (c, B) (put n (started (procs c n)) c, insert n B)"
| queued: "n \<in> B \<Longrightarrow> n \<in> M \<Longrightarrow> is_client m \<or> (n, m) \<in> replies c \<Longrightarrow>
    split_step early p S M env (c, B) (put n ((procs c n)\<lparr>rx := rx (procs c n) @ [m]\<rparr>) c, B)"
| end_start: "n \<in> B \<Longrightarrow> n \<in> M \<Longrightarrow> jitter_ok (config (inner (procs c n))) j \<Longrightarrow>
    enter_loop S now j (inner (procs c n), rx (procs c n)) = Some r \<Longrightarrow>
    split_step early p S M env (c, B) (put n r c, B - {n})"
| early_rpc: "early \<Longrightarrow> (n, t) \<in> net c \<Longrightarrow> task_target t \<in> M \<Longrightarrow> task_target t \<in> B \<Longrightarrow>
    deliver_task p S t (inner (procs c (task_target t))) = Some (g, reply) \<Longrightarrow>
    split_step early p S M env (c, B)
      ((put (task_target t) ((procs c (task_target t))\<lparr>inner := g\<rparr>) c)\<lparr>
        replies := (case reply of None \<Rightarrow> replies c | Some m \<Rightarrow> insert (n, m) (replies c))\<rparr>, B)"

inductive split_reachable ::
  "bool \<Rightarrow> profile \<Rightarrow> 's Storage \<Rightarrow> NodeId set \<Rightarrow> 's env \<Rightarrow> 's Cluster \<times> NodeId set \<Rightarrow> bool"
  for early p S M env where
  split_initial: "cluster_init S M c \<Longrightarrow> split_reachable early p S M env (c, {})"
| split_next: "split_reachable early p S M env s \<Longrightarrow> split_step early p S M env s s' \<Longrightarrow>
    split_reachable early p S M env s'"

subsection \<open>Simulation\<close>

text \<open>In the coarser model a node that is starting has not stopped yet.\<close>

definition simulates :: "NodeId set \<Rightarrow> 's Cluster \<times> NodeId set \<Rightarrow> 's Cluster \<Rightarrow> bool" where
  "simulates M s d \<longleftrightarrow> (case s of (c, B) \<Rightarrow>
     B \<subseteq> M \<and> net d = net c \<and> replies d = replies c \<and> votes_cast d = votes_cast c \<and>
     (\<forall>n. n \<notin> B \<longrightarrow> procs d n = procs c n) \<and>
     (\<forall>n \<in> B. inner (procs c n) = node_new (config (inner (procs d n))) (storage (inner (procs d n))) \<and>
       running (procs c n) \<and> (\<forall>m \<in> set (rx (procs c n)). is_client m \<or> (n, m) \<in> replies c)))"

lemma held_vote_new [simp]: "held_vote n (node_new cfg st) = {}"
  by (simp add: held_vote_def node_new_def sm_new_def)

lemma node_new_selectors [simp]: "config (node_new cfg st) = cfg" "storage (node_new cfg st) = st"
  by (simp_all add: node_new_def)

lemma simulatesD:
  assumes "simulates M (c, B) d"
  shows "B \<subseteq> M" "net d = net c" "replies d = replies c" "votes_cast d = votes_cast c"
    "\<And>k. k \<notin> B \<Longrightarrow> procs d k = procs c k"
    "\<And>k. k \<in> B \<Longrightarrow> inner (procs c k) = node_new (config (inner (procs d k))) (storage (inner (procs d k)))"
    "\<And>k. k \<in> B \<Longrightarrow> running (procs c k)"
    "\<And>k m. k \<in> B \<Longrightarrow> m \<in> set (rx (procs c k)) \<Longrightarrow> is_client m \<or> (k, m) \<in> replies c"
  using assms by (auto simp: simulates_def)

text \<open>A step of nodes that have started is a step of the coarser model.\<close>

lemma other_step:
  assumes "cluster_step p S N env c c'" "N \<subseteq> M" "\<forall>n \<in> N. procs d n = procs c n"
    and "net d = net c" "replies d = replies c" "votes_cast d = votes_cast c"
  shows "\<exists>d' a r. cluster_step p S M env d d' \<and> a \<in> N \<and> procs c' = (procs c)(a := r) \<and>
    procs d' = (procs d)(a := r) \<and> net d' = net c' \<and> replies d' = replies c' \<and>
    votes_cast d' = votes_cast c' \<and> replies c \<subseteq> replies c'"
  using assms(1)
proof cases
  case (client n m r)
  then have "cluster_step p S M env d (put n r d)" using assms(2,3) by (intro cluster_step.client) auto
  then show ?thesis using client assms(4-6) by (intro exI [of _ "put n r d"]) (auto simp: put_def)
next
  case (recv n m ms r)
  then have "cluster_step p S M env d (put n r d)" using assms(2,3) by (intro cluster_step.recv) auto
  then show ?thesis using recv assms(4-6) by (intro exI [of _ "put n r d"]) (auto simp: put_def)
next
  case (tick n now now' j r)
  then have "cluster_step p S M env d (put n r d)"
    using assms(2,3) by (intro cluster_step.tick [where now = now and now' = now' and j = j]) auto
  then show ?thesis using tick assms(4-6) by (intro exI [of _ "put n r d"]) (auto simp: put_def)
next
  case (dispatch n t ts)
  let ?d = "(put n (inner_update (\<lambda>g. g\<lparr>spawned := ts\<rparr>) (procs d n)) d)\<lparr>net := insert (n, t) (net d)\<rparr>"
  have "cluster_step p S M env d ?d" using dispatch assms(2,3) by (intro cluster_step.dispatch) auto
  then show ?thesis using dispatch assms(3-6) by (intro exI [of _ ?d]) (auto simp: put_def)
next
  case (deliver n t g reply)
  let ?d = "(put (task_target t) ((procs d (task_target t))\<lparr>inner := g\<rparr>) d)\<lparr>
    replies := (case reply of None \<Rightarrow> replies d | Some m \<Rightarrow> insert (n, m) (replies d))\<rparr>"
  have "cluster_step p S M env d ?d" using deliver assms(2-4) by (intro cluster_step.deliver) auto
  then show ?thesis using deliver assms(3-6) by (intro exI [of _ ?d]) (auto simp: put_def split: option.splits)
next
  case (arrive n m)
  let ?d = "put n ((procs d n)\<lparr>rx := rx (procs d n) @ [m]\<rparr>) d"
  have "cluster_step p S M env d ?d" using arrive assms(2,3,5) by (intro cluster_step.arrive) auto
  then show ?thesis using arrive assms(3-6) by (intro exI [of _ ?d]) (auto simp: put_def)
next
  case (restart n j now r)
  then have "cluster_step p S M env d (put n r d)"
    using assms(2,3) by (intro cluster_step.restart [where now = now and j = j]) auto
  then show ?thesis using restart assms(4-6) by (intro exI [of _ "put n r d"]) (auto simp: put_def)
qed

text \<open>Messages that are queued while a node starts can be queued right after.\<close>

lemma queue_all:
  assumes "reachable p S M env d" "n \<in> M" "running (procs d n)" "held_vote n (inner (procs d n)) \<subseteq> votes_cast d"
    and "\<forall>m \<in> set ms. is_client m \<or> (n, m) \<in> replies d"
  shows "reachable p S M env (d\<lparr>procs := (procs d)(n := (procs d n)\<lparr>rx := rx (procs d n) @ ms\<rparr>)\<rparr>)"
  using assms
proof (induction ms arbitrary: d)
  case Nil
  then show ?case by (simp add: fun_upd_idem)
next
  case (Cons m ms)
  let ?d = "put n ((procs d n)\<lparr>rx := rx (procs d n) @ [m]\<rparr>) d"
  have "cluster_step p S M env d ?d"
    using Cons.prems by (cases "is_client m") (auto simp: api_send_def intro: cluster_step.client cluster_step.arrive)
  then have "reachable p S M env ?d" using Cons.prems(1) by (rule reachable.step [rotated])
  moreover have "?d = d\<lparr>procs := (procs d)(n := (procs d n)\<lparr>rx := rx (procs d n) @ [m]\<rparr>)\<rparr>"
    using Cons.prems(4) by (simp add: put_def sup.absorb1)
  ultimately show ?case
    using Cons.IH [of ?d] Cons.prems by (simp cong: if_cong)
qed

lemma enter_loop_boot:
  assumes "enter_loop S now j (node_new cfg st, ms) = Some r"
  shows "\<exists>r0. boot S cfg st now j = Some r0 \<and> rx r0 = [] \<and> running r0 \<and> r = r0\<lparr>rx := ms\<rparr>"
  using assms by (auto simp: boot_def start_def enter_loop_def elim!: bind_SomeE)

lemma simulation_step:
  assumes "split_step False p S M env s s'" "simulates M s d" "reachable p S M env d"
  shows "\<exists>d'. reachable p S M env d' \<and> simulates M s' d'"
  using assms(1)
proof cases
  case (others B c c')
  obtain d' a r where d': "cluster_step p S M env d d'" "a \<in> M - B" "procs c' = (procs c)(a := r)"
      "procs d' = (procs d)(a := r)" "net d' = net c'" "replies d' = replies c'"
      "votes_cast d' = votes_cast c'" "replies c \<subseteq> replies c'"
    using other_step [OF others(3), of M d] assms(2) others(1) by (fastforce simp: simulates_def)
  then have "simulates M s' d'"
    using assms(2) others(1,2) by (fastforce simp: simulates_def)
  then show ?thesis using assms(3) d'(1) by (blast intro: reachable.step)
next
  case (begin_start n c B)
  have "simulates M s' d"
  proof (cases "n \<in> B")
    case True
    then show ?thesis
      using assms(2) begin_start by (auto simp: simulates_def started_def start_def put_def)
  next
    case False
    then show ?thesis
      using assms(2) begin_start by (auto simp: simulates_def started_def start_def put_def)
  qed
  then show ?thesis using assms(3) by blast
next
  case (queued n B m c)
  note sim = simulatesD [OF assms(2) [unfolded queued(1)]]
  have "held_vote n (inner (procs c n)) = {}" using sim(6) [OF queued(3)] by simp
  then have "s' = (c\<lparr>procs := (procs c)(n := (procs c n)\<lparr>rx := rx (procs c n) @ [m]\<rparr>)\<rparr>, B)"
    using queued(2) by (simp add: put_def)
  moreover have "k \<noteq> n" if "k \<notin> B" for k using that queued(3) by auto
  ultimately have "simulates M s' d"
    using sim(1-5,7) sim(6) sim(8) queued(5) unfolding simulates_def by (simp add: ball_Un)
  then show ?thesis using assms(3) by blast
next
  case (end_start n B c j now r)
  let ?g = "inner (procs d n)"
  have n: "inner (procs c n) = node_new (config ?g) (storage ?g)"
      "\<forall>m \<in> set (rx (procs c n)). is_client m \<or> (n, m) \<in> replies d"
    using assms(2) end_start(1,3) by (auto simp: simulates_def)
  obtain r0 where r0: "boot S (config ?g) (storage ?g) now j = Some r0" "rx r0 = []" "running r0"
      "r = r0\<lparr>rx := rx (procs c n)\<rparr>"
    using enter_loop_boot [OF end_start(6) [unfolded n(1)]] by auto
  have "jitter_ok (config ?g) j" using end_start(5) n(1) by (simp add: node_new_def)
  then have "cluster_step p S M env d (put n r0 d)" using end_start(4) r0(1) by (intro cluster_step.restart)
  then have "reachable p S M env (put n r0 d)" using assms(3) by (rule reachable.step [rotated])
  then have "reachable p S M env ((put n r0 d)\<lparr>procs := (procs (put n r0 d))(n := r)\<rparr>)"
    using queue_all [of p S M env "put n r0 d" n "rx (procs c n)"] end_start(4) r0(2-4) n(2)
    by (simp add: put_def)
  moreover have "simulates M s' ((put n r0 d)\<lparr>procs := (procs (put n r0 d))(n := r)\<rparr>)"
  proof -
    note sim = simulatesD [OF assms(2) [unfolded end_start(1)]]
    show ?thesis
      unfolding simulates_def end_start(2) using sim(1-5,7) sim(6) sim(8) r0(4) by (auto simp: put_def)
  qed
  ultimately show ?thesis by blast
qed simp

lemma split_simulated:
  assumes "split_reachable False p S M env s"
  shows "\<exists>d. reachable p S M env d \<and> simulates M s d"
  using assms
proof induction
  case (split_initial c)
  then show ?case by (intro exI [of _ c]) (auto simp: simulates_def intro: reachable.initial)
next
  case (split_next s s')
  then show ?case using simulation_step by blast
qed

text \<open>Every run of the coarser model is one of the finer model.\<close>

lemma reachable_split: "reachable p S M env c \<Longrightarrow> split_reachable early p S M env (c, {})"
proof (induction rule: reachable.induct)
  case (initial c)
  then show ?case by (rule split_initial)
next
  case (step c c')
  then show ?case using split_step.others [of p S M "{}" env c c'] by (auto intro: split_next)
qed

subsection \<open>Properties\<close>

text \<open>C37 (refinement): a start in two steps. If no RPC reaches a node between the return of
  \<^verbatim>\<open>RaftNode::start\<close> and the end of the restore, then every state of a cluster whose nodes start
  in these two steps, with any other steps and any queued messages in between, is a reachable
  state of the cluster whose nodes start in one step, but for the nodes that are still starting,
  which hold the fresh state on the storage they had; so election safety carries over.\<close>

theorem split_start_refines:
  assumes "split_reachable False p (mem_storage p) M (timely p) (c, B)"
  shows "(\<exists>d. reachable p (mem_storage p) M (timely p) d \<and> net d = net c \<and> replies d = replies c \<and>
      votes_cast d = votes_cast c \<and> (\<forall>n. n \<notin> B \<longrightarrow> procs d n = procs c n) \<and>
      (\<forall>n \<in> B. inner (procs c n) =
        node_new (config (inner (procs d n))) (storage (inner (procs d n))))) \<and>
    card {n \<in> M. is_leader c n t} \<le> 1"
proof -
  obtain d where d: "reachable p (mem_storage p) M (timely p) d" "simulates M (c, B) d"
    using split_simulated [OF assms] by blast
  note sim = simulatesD [OF d(2)]
  have "n \<notin> B" if "is_leader c n t" for n
    using that sim(6) [of n] by (auto simp: is_leader_def node_new_def sm_new_def)
  then have "is_leader d n t" if "is_leader c n t" for n
    using that sim(5) [of n] by (simp add: is_leader_def)
  then have "card {n \<in> M. is_leader c n t} \<le> 1"
    using mem_hs.one_leader_per_term [OF d(1)]
    by (cases "finite {n \<in> M. is_leader c n t}") (simp_all add: card_le_Suc0_iff_eq, blast)
  then show ?thesis using d(1) sim(2-6) by blast
qed

theorem split_start_refines_witness:
  "\<exists>c. split_reachable False Debug (mem_storage Debug) node_ids (timely Debug) (c, {2}) \<and>
    is_leader c 1 1 \<and> card {n \<in> node_ids. is_leader c n 1} \<le> 1 \<and> current_term (sm (inner (procs c 2))) = 0"
proof -
  obtain c where c: "run_demo (timely Debug) elect_one = Some c" "is_leader c 1 1"
    using elect_one_run by blast
  let ?c = "put 2 (started (procs c 2)) c"
  have "split_reachable False Debug (mem_storage Debug) node_ids (timely Debug) (?c, {2})"
    using reachable_split [OF run_demo_reachable [OF c(1)]]
    by (rule split_next) (auto simp: node_ids_def intro: split_step.begin_start)
  then show ?thesis
    using split_start_refines [of Debug node_ids ?c "{2}" 1] c(2)
    by (intro exI [of _ ?c]) (simp add: is_leader_def put_def started_def start_def node_new_def sm_new_def)
qed

text \<open>C36 (error): an RPC between the return of \<^verbatim>\<open>RaftNode::start\<close> and the restore. Whatever vote a
  node has saved for a term, it grants a second vote of that term to any other candidate whose
  log is up to date and whose request is under way, if it is started again and the request is
  handled before the restore; the vote and the commit index it had saved are overwritten. After
  the restore the same request is denied.\<close>

theorem vote_before_restore:
  assumes "split_reachable True p (mem_storage p) M env (c, B)" "n \<in> M"
    and "storage (inner (procs c n)) = st" "mem_ok st"
    and "hard_state st = \<lparr>hs_term = t, hs_vote = x, hs_commit = k\<rparr>" "x \<noteq> 0" "0 < t"
    and "(n, t, x) \<in> votes_cast c" "(m, VoteTask n req) \<in> net c"
    and "rv_term req = t" "candidate_id req \<noteq> x" "up_to_date (mem_alog st) req"
  shows "\<exists>c'. split_reachable True p (mem_storage p) M env (c', insert n B) \<and>
      (m, VoteResponse n \<lparr>rvr_term = t, vote_granted = True\<rparr>) \<in> replies c' \<and>
      (n, t, x) \<in> votes_cast c' \<and> (n, t, candidate_id req) \<in> votes_cast c' \<and>
      hard_state (storage (inner (procs c' n))) =
        \<lparr>hs_term = t, hs_vote = candidate_id req, hs_commit = 0\<rparr> \<and>
    (\<exists>g g' resp. restore (mem_storage p) (inner (started (procs c n))) = Some g \<and>
      on_request_vote (mem_storage p) g req = Some (g', Inr resp) \<and> \<not> vote_granted resp)"
proof -
  let ?r = "started (procs c n)"
  let ?g = "node_new (config (inner (procs c n))) st"
  let ?c1 = "put n ?r c"
  have r: "inner ?r = ?g" using assms(3) by (simp add: started_def start_def)
  have new: "current_term (sm ?g) = 0" "voted_for (sm ?g) = None" "commit_index (sm ?g) = 0"
    by (simp_all add: node_new_def sm_new_def)
  obtain g' resp where g': "on_request_vote (mem_storage p) ?g req = Some (g', Inr resp)"
      "vote_granted resp" "rvr_term resp = t" "current_term (sm g') = t"
      "voted_for (sm g') = Some (candidate_id req)"
      "hard_state (storage g') = \<lparr>hs_term = t, hs_vote = candidate_id req, hs_commit = 0\<rparr>"
    using mem.request_vote_ok [of ?g p req] assms(4,7,10,12) new by auto
  let ?resp = "\<lparr>rvr_term = t, vote_granted = True\<rparr>"
  have "resp = ?resp" using g'(2,3) by simp
  then have del: "deliver_task p (mem_storage p) (VoteTask n req) (inner (procs ?c1 n)) =
      Some (g', Some (VoteResponse n ?resp))"
    using g'(1) r by (simp add: put_def)
  let ?c2 = "(put n ((procs ?c1 n)\<lparr>inner := g'\<rparr>) ?c1)\<lparr>replies := insert (m, VoteResponse n ?resp) (replies ?c1)\<rparr>"
  have "split_reachable True p (mem_storage p) M env (?c1, insert n B)"
    using assms(1) split_step.begin_start [OF assms(2)] by (rule split_next)
  moreover have "split_step True p (mem_storage p) M env (?c1, insert n B) (?c2, insert n B)"
    using split_step.early_rpc [OF TrueI, of m "VoteTask n req" ?c1 M "insert n B" p "mem_storage p" g'
      "Some (VoteResponse n ?resp)" env] assms(2,9) del by (simp add: put_def)
  ultimately have "split_reachable True p (mem_storage p) M env (?c2, insert n B)" by (rule split_next)
  moreover obtain g where g: "restore (mem_storage p) ?g = Some g" "mem_ok (storage g)"
      "current_term (sm g) = t" "voted_for (sm g) = Some x"
    using assms(4-6) by (simp add: restore_def mem_storage_def node_new_def)
  moreover obtain g'' resp' where "on_request_vote (mem_storage p) g req = Some (g'', Inr resp')" "\<not> vote_granted resp'"
    using mem.request_vote_ok [OF g(2), of p req] assms(10,11) g(3,4) by auto
  ultimately show ?thesis
    using assms(8) g'(4-6) r by (intro exI [of _ ?c2]) (auto simp: put_def held_vote_def)
qed

definition two_candidates :: "ClusterEvent list" where
  "two_candidates = elect_one @ [EvTick 3 300 300, EvDispatch 3, EvDispatch 3]"

theorem vote_before_restore_witness:
  "\<exists>c. split_reachable True Debug (mem_storage Debug) node_ids (timely Debug) (c, {2}) \<and>
    (2, 1, 1) \<in> votes_cast c \<and> (2, 1, 3) \<in> votes_cast c"
proof -
  have "case run_demo (timely Debug) two_candidates of None \<Rightarrow> False
    | Some c \<Rightarrow> storage (inner (procs c 2)) =
          mem_new\<lparr>hard_state := \<lparr>hs_term = 1, hs_vote = 1, hs_commit = 0\<rparr>\<rparr> \<and>
        (2, 1, 1) \<in> votes_cast c \<and> (3, VoteTask 2 (vote_req 1 3)) \<in> net c"
    by code_simp
  then obtain c where c: "run_demo (timely Debug) two_candidates = Some c"
      "storage (inner (procs c 2)) = mem_new\<lparr>hard_state := \<lparr>hs_term = 1, hs_vote = 1, hs_commit = 0\<rparr>\<rparr>"
      "(2, 1, 1) \<in> votes_cast c" "(3, VoteTask 2 (vote_req 1 3)) \<in> net c"
    by (auto split: option.splits)
  show ?thesis
    using vote_before_restore [OF reachable_split [OF run_demo_reachable [OF c(1)]] _ c(2), of 1 1 0 3 "vote_req 1 3"] c(3,4)
    by (auto simp: node_ids_def vote_req_def mem_ok_def mem_alog_def mem_new_def alog_ok_def up_to_date_def
      last_term_of_def alog_last_def)
qed

end
