(* ===== verification/Catch_Up.thy ===== *)
theory Catch_Up
  imports Raft_Cluster Node_Replication
begin

text \<open>
  A leader and one follower after the other, message by message: the leader builds a request
  (\<^verbatim>\<open>replicate_to\<close>), the spawned task carries it to the follower and back, and the leader's
  event loop handles the response. Such rounds bring any follower up to date in finitely many steps,
  and once a quorum is up to date the leader has committed its log and answered its callers.
\<close>

subsection \<open>Rounds of replication\<close>

definition replication_round ::
  "profile \<Rightarrow> NodeId \<Rightarrow> MemStorageInner RaftNodeInner \<times> MemStorageInner RaftNodeInner \<Rightarrow>
   (MemStorageInner RaftNodeInner \<times> MemStorageInner RaftNodeInner) option" where
  "replication_round p peer s = do {
     gl \<leftarrow> replicate_to p (mem_storage p) (fst s) peer;
     (g', reply) \<leftarrow> deliver_task p (mem_storage p) (last (spawned gl)) (snd s);
     (case reply of
        None \<Rightarrow> ret (gl, g')
      | Some m \<Rightarrow> do {
          (gl', _) \<leftarrow> handle_message p (mem_storage p) gl m;
          ret (gl', g')
        })
   }"

fun replication_rounds ::
  "profile \<Rightarrow> NodeId \<Rightarrow> nat \<Rightarrow> MemStorageInner RaftNodeInner \<times> MemStorageInner RaftNodeInner \<Rightarrow>
   (MemStorageInner RaftNodeInner \<times> MemStorageInner RaftNodeInner) option" where
  "replication_rounds p peer 0 s = Some s"
| "replication_rounds p peer (Suc k) s = replication_round p peer s \<bind> replication_rounds p peer k"

text \<open>A leader that has something to commit, and what it knows of a follower: the next index is in
  range, and the match index is 0, as after an election, or it is the index before the next one and
  the follower's log agrees up to it. No snapshot has been taken on either side.\<close>

definition leading :: "profile \<Rightarrow> MemStorageInner RaftNodeInner \<Rightarrow> bool" where
  "leading p gl \<longleftrightarrow> mem_ok (storage gl) \<and> base (mem_alog (storage gl)) = 0 \<and> role (sm gl) = Leader \<and>
     current_term (sm gl) \<noteq> 0 \<and> last_applied (sm gl) \<le> commit_index (sm gl) \<and>
     unat (commit_index (sm gl)) \<le> length (entries (storage gl)) \<and>
     u64_mul p (max_append_entries (config gl)) 4096 \<noteq> None"

definition tracks :: "MemStorageInner RaftNodeInner \<Rightarrow> Progress \<Rightarrow> MemStorageInner RaftNodeInner \<Rightarrow> bool" where
  "tracks gl pr g \<longleftrightarrow> 0 < next_index pr \<and> unat (next_index pr) \<le> length (entries (storage gl)) + 1 \<and>
     (match_index pr = 0 \<or> unat (next_index pr) = unat (match_index pr) + 1 \<and>
       unat (match_index pr) \<le> length (entries (storage g)) \<and>
       take (unat (match_index pr)) (entries (storage gl)) = take (unat (match_index pr)) (entries (storage g)))"

definition follows :: "MemStorageInner RaftNodeInner \<Rightarrow> MemStorageInner RaftNodeInner \<Rightarrow> bool" where
  "follows gl g \<longleftrightarrow> mem_ok (storage g) \<and> base (mem_alog (storage g)) = 0 \<and>
     current_term (sm g) \<le> current_term (sm gl) \<and>
     log_matching (mem_alog (storage gl)) (mem_alog (storage g))"

text \<open>What a round leaves of the leader. Callers are answered once their index is committed.\<close>

definition still_leads :: "MemStorageInner RaftNodeInner \<Rightarrow> MemStorageInner RaftNodeInner \<Rightarrow> bool" where
  "still_leads gl gl' \<longleftrightarrow> mem_alog (storage gl') = mem_alog (storage gl) \<and> config gl' = config gl \<and>
     role (sm gl') = role (sm gl) \<and> current_term (sm gl') = current_term (sm gl) \<and>
     commit_index (sm gl) \<le> commit_index (sm gl') \<and> set (sent gl) \<subseteq> set (sent gl') \<and>
     (\<forall>(i, tx) \<in> set (pending gl). (i, tx) \<in> set (pending gl') \<or> (tx, ProposeReply (Inr i)) \<in> set (sent gl'))"

lemma still_leads_refl: "still_leads gl gl"
  by (auto simp: still_leads_def)

lemma still_leads_trans: "still_leads a b \<Longrightarrow> still_leads b c \<Longrightarrow> still_leads a c"
  unfolding still_leads_def by (fastforce intro: order.trans)

text \<open>After a round the leader has committed what a quorum holds.\<close>

definition up_to_date_commit :: "profile \<Rightarrow> MemStorageInner RaftNodeInner \<Rightarrow> bool" where
  "up_to_date_commit p gl \<longleftrightarrow>
     (\<forall>k. k \<le> mem_last_index (storage gl) \<longrightarrow>
        committable (progress (sm gl)) (quorum (config gl)) (current_term (sm gl))
          (readable_term (mem_storage p) (storage gl)) k \<longrightarrow> k \<le> commit_index (sm gl)) \<and>
     (\<forall>(i, _) \<in> set (pending gl). \<not> i \<le> commit_index (sm gl))"

lemma readable_term_alog:
  "mem_ok m \<Longrightarrow> mem_ok m' \<Longrightarrow> mem_alog m = mem_alog m' \<Longrightarrow>
   readable_term (mem_storage p) m = readable_term (mem_storage p) m'"
  by (rule ext) (simp add: readable_term_def mem_term_spec)

lemma next_commit_bounds:
  "(\<forall>k. k \<le> l \<longrightarrow> committable (progress (sm g)) (quorum (config g)) (current_term (sm g))
       (readable_term S (storage g)) k \<longrightarrow> k \<le> next_commit S g l) \<and>
   (next_commit S g l = commit_index (sm g) \<or> next_commit S g l \<le> l)"
  using maybe_commit_loop_result [where pr = "progress (sm g)" and q = "quorum (config g)" and
      t = "current_term (sm g)" and term_at = "readable_term S (storage g)" and
      commit = "commit_index (sm g)" and n = l]
  by (auto simp: next_commit_def not_le split: option.splits)

text \<open>The leader hears from the follower.\<close>

lemma leader_hears:
  assumes "leading p gl" "map_of (progress (sm gl)) peer = Some pr"
    and "progress_on_append p i resp pr = Some pr'" "aer_term resp \<le> current_term (sm gl)"
  shows "\<exists>gl'. handle_message p (mem_storage p) gl (AppendResponse peer i resp) = Some (gl', True) \<and>
    leading p gl' \<and> still_leads gl gl' \<and> up_to_date_commit p gl' \<and>
    progress (sm gl') = AList.update peer pr' (progress (sm gl))"
proof -
  define g1 where "g1 = upd_sm (\<lambda>s. s\<lparr>progress := AList.update peer pr' (progress s)\<rparr>) gl"
  have L: "mem_ok (storage gl)" "base (mem_alog (storage gl)) = 0" "role (sm gl) = Leader"
      "current_term (sm gl) \<noteq> 0" "last_applied (sm gl) \<le> commit_index (sm gl)"
      "unat (commit_index (sm gl)) \<le> length (entries (storage gl))"
    using assms(1) by (simp_all add: leading_def)
  have g1: "mem_ok (storage g1)" "role (sm g1) = Leader" "current_term (sm g1) \<noteq> 0"
      "last_applied (sm g1) \<le> commit_index (sm g1)"
    using L by (simp_all add: g1_def)
  let ?last = "of_nat (alog_last (mem_alog (storage g1))) :: LogIndex"
  let ?c = "next_commit (mem_storage p) g1 ?last"
  obtain gl' where gl': "maybe_advance_commit p (mem_storage p) g1 = Some gl'" "mem_ok (storage gl')"
      "mem_alog (storage gl') = mem_alog (storage gl)"
      "sm gl' = (sm g1)\<lparr>commit_index := ?c\<rparr>" "config gl' = config gl"
      "pending gl' = filter (\<lambda>(i, _). \<not> i \<le> ?c) (pending gl)"
      "sent gl' = sent gl @ map (\<lambda>(i, tx). (tx, ProposeReply (Inr i))) (filter (\<lambda>(i, _). i \<le> ?c) (pending gl))"
    using mem.advance_commit [OF g1, of p p] by (auto simp: g1_def)
  have handled: "handle_message p (mem_storage p) gl (AppendResponse peer i resp) = Some (gl', True)"
  proof -
    have "\<not> current_term (sm gl) < aer_term resp" using assms(4) by simp
    then show ?thesis
      using assms(2,3) L(3) gl'(1) by (simp add: handle_append_response_def with_progress_def g1_def)
  qed
  have last: "?last = mem_last_index (storage gl')" "unat ?last = length (entries (storage gl))"
    using mem_last_index_spec [OF gl'(2)] gl'(3) L(1,2) mem_base_bound [OF L(1)]
    by (simp_all add: g1_def alog_last_def)
      (simp add: of_nat_u64)
  have c: "commit_index (sm gl) \<le> ?c" "unat ?c \<le> length (entries (storage gl))"
    using next_commit_ge [of g1 "mem_storage p" ?last] next_commit_bounds [of ?last g1 "mem_storage p"]
      last(2) L(6) by (auto simp: g1_def word_le_nat_alt)
  have "up_to_date_commit p gl'"
    using next_commit_bounds [of ?last g1 "mem_storage p"] gl'(4-6) last(1)
      readable_term_alog [OF gl'(2) L(1) gl'(3), of p]
    by (auto simp: up_to_date_commit_def g1_def)
  moreover have "leading p gl'"
    using assms(1) gl'(2-5) c L(5) by (auto simp: leading_def g1_def simp flip: ents_mem_alog)
  moreover have "still_leads gl gl'"
    using gl'(3-7) c(1) by (auto simp: still_leads_def g1_def)
  ultimately show ?thesis
    using handled gl'(4) by (auto simp: g1_def)
qed

text \<open>Logs without snapshots that agree up to an index.\<close>

lemma same_upto_take:
  assumes "base L = 0" "base F = 0" "n \<le> length (ents L)" "n \<le> length (ents F)" "same_upto L F n"
  shows "take n (ents L) = take n (ents F)"
proof (rule nth_equalityI)
  fix i assume "i < length (take n (ents L))"
  then have "entry_at L (Suc i) = Some (ents L ! i)" "entry_at F (Suc i) = Some (ents F ! i)" "Suc i \<le> n"
    using assms(1-4) by (simp_all add: entry_at_def alog_last_def)
  then show "take n (ents L) ! i = take n (ents F) ! i"
    using assms(5) unfolding same_upto_def by fastforce
qed (use assms(3,4) in simp)

lemma data_bytes_take: "data_bytes (take n xs) \<le> data_bytes xs"
  by (induction xs arbitrary: n) (auto simp: data_bytes_def take_Cons' )

lemma alog_ok_take: "alog_ok L \<Longrightarrow> base L = 0 \<Longrightarrow> base F = 0 \<Longrightarrow> ents F = take n (ents L) \<Longrightarrow> alog_ok F"
  using data_bytes_take [of n "ents L"] by (simp add: alog_ok_def contiguous_take min.strict_coboundedI1)

text \<open>The request of a round, for a follower without snapshot.\<close>

lemma round_request:
  assumes "leading p gl" "map_of (progress (sm gl)) peer = Some pr" "tracks gl pr g"
  obtains n i where "unat i = unat (next_index pr) - 1 + n" "unat i \<le> length (entries (storage gl))"
    "unat (next_index pr) \<le> length (entries (storage gl)) \<longrightarrow> 0 < n"
    "replicate_to p (mem_storage p) gl peer = Some (gl\<lparr>spawned := spawned gl @
      [AppendTask peer i (append_request_for (mem_alog (storage gl)) gl (next_index pr) n)]\<rparr>)"
    "unat (next_index pr - 1) = unat (next_index pr) - 1"
proof -
  have L: "mem_ok (storage gl)" "base (mem_alog (storage gl)) < unat (next_index pr)"
      "unat (next_index pr) \<le> alog_last (mem_alog (storage gl)) + 1"
    using assms by (simp_all add: leading_def tracks_def alog_last_def word_less_nat_alt)
  obtain cap where "u64_mul p (max_append_entries (config gl)) 4096 = Some cap"
    using assms(1) by (auto simp: leading_def)
  from mem.replicate_append [OF L(1) assms(2) L(2,3) this, of p] show ?thesis
    using that L(2) assms(1,3) u64_pred [of 0 "next_index pr" Debug]
    by (fastforce simp: leading_def tracks_def alog_last_def)
qed

lemma leading_spawned [simp]:
  "leading p (gl\<lparr>spawned := ts\<rparr>) = leading p gl"
  by (simp add: leading_def)

lemma still_leads_spawned: "still_leads (gl\<lparr>spawned := ts\<rparr>) gl' = still_leads gl gl'"
  by (simp add: still_leads_def)

text \<open>A rejected round lowers the next index and changes neither log.\<close>

lemma round_rejected:
  assumes "leading p gl" "map_of (progress (sm gl)) peer = Some pr" "tracks gl pr g" "follows gl g"
    and "\<And>n. \<not> consistent (mem_alog (storage g)) (append_request_for (mem_alog (storage gl)) gl (next_index pr) n)"
  shows "\<exists>gl' g' pr'. replication_round p peer (gl, g) = Some (gl', g') \<and> leading p gl' \<and> still_leads gl gl' \<and>
    mem_alog (storage g') = mem_alog (storage g) \<and> follows gl' g' \<and>
    progress (sm gl') = AList.update peer pr' (progress (sm gl)) \<and> match_index pr' = match_index pr \<and>
    0 < next_index pr' \<and> next_index pr' < next_index pr"
proof -
  obtain n i where r: "replicate_to p (mem_storage p) gl peer = Some (gl\<lparr>spawned := spawned gl @
      [AppendTask peer i (append_request_for (mem_alog (storage gl)) gl (next_index pr) n)]\<rparr>)"
      "unat (next_index pr - 1) = unat (next_index pr) - 1"
    using round_request [OF assms(1-3)] by metis
  let ?req = "append_request_for (mem_alog (storage gl)) gl (next_index pr) n"
  have F: "mem_ok (storage g)" "current_term (sm g) \<le> ae_term ?req" "base (mem_alog (storage g)) = 0"
    using assms(4) by (simp_all add: follows_def append_request_for_def)
  obtain g' c t where g': "on_append_entries p (mem_storage p) g ?req = Some (g', Inr (reject c t (ae_term ?req)))"
      "mem_ok (storage g')" "mem_alog (storage g') = mem_alog (storage g)" "sm g' = led_by ?req (sm g)" "0 < c"
      "if unat (prev_log_index ?req) = base (mem_alog (storage g)) then c = prev_log_index ?req + 1
       else c \<le> prev_log_index ?req"
    using mem.append_rejects [OF F(1,2) assms(5), of p p] by blast
  have "prev_log_index ?req \<noteq> 0" using assms(5) [of n] by (auto simp: consistent_def)
  then have le: "c \<le> next_index pr - 1"
    using g'(6) F(3) by (auto simp: append_request_for_def unat_eq_0 split: if_splits)
  have "c < next_index pr"
    using le r(2) assms(3) by (auto simp: tracks_def word_le_nat_alt word_less_nat_alt)
  moreover have "progress_on_append p i (reject c t (ae_term ?req)) pr = Some (pr\<lparr>next_index := c\<rparr>)"
    using g'(5) by (simp add: progress_on_append_def reject_def)
  moreover have "aer_term (reject c t (ae_term ?req)) = current_term (sm gl)"
    by (simp add: reject_def append_request_for_def)
  ultimately obtain gl' where gl': "handle_message p (mem_storage p) (gl\<lparr>spawned := spawned gl @
        [AppendTask peer i ?req]\<rparr>) (AppendResponse peer i (reject c t (ae_term ?req))) = Some (gl', True)"
      "leading p gl'" "still_leads gl gl'"
      "progress (sm gl') = AList.update peer (pr\<lparr>next_index := c\<rparr>) (progress (sm gl))"
    using leader_hears [of p "gl\<lparr>spawned := spawned gl @ [AppendTask peer i ?req]\<rparr>" peer pr i
        "reject c t (ae_term ?req)" "pr\<lparr>next_index := c\<rparr>"] assms(1,2)
    by (auto simp: still_leads_spawned)
  have "follows gl' g'"
    using assms(4) g'(2-4) gl'(3) F(2)
    by (simp add: follows_def still_leads_def led_by_simps) (simp add: append_request_for_def)
  then show ?thesis
    using r(1) g'(1,3,5) gl' \<open>c < next_index pr\<close>
    by (intro exI [of _ gl'] exI [of _ g'] exI [of _ "pr\<lparr>next_index := c\<rparr>"])
      (simp add: replication_round_def)
qed

text \<open>The log of a follower that accepts a request: it agrees with the leader's up to the last index
  of the request.\<close>

lemma accepted_entries:
  assumes L: "alog_ok L" "base L = 0" and F: "base F = 0" "log_matching L F"
    and nxt: "0 < unat nxt" "unat nxt \<le> length (ents L) + 1" "unat (nxt - 1) = unat nxt - 1"
    and cons: "consistent F (append_request_for L gl nxt n)"
  defines "es \<equiv> request_entries (append_request_for L gl nxt n)"
  shows "ents (alog_append F es) =
      (if es = [] then ents F else take (unat nxt - 1 + n) (ents L))"
    and "take (unat nxt - 1) (ents L) = take (unat nxt - 1) (ents F)" "unat nxt - 1 \<le> length (ents F)"
    and "es = [] \<longleftrightarrow> n = 0 \<or> length (ents L) < unat nxt"
proof -
  let ?req = "append_request_for L gl nxt n"
  have "nxt = 1 \<longleftrightarrow> unat nxt - 1 = 0" using nxt(1) by (auto simp: word_unat_eq_iff)
  then have prev: "prev_log_index ?req = nxt - 1" "prev_log_term ?req =
      (if unat nxt - 1 = 0 then 0 else unwrap_or (alog_term L (prev_log_index ?req)) 0)"
    by (simp_all add: append_request_for_def)
  show len: "unat nxt - 1 \<le> length (ents F)"
    using consistent_last [OF cons] prev(1) nxt(3) F(1) by (simp add: alog_last_def)
  show agree: "take (unat nxt - 1) (ents L) = take (unat nxt - 1) (ents F)"
    using consistent_same_upto [OF F(2) cons _ prev(2)] same_upto_take [OF L(2) F(1)] prev(1) nxt len L(2)
    by (simp add: alog_last_def)
  have es: "es = take n (drop (unat nxt - 1) (ents L))"
    unfolding es_def using L(2) by (simp add: alog_slice_def alog_last_def)
  show "es = [] \<longleftrightarrow> n = 0 \<or> length (ents L) < unat nxt" using nxt(1) unfolding es by auto
  show "ents (alog_append F es) = (if es = [] then ents F else take (unat nxt - 1 + n) (ents L))"
  proof (cases "es = []")
    case False
    have "contiguous (unat nxt) es"
      using L nxt(1) contiguous_drop [of 1 "ents L" "unat nxt - 1"] unfolding es
      by (simp add: alog_ok_def contiguous_take)
    then have "unat (le_index (hd es)) = unat nxt" using False by (rule contiguous_hd)
    then have "ents (alog_append F es) = take (unat nxt - 1) (ents L) @ es"
      using False F(1) agree by (simp add: alog_append_def)
    also have "\<dots> = take (unat nxt - 1 + n) (ents L)" unfolding es by (rule take_add [symmetric])
    finally show ?thesis using False by simp
  qed (simp add: alog_append_def)
qed

lemma accepted_log:
  assumes "alog_ok L" "base L = 0" "alog_ok F" "base F = 0" "log_matching L F"
    and "0 < unat nxt" "unat nxt \<le> length (ents L) + 1" "unat (nxt - 1) = unat nxt - 1"
    and "consistent F (append_request_for L gl nxt n)" "unat i = unat nxt - 1 + n" "unat i \<le> length (ents L)"
  defines "F' \<equiv> alog_append F (request_entries (append_request_for L gl nxt n))"
  shows "alog_ok F' \<and> base F' = 0 \<and> log_matching L F' \<and>
    take (unat i) (ents L) = take (unat i) (ents F') \<and> unat i \<le> length (ents F')"
proof -
  note e = accepted_entries [OF assms(1,2,4-9)]
  let ?es = "request_entries (append_request_for L gl nxt n)"
  have base: "base F' = 0" using assms(4) by (simp add: F'_def alog_append_def)
  have "alog_ok F' \<and> take (unat i) (ents L) = take (unat i) (ents F') \<and> unat i \<le> length (ents F')"
  proof (cases "?es = []")
    case True
    then have "unat i = unat nxt - 1" using e(4) assms(6,10,11) by linarith
    then show ?thesis using True e(1-3) assms(3) unfolding F'_def by (simp add: alog_append_def)
  next
    case False
    then have "ents F' = take (unat i) (ents L)" using e(1) assms(10) by (simp add: F'_def)
    then show ?thesis using alog_ok_take [OF assms(1,2) base] assms(11) by simp
  qed
  moreover from this have "log_matching L F'"
    using request_matches [OF refl F'_def [THEN meta_eq_to_obj_eq] assms(1) _ _ assms(9) _ assms(5)] assms(2,6,10,11)
    by (simp add: alog_last_def)
  ultimately show ?thesis using base by blast
qed

text \<open>An accepted round: the follower agrees up to the last index of the request.\<close>

lemma round_accepted:
  assumes "leading p gl" "map_of (progress (sm gl)) peer = Some pr" "tracks gl pr g" "follows gl g"
    and "\<And>n. consistent (mem_alog (storage g)) (append_request_for (mem_alog (storage gl)) gl (next_index pr) n)"
  shows "\<exists>gl' g' pr'. replication_round p peer (gl, g) = Some (gl', g') \<and> leading p gl' \<and> still_leads gl gl' \<and>
    up_to_date_commit p gl' \<and> follows gl' g' \<and> tracks gl' pr' g' \<and>
    progress (sm gl') = AList.update peer pr' (progress (sm gl)) \<and>
    unat (next_index pr') = unat (match_index pr') + 1 \<and>
    take (unat (match_index pr')) (entries (storage gl)) = take (unat (match_index pr')) (entries (storage g')) \<and>
    unat (match_index pr') \<le> length (entries (storage g')) \<and>
    (unat (next_index pr) \<le> length (entries (storage gl)) \<longrightarrow> unat (next_index pr) < unat (next_index pr')) \<and>
    (length (entries (storage gl)) < unat (next_index pr) \<longrightarrow>
      unat (match_index pr') = length (entries (storage gl)))"
proof -
  let ?L = "mem_alog (storage gl)" and ?F = "mem_alog (storage g)" and ?nxt = "next_index pr"
  obtain n i where r: "unat i = unat ?nxt - 1 + n" "unat i \<le> length (entries (storage gl))"
      "unat ?nxt \<le> length (entries (storage gl)) \<longrightarrow> 0 < n"
      "replicate_to p (mem_storage p) gl peer = Some (gl\<lparr>spawned := spawned gl @
        [AppendTask peer i (append_request_for ?L gl ?nxt n)]\<rparr>)"
      "unat (?nxt - 1) = unat ?nxt - 1"
    using round_request [OF assms(1-3)] by metis
  let ?req = "append_request_for ?L gl ?nxt n"
  let ?F' = "alog_append ?F (request_entries ?req)"
  have L: "mem_ok (storage gl)" "base ?L = 0" "alog_ok ?L" and pos: "0 < unat ?nxt"
      and range: "unat ?nxt \<le> length (entries (storage gl)) + 1"
    using assms(1,3) by (simp_all add: leading_def mem_ok_def tracks_def word_less_nat_alt)
  have F: "mem_ok (storage g)" "current_term (sm g) \<le> ae_term ?req" "base ?F = 0" "log_matching ?L ?F" "alog_ok ?F"
    using assms(4) by (simp_all add: follows_def append_request_for_def mem_ok_def)
  have F': "alog_ok ?F'" "base ?F' = 0" "log_matching ?L ?F'"
      "take (unat i) (entries (storage gl)) = take (unat i) (ents ?F')" "unat i \<le> length (ents ?F')"
    using accepted_log [OF L(3,2) F(5,3,4) pos _ r(5) assms(5) [of n] r(1)] range r(2) by simp_all
  obtain g' where g': "on_append_entries p (mem_storage p) g ?req = Some (g', Inr \<lparr>aer_term = ae_term ?req,
        success = True, conflict_index = 0, conflict_term = 0\<rparr>)" "mem_ok (storage g')"
      "mem_alog (storage g') = ?F'" "current_term (sm g') = ae_term ?req"
    using mem.append_accepts [OF F(1,2) assms(5) F'(1), of p p] F(2) by (auto simp: led_by_simps)
  have entsF': "entries (storage g') = ents ?F'" using g'(3) by (metis ents_mem_alog)
  have le: "match_index pr \<le> i"
    using assms(3) r(1) by (auto simp: tracks_def word_le_nat_alt)
  have i1: "u64_add p i 1 = Some (i + 1)" "unat (i + 1) = unat i + 1"
    using u64_succ [of i p] r(2) mem_base_bound [OF L(1)] L(2) by simp_all
  let ?pr = "pr\<lparr>match_index := i, next_index := i + 1, in_flight := False\<rparr>"
  let ?resp = "\<lparr>aer_term = ae_term ?req, success = True, conflict_index = 0, conflict_term = 0\<rparr>"
  have "progress_on_append p i ?resp pr = Some ?pr"
    using le i1(1) by (simp add: progress_on_append_def progress_on_success_def max_def)
  moreover have "aer_term ?resp = current_term (sm gl)"
    by (simp add: append_request_for_def)
  ultimately obtain gl' where gl': "handle_message p (mem_storage p) (gl\<lparr>spawned := spawned gl @
        [AppendTask peer i ?req]\<rparr>) (AppendResponse peer i ?resp) = Some (gl', True)"
      "leading p gl'" "still_leads gl gl'" "up_to_date_commit p gl'"
      "progress (sm gl') = AList.update peer ?pr (progress (sm gl))"
    using leader_hears [of p "gl\<lparr>spawned := spawned gl @ [AppendTask peer i ?req]\<rparr>" peer pr i ?resp ?pr] assms(1,2)
    by (auto simp: still_leads_spawned)
  have same: "entries (storage gl') = entries (storage gl)"
    using gl'(3) unfolding still_leads_def by (metis ents_mem_alog)
  have "follows gl' g'"
    using g'(2-4) gl'(3) F'(2,3) by (simp add: follows_def still_leads_def append_request_for_def)
  moreover have "tracks gl' ?pr g'"
    using i1(2) r(2) F'(4,5) same entsF' by (simp add: tracks_def word_less_nat_alt)
  moreover have "replication_round p peer (gl, g) = Some (gl', g')"
    using r(4) g'(1) gl'(1) by (simp add: replication_round_def)
  ultimately show ?thesis
    using gl'(2-5) i1(2) F'(4,5) entsF' r(1-3) range
    by (intro exI [of _ gl'] exI [of _ g'] exI [of _ ?pr]) auto
qed

lemma consistent_request:
  "consistent F (append_request_for L gl nxt n) \<longleftrightarrow> consistent F (append_request_for L gl nxt 0)"
  by (simp add: consistent_def append_request_for_def)

text \<open>Where the follower agrees up to the match index, the next request passes.\<close>

lemma tracked_consistent:
  assumes "leading p gl" "tracks gl pr g" "follows gl g" "unat (next_index pr) = unat (match_index pr) + 1"
    and "unat (match_index pr) \<le> length (entries (storage g))"
    and "take (unat (match_index pr)) (entries (storage gl)) = take (unat (match_index pr)) (entries (storage g))"
  shows "consistent (mem_alog (storage g)) (append_request_for (mem_alog (storage gl)) gl (next_index pr) n)"
proof (cases "match_index pr = 0")
  case True
  then have "next_index pr = 1" using assms(4) by (simp add: word_unat_eq_iff)
  then show ?thesis by (simp add: consistent_def append_request_for_def)
next
  case False
  have pred: "next_index pr - 1 = match_index pr"
    using u64_pred [of 0 "next_index pr" Debug] assms(2,4) by (simp add: tracks_def word_unat_eq_iff)
  have pos: "0 < unat (match_index pr)" using False by (simp add: unat_gt_0)
  then have ne: "next_index pr \<noteq> 1" using assms(4) by auto
  have len: "unat (match_index pr) \<le> length (entries (storage gl))"
    using assms(2,4) by (simp add: tracks_def)
  have "entries (storage gl) ! (unat (match_index pr) - 1) = entries (storage g) ! (unat (match_index pr) - 1)"
    using assms(6) pos by (metis diff_less less_numeral_extra(1) nth_take)
  then show ?thesis
    using assms(1,3,5) False pos ne len
    by (simp add: consistent_def append_request_for_def pred alog_term_def leading_def follows_def alog_last_def)
qed

definition caught_up ::
  "profile \<Rightarrow> NodeId \<Rightarrow> MemStorageInner RaftNodeInner \<Rightarrow> MemStorageInner RaftNodeInner \<Rightarrow>
   MemStorageInner RaftNodeInner \<Rightarrow> bool" where
  "caught_up p peer gl gl' g' \<longleftrightarrow> leading p gl' \<and> still_leads gl gl' \<and> up_to_date_commit p gl' \<and> follows gl' g' \<and>
     prefix (entries (storage gl)) (entries (storage g')) \<and>
     map fst (progress (sm gl')) = map fst (progress (sm gl)) \<and>
     (\<exists>pr'. map_of (progress (sm gl')) = (map_of (progress (sm gl)))(peer \<mapsto> pr') \<and>
       unat (match_index pr') = length (entries (storage gl)))"

lemma still_leads_entries: "still_leads gl gl' \<Longrightarrow> entries (storage gl') = entries (storage gl)"
  unfolding still_leads_def by (metis ents_mem_alog)

lemma update_keys: "map_of al x = Some v \<Longrightarrow> map fst (AList.update x w al) = map fst al"
  by (induction al) auto

lemma caught_up_after:
  assumes "still_leads gl gl1" "progress (sm gl1) = AList.update peer pr1 (progress (sm gl))"
    and "map_of (progress (sm gl)) peer = Some pr" "caught_up p peer gl1 gl' g'"
  shows "caught_up p peer gl gl' g'"
  using assms still_leads_trans [OF assms(1)] still_leads_entries [OF assms(1)] update_keys [OF assms(3)]
  by (auto simp: caught_up_def update_conv')

text \<open>From a request that passes on, every round is accepted and sends at least one more entry.\<close>

lemma accepted_rounds:
  assumes "leading p gl" "map_of (progress (sm gl)) peer = Some pr" "tracks gl pr g" "follows gl g"
    and "consistent (mem_alog (storage g)) (append_request_for (mem_alog (storage gl)) gl (next_index pr) 0)"
  shows "\<exists>k gl' g'. 0 < k \<and> k \<le> max 1 (length (entries (storage gl)) + 1 - unat (next_index pr)) \<and>
    replication_rounds p peer k (gl, g) = Some (gl', g') \<and> caught_up p peer gl gl' g'"
  using assms
proof (induction "length (entries (storage gl)) + 1 - unat (next_index pr)" arbitrary: gl g pr rule: less_induct)
  case less
  obtain gl1 g1 pr1 where r: "replication_round p peer (gl, g) = Some (gl1, g1)" "leading p gl1"
      "still_leads gl gl1" "up_to_date_commit p gl1" "follows gl1 g1" "tracks gl1 pr1 g1"
      "progress (sm gl1) = AList.update peer pr1 (progress (sm gl))"
      "unat (next_index pr1) = unat (match_index pr1) + 1"
      "take (unat (match_index pr1)) (entries (storage gl)) = take (unat (match_index pr1)) (entries (storage g1))"
      "unat (match_index pr1) \<le> length (entries (storage g1))"
      "unat (next_index pr) \<le> length (entries (storage gl)) \<longrightarrow> unat (next_index pr) < unat (next_index pr1)"
      "length (entries (storage gl)) < unat (next_index pr) \<longrightarrow>
        unat (match_index pr1) = length (entries (storage gl))"
    using round_accepted [OF less.prems(1-4)] less.prems(5) consistent_request by metis
  have same: "entries (storage gl1) = entries (storage gl)" using r(3) by (rule still_leads_entries)
  show ?case
  proof (cases "unat (match_index pr1) = length (entries (storage gl))")
    case True
    then have "prefix (entries (storage gl)) (entries (storage g1))"
      using r(9) by (metis order.refl take_all take_is_prefix)
    then have "caught_up p peer gl gl1 g1"
      using r True less.prems(2) by (auto simp: caught_up_def update_conv' update_keys)
    then show ?thesis using r(1) by (intro exI [of _ "1 :: nat"]) auto
  next
    case False
    have mono: "unat (next_index pr) < unat (next_index pr1)" "unat (next_index pr1) \<le> length (entries (storage gl))"
      using r(6,8,11,12) same False by (auto simp: tracks_def)
    have "consistent (mem_alog (storage g1)) (append_request_for (mem_alog (storage gl1)) gl1 (next_index pr1) 0)"
      using r(9) same by (intro tracked_consistent [OF r(2,6,5,8,10)]) simp
    note cons = this
    have d: "length (entries (storage gl1)) + 1 - unat (next_index pr1) <
        length (entries (storage gl)) + 1 - unat (next_index pr)"
      unfolding same using mono by linarith
    have "map_of (progress (sm gl1)) peer = Some pr1" using r(7) by (simp add: update_conv')
    from less.hyps [OF d r(2) this r(6,5) cons] obtain k gl' g' where
        "0 < k" "k \<le> max 1 (length (entries (storage gl1)) + 1 - unat (next_index pr1))"
        "replication_rounds p peer k (gl1, g1) = Some (gl', g')" "caught_up p peer gl1 gl' g'"
      by blast
    then show ?thesis
      using r(1) mono same caught_up_after [OF r(3,7) less.prems(2)]
      by (intro exI [of _ "Suc k"] exI [of _ gl'] exI [of _ g']) auto
  qed
qed

text \<open>Rejections come first; each lowers the next index.\<close>

lemma rounds_catch_up:
  assumes "leading p gl" "map_of (progress (sm gl)) peer = Some pr" "tracks gl pr g" "follows gl g"
  shows "\<exists>k gl' g'. 0 < k \<and> k \<le> unat (next_index pr) + length (entries (storage gl)) \<and>
    replication_rounds p peer k (gl, g) = Some (gl', g') \<and> caught_up p peer gl gl' g'"
  using assms
proof (induction "unat (next_index pr)" arbitrary: gl g pr rule: less_induct)
  case less
  have pos: "0 < unat (next_index pr)" using less.prems(3) by (simp add: tracks_def word_less_nat_alt)
  show ?case
  proof (cases "consistent (mem_alog (storage g)) (append_request_for (mem_alog (storage gl)) gl (next_index pr) 0)")
    case True
    obtain k gl' g' where "0 < k" "k \<le> max 1 (length (entries (storage gl)) + 1 - unat (next_index pr))"
        "replication_rounds p peer k (gl, g) = Some (gl', g')" "caught_up p peer gl gl' g'"
      using accepted_rounds [OF less.prems True] by blast
    then show ?thesis using pos by (intro exI [of _ k] exI [of _ gl'] exI [of _ g']) auto
  next
    case False
    obtain gl1 g1 pr1 where r: "replication_round p peer (gl, g) = Some (gl1, g1)" "leading p gl1"
        "still_leads gl gl1" "mem_alog (storage g1) = mem_alog (storage g)" "follows gl1 g1"
        "progress (sm gl1) = AList.update peer pr1 (progress (sm gl))" "match_index pr1 = match_index pr"
        "0 < next_index pr1" "next_index pr1 < next_index pr"
      using round_rejected [OF less.prems] False consistent_request by metis
    have "match_index pr = 0"
      using False tracked_consistent [OF less.prems(1,3,4)] less.prems(3) by (auto simp: tracks_def)
    then have "tracks gl1 pr1 g1"
      using r(7-9) less.prems(3) still_leads_entries [OF r(3)] by (auto simp: tracks_def word_less_nat_alt)
    then obtain k gl' g' where "0 < k" "k \<le> unat (next_index pr1) + length (entries (storage gl1))"
        "replication_rounds p peer k (gl1, g1) = Some (gl', g')" "caught_up p peer gl1 gl' g'"
      using less.hyps [of pr1 gl1 g1] r(2,5,6,9) by (auto simp: update_conv' word_less_nat_alt)
    then show ?thesis
      using r(1,9) still_leads_entries [OF r(3)] caught_up_after [OF r(3,6) less.prems(2)]
      by (intro exI [of _ "Suc k"] exI [of _ gl'] exI [of _ g']) (auto simp: word_less_nat_alt)
  qed
qed

subsection \<open>Serving a quorum\<close>

text \<open>The leader serves one follower after the other, each for a number of rounds.\<close>

fun serve_followers ::
  "profile \<Rightarrow> (NodeId \<times> nat) list \<Rightarrow> MemStorageInner RaftNodeInner \<Rightarrow>
   (NodeId \<Rightarrow> MemStorageInner RaftNodeInner) \<Rightarrow>
   (MemStorageInner RaftNodeInner \<times> (NodeId \<Rightarrow> MemStorageInner RaftNodeInner)) option" where
  "serve_followers p [] gl gs = Some (gl, gs)"
| "serve_followers p ((peer, k) # ks) gl gs = do {
     (gl', g') \<leftarrow> replication_rounds p peer k (gl, gs peer);
     serve_followers p ks gl' (gs(peer := g'))
   }"

definition served_by :: "MemStorageInner RaftNodeInner \<Rightarrow> (NodeId \<Rightarrow> MemStorageInner RaftNodeInner) \<Rightarrow> NodeId \<Rightarrow> bool" where
  "served_by gl gs x \<longleftrightarrow> follows gl (gs x) \<and>
     (\<exists>pr. map_of (progress (sm gl)) x = Some pr \<and> tracks gl pr (gs x))"

lemma served_by_still:
  assumes "served_by gl gs x" "x \<noteq> peer" "caught_up p peer gl gl' g'"
  shows "served_by gl' (gs(peer := g')) x"
  using assms still_leads_entries [of gl gl']
  by (auto simp: served_by_def caught_up_def follows_def tracks_def still_leads_def)

lemma serve_all:
  assumes "leading p gl" "distinct ps" "\<forall>x \<in> set ps. served_by gl gs x"
  shows "\<exists>ks gl' gs'. map fst ks = ps \<and> serve_followers p ks gl gs = Some (gl', gs') \<and> leading p gl' \<and>
    still_leads gl gl' \<and> (ps \<noteq> [] \<longrightarrow> up_to_date_commit p gl') \<and>
    map fst (progress (sm gl')) = map fst (progress (sm gl)) \<and>
    (\<forall>x. x \<notin> set ps \<longrightarrow> map_of (progress (sm gl')) x = map_of (progress (sm gl)) x \<and> gs' x = gs x) \<and>
    (\<forall>x \<in> set ps. prefix (entries (storage gl)) (entries (storage (gs' x))) \<and>
      (\<exists>pr'. map_of (progress (sm gl')) x = Some pr' \<and> unat (match_index pr') = length (entries (storage gl))))"
  using assms
proof (induction ps arbitrary: gl gs)
  case Nil
  then show ?case by (auto simp: still_leads_refl)
next
  case (Cons y ps)
  obtain pr where "follows gl (gs y)" "map_of (progress (sm gl)) y = Some pr" "tracks gl pr (gs y)"
    using Cons.prems(3) by (auto simp: served_by_def)
  then obtain k gl1 g1 where r: "replication_rounds p y k (gl, gs y) = Some (gl1, g1)" "caught_up p y gl gl1 g1"
    using rounds_catch_up [OF Cons.prems(1)] by blast
  have "\<forall>x \<in> set ps. served_by gl1 (gs(y := g1)) x"
    using Cons.prems(2,3) r(2) by (auto intro: served_by_still)
  moreover have "leading p gl1" "distinct ps" using r(2) Cons.prems(2) by (simp_all add: caught_up_def)
  ultimately obtain ks gl' gs' where k: "map fst ks = ps" "serve_followers p ks gl1 (gs(y := g1)) = Some (gl', gs')"
      "leading p gl'" "still_leads gl1 gl'" "ps \<noteq> [] \<longrightarrow> up_to_date_commit p gl'"
      "map fst (progress (sm gl')) = map fst (progress (sm gl1))"
      "\<forall>x. x \<notin> set ps \<longrightarrow> map_of (progress (sm gl')) x = map_of (progress (sm gl1)) x \<and> gs' x = (gs(y := g1)) x"
      "\<forall>x \<in> set ps. prefix (entries (storage gl1)) (entries (storage (gs' x))) \<and>
        (\<exists>pr'. map_of (progress (sm gl')) x = Some pr' \<and> unat (match_index pr') = length (entries (storage gl1)))"
    using Cons.IH [of gl1 "gs(y := g1)"] by metis
  have same: "entries (storage gl1) = entries (storage gl)"
    using r(2) by (simp add: caught_up_def still_leads_entries)
  have "up_to_date_commit p gl'"
  proof (cases "ps = []")
    case True
    then have "gl' = gl1" using k(1,2) by simp
    then show ?thesis using r(2) by (simp add: caught_up_def)
  qed (use k(5) in simp)
  moreover have "still_leads gl gl'"
    using r(2) k(4) by (auto simp: caught_up_def intro: still_leads_trans)
  ultimately show ?case
    using r k same Cons.prems(2)
    by (intro exI [of _ "(y, k) # ks"] exI [of _ gl'] exI [of _ gs']) (auto simp: caught_up_def)
qed

text \<open>The peers that were served, and the leader, hold the last entry.\<close>

lemma served_quorum:
  assumes "progress_ok cfg pr" "cfg_id cfg \<notin> set (peers cfg)" "distinct ps"
    and "\<forall>x \<in> set ps. \<exists>q. map_of pr x = Some q \<and> n \<le> match_index q"
  shows "length ps + 1 \<le> replicated pr n"
proof -
  have "x \<in> set (peers cfg)" if "x \<in> set ps" for x
    using that assms(1,4) map_of_SomeD [of pr x] unfolding progress_ok_def by (metis fst_conv image_eqI)
  then have own: "cfg_id cfg \<notin> set ps" using assms(2) by blast
  have "insert (cfg_id cfg) (set ps) \<subseteq> holders cfg pr n" using assms(4) by (auto simp: holders_def)
  moreover have "finite (holders cfg pr n)"
    using replicated_card(2) [OF assms(1,2)] finite_members finite_subset by metis
  ultimately have "card (insert (cfg_id cfg) (set ps)) \<le> card (holders cfg pr n)" by (rule card_mono [rotated])
  then show ?thesis
    using own assms(3) replicated_card(1) [OF assms(1,2), of n] by (simp add: distinct_card)
qed

subsection \<open>Properties\<close>

text \<open>A leader of term 1 with one entry, for which a caller waits, and a follower without entries.\<close>

definition waiting_leader :: "MemStorageInner RaftNodeInner" where
  "waiting_leader = (node_new (default_config\<lparr>cfg_id := 1, peers := [2, 3]\<rparr>)
     (mem_new\<lparr>entries := [\<lparr>le_term = 1, le_index = 1, le_data = [42], le_type = Normal\<rparr>]\<rparr>))\<lparr>
     sm := sm_new\<lparr>current_term := 1, role := Leader, progress := [(2, progress_new 2), (3, progress_new 2)]\<rparr>,
     pending := [(1, 7)]\<rparr>"

definition empty_follower :: "MemStorageInner RaftNodeInner" where
  "empty_follower = node_new (default_config\<lparr>cfg_id := 2, peers := [1, 3]\<rparr>) mem_new"

lemma waiting_leader_facts:
  "leading Debug waiting_leader" "map_of (progress (sm waiting_leader)) 2 = Some (progress_new 2)"
  "tracks waiting_leader (progress_new 2) empty_follower" "follows waiting_leader empty_follower"
proof -
  have "mem_ok (storage waiting_leader)"
    by (simp add: waiting_leader_def node_new_def mem_ok_def alog_ok_def contiguous_def mem_alog_def mem_new_def)
  moreover have "u64_mul Debug (max_append_entries (config waiting_leader)) 4096 = Some 524288" by code_simp
  ultimately show "leading Debug waiting_leader"
    by (simp add: leading_def) (simp add: waiting_leader_def node_new_def sm_new_def mem_alog_def mem_new_def)
  show "map_of (progress (sm waiting_leader)) 2 = Some (progress_new 2)"
    by (simp add: waiting_leader_def)
  show "tracks waiting_leader (progress_new 2) empty_follower"
    by (simp add: tracks_def waiting_leader_def node_new_def progress_new_def)
  show "follows waiting_leader empty_follower"
    by (simp add: follows_def empty_follower_def waiting_leader_def node_new_def sm_new_def mem_ok_def alog_ok_def
        contiguous_def mem_alog_def mem_new_def log_matching_def entry_at_def alog_last_def)
qed

text \<open>C17 (termination): catching up ends. A leader serves a follower in rounds: it sends the request
  for the next index it keeps, the follower answers, the event loop handles the answer. After at
  most the next index plus the length of the log many rounds the follower's log begins with the
  leader's and the leader knows it; the leader's log, term and role stay. The two logs match where
  they have an entry of the same term at the same index, both are without snapshots, the follower
  has no newer term, and each response is the one to the request just sent.\<close>

theorem follower_catches_up:
  assumes "leading p gl" "map_of (progress (sm gl)) peer = Some pr" "tracks gl pr g" "follows gl g"
  shows "\<exists>k \<le> unat (next_index pr) + length (entries (storage gl)). \<exists>gl' g' pr'.
    replication_rounds p peer k (gl, g) = Some (gl', g') \<and> role (sm gl') = Leader \<and>
    current_term (sm gl') = current_term (sm gl) \<and> entries (storage gl') = entries (storage gl) \<and>
    prefix (entries (storage gl)) (entries (storage g')) \<and>
    map_of (progress (sm gl')) peer = Some pr' \<and> unat (match_index pr') = length (entries (storage gl))"
proof -
  obtain k gl' g' where k: "k \<le> unat (next_index pr) + length (entries (storage gl))"
      "replication_rounds p peer k (gl, g) = Some (gl', g')" "caught_up p peer gl gl' g'"
    using rounds_catch_up [OF assms] by blast
  then show ?thesis
    using still_leads_entries [of gl gl']
    by (intro exI [of _ k] exI [of _ gl'] exI [of _ g']) (auto simp: caught_up_def leading_def still_leads_def)
qed

theorem follower_catches_up_witness:
  "\<exists>k gl' g'. replication_rounds Debug 2 k (waiting_leader, empty_follower) = Some (gl', g') \<and> k \<le> 3 \<and>
    entries (storage g') \<noteq> []"
proof -
  have "unat (next_index (progress_new 2)) = 2" "length (entries (storage waiting_leader)) = 1"
    by (simp_all add: progress_new_def waiting_leader_def node_new_def)
  moreover have "entries (storage waiting_leader) \<noteq> []" by (simp add: waiting_leader_def node_new_def)
  ultimately show ?thesis
    using follower_catches_up [OF waiting_leader_facts] by (fastforce simp: prefix_def)
qed

end
