(* ===== verification/Node_Profiles.thy ===== *)
theory Node_Profiles
  imports Raft_Loop Mem_Storage
begin

text \<open>
  The dev and the release build of a node. Overflow checks are the only difference, so where
  the dev build does not panic the two return the same. This goes through every operation of
  the node by its definition; the interface is \<open>storage_agreement\<close>, a pair of storage
  dictionaries that agree, which the in-memory backend provides.
\<close>

lemma agrees_case_error [agreement]:
  assumes "\<And>w. agrees (a1 w) (b1 w)" "\<And>w. agrees (a2 w) (b2 w)" "\<And>w. agrees (a3 w) (b3 w)"
    "\<And>w. agrees (a4 w) (b4 w)" "agrees a5 b5" "\<And>v w. agrees (a6 v w) (b6 v w)"
    "\<And>w. agrees (a7 w) (b7 w)" "\<And>w. agrees (a8 w) (b8 w)" "agrees a9 b9" "agrees a10 b10"
    "\<And>w. agrees (a11 w) (b11 w)"
  shows "agrees (case_RaftError a1 a2 a3 a4 a5 a6 a7 a8 a9 a10 a11 e)
    (case_RaftError b1 b2 b3 b4 b5 b6 b7 b8 b9 b10 b11 e)"
  using assms by (cases e) auto

text \<open>Two dictionaries of one backend, as the two builds see them.\<close>

locale storage_agreement =
  fixes D R :: "'s Storage"
  assumes save_agrees [agreement]: "agrees (save_hard_state D s h) (save_hard_state R s h)"
    and load_agrees [agreement]: "agrees (load_hard_state D s) (load_hard_state R s)"
    and first_agrees [agreement]: "agrees (first_index D s) (first_index R s)"
    and last_agrees [agreement]: "agrees (last_index D s) (last_index R s)"
    and term_agrees [agreement]: "agrees (log_term D s i) (log_term R s i)"
    and entries_agrees [agreement]: "agrees (log_entries D s lo hi mx) (log_entries R s lo hi mx)"
    and append_agrees [agreement]: "agrees (append_entries D s es) (append_entries R s es)"
    and snapshot_agrees [agreement]: "agrees (get_snapshot D s) (get_snapshot R s)"
    and install_agrees [agreement]: "agrees (apply_snapshot D s sn) (apply_snapshot R s sn)"
begin

lemma helpers_agree [agreement]:
  "agrees (node_save_hard_state D g) (node_save_hard_state R g)"
  "agrees (last_index_or_0 D s) (last_index_or_0 R s)"
  "agrees (term_or_0 D s i) (term_or_0 R s i)"
  unfolding node_save_hard_state_def last_index_or_0_def term_or_0_def by (intro agreement)+

lemma first_index_loop_agrees [agreement]:
  "agrees (first_index_loop Debug D s t lo hi) (first_index_loop Release R s t lo hi)"
proof (induction "unat hi - unat lo" arbitrary: lo hi rule: less_induct)
  case less
  show ?case
  proof (cases "lo < hi")
    case True
    have step: "agrees (first_index_loop Debug D s t lo' hi) (first_index_loop Release R s t lo' hi)"
        "agrees (first_index_loop Debug D s t lo mid) (first_index_loop Release R s t lo mid)"
      if "u64_sub Debug hi lo = Some d" "u64_add Debug lo (d div 2) = Some mid"
        "u64_add Debug mid 1 = Some lo' \<or> lo' = hi" for d mid lo'
      using first_index_decreases [OF True that(1,2)] that(3) less True
      by (auto simp: word_less_nat_alt)
    show ?thesis
      using True
      by (subst (1 2) first_index_loop.simps) (auto intro!: agreement step)
  next
    case False
    then show ?thesis
      by (subst (1 2) first_index_loop.simps) (simp add: agrees_def)
  qed
qed

lemma replication_agrees [agreement]:
  "agrees (spawn_append Debug g peer i t es) (spawn_append Release g peer i t es)"
  "agrees (send_snapshot_to D g peer) (send_snapshot_to R g peer)"
  unfolding spawn_append_def send_snapshot_to_def by (intro agreement)+

lemma replicate_to_agrees [agreement]:
  "agrees (replicate_to Debug D g peer) (replicate_to Release R g peer)"
  unfolding replicate_to_def by (intro agreement)

lemma replicate_peers_agrees [agreement]:
  "agrees (replicate_peers Debug D ps g) (replicate_peers Release R ps g)"
  by (induction ps arbitrary: g) (auto intro!: agreement)

lemma replicate_all_agrees [agreement]:
  "agrees (replicate_all Debug D g) (replicate_all Release R g)"
  unfolding replicate_all_def by (intro agreement)

lemma handlers_agree [agreement]:
  "agrees (observe_term D t l g) (observe_term R t l g)"
  "agrees (first_index_of_term Debug D s t i) (first_index_of_term Release R s t i)"
  "agrees (accept_entries D g areq) (accept_entries R g areq)"
  "agrees (finish_snapshot D g meta buf i) (finish_snapshot R g meta buf i)"
  unfolding observe_term_def first_index_of_term_def accept_entries_def finish_snapshot_def
  by (intro agreement)+

lemma rpc_agrees [agreement]:
  "agrees (check_prev Debug D g areq) (check_prev Release R g areq)"
  "agrees (on_request_vote D g vreq) (on_request_vote R g vreq)"
  "agrees (on_install_snapshot D g sreq) (on_install_snapshot R g sreq)"
  unfolding check_prev_def on_request_vote_def on_install_snapshot_def by (intro agreement)+

lemma on_append_entries_agrees [agreement]:
  "agrees (on_append_entries Debug D g areq) (on_append_entries Release R g areq)"
  unfolding on_append_entries_def by (intro agreement)

lemma insert_progress_agrees [agreement]:
  "agrees (insert_progress Debug l ps acc) (insert_progress Release l ps acc)"
  by (induction ps arbitrary: acc) (auto intro!: agreement)

lemma become_agrees [agreement]:
  "agrees (become_leader Debug i l ps s) (become_leader Release i l ps s)"
  "agrees (become_candidate Debug i s) (become_candidate Release i s)"
  unfolding become_leader_def become_candidate_def by (intro agreement)+

lemma win_election_agrees [agreement]: "agrees (win_election Debug D g) (win_election Release R g)"
  unfolding win_election_def by (intro agreement)

lemma elections_agree [agreement]:
  "agrees (start_election Debug D g) (start_election Release R g)"
  "agrees (handle_vote_response Debug D g peer vresp) (handle_vote_response Release R g peer vresp)"
  unfolding start_election_def handle_vote_response_def by (intro agreement)+

lemma commit_scan_agrees [agreement]:
  "agrees (commit_scan D s pr q t c n) (commit_scan R s pr q t c n)"
proof (induction "unat n" arbitrary: n rule: less_induct)
  case less
  show ?case
  proof (cases "c < n")
    case True
    then have "agrees (commit_scan D s pr q t c (n - 1)) (commit_scan R s pr q t c (n - 1))"
      by (intro less u64_pred_less)
    then show ?thesis
      by (subst (1 2) commit_scan_unfold) (auto intro!: agreement)
  next
    case False
    then show ?thesis
      by (subst (1 2) commit_scan_unfold) (simp add: agrees_def)
  qed
qed

lemma commit_agrees [agreement]:
  "agrees (maybe_advance_commit Debug D g) (maybe_advance_commit Release R g)"
  "agrees (apply_committed Debug D g) (apply_committed Release R g)"
  "agrees (on_proposal Debug D g pr) (on_proposal Release R g pr)"
  unfolding maybe_advance_commit_def apply_committed_def on_proposal_def by (intro agreement)+

lemma progress_agrees [agreement]:
  "agrees (progress_on_success Debug i pr) (progress_on_success Release i pr)"
  unfolding progress_on_success_def by (intro agreement)

lemma progress_on_append_agrees [agreement]:
  "agrees (progress_on_append Debug i aresp pr) (progress_on_append Release i aresp pr)"
  unfolding progress_on_append_def by (intro agreement)

lemma with_progress_agrees [agreement]:
  "(\<And>pr. agrees (f pr) (f' pr)) \<Longrightarrow> agrees (with_progress peer f g) (with_progress peer f' g)"
  unfolding with_progress_def by (intro agreement)

lemma responses_agree [agreement]:
  "agrees (handle_append_response Debug D g peer i aresp) (handle_append_response Release R g peer i aresp)"
  "agrees (handle_snapshot_response Debug D g peer i sresp) (handle_snapshot_response Release R g peer i sresp)"
  unfolding handle_append_response_def handle_snapshot_response_def by (intro agreement)+

lemma handle_message_agrees: "agrees (handle_message Debug D g m) (handle_message Release R g m)"
  by (cases m) (auto intro!: agreement)

lemma on_timeout_agrees:
  "agrees (on_timeout Debug D now now' j n) (on_timeout Release R now now' j n)"
  unfolding on_timeout_def by (intro agreement)

end

interpretation mem_profiles: storage_agreement "mem_storage Debug" "mem_storage Release"
  by unfold_locales (simp_all add: agreement)

text \<open>Release builds follow dev builds. For every node state, every message of
  the event loop, every RPC request and every timeout, either the dev build panics or the
  release build does the same and answers the same.\<close>

theorem release_follows_dev:
  "agrees (handle_message Debug (mem_storage Debug) g m) (handle_message Release (mem_storage Release) g m) \<and>
   agrees (on_append_entries Debug (mem_storage Debug) g areq)
     (on_append_entries Release (mem_storage Release) g areq) \<and>
   agrees (on_request_vote (mem_storage Debug) g vreq) (on_request_vote (mem_storage Release) g vreq) \<and>
   agrees (on_install_snapshot (mem_storage Debug) g sreq) (on_install_snapshot (mem_storage Release) g sreq) \<and>
   agrees (on_timeout Debug (mem_storage Debug) now now' j n)
     (on_timeout Release (mem_storage Release) now now' j n)"
  by (intro conjI mem_profiles.handle_message_agrees mem_profiles.on_append_entries_agrees
      mem_profiles.rpc_agrees mem_profiles.on_timeout_agrees)

end
