(* ===== verification/Raft_Transport.thy ===== *)
theory Raft_Transport
  imports Raft_Cluster
begin

text \<open>
  The network layer behind the traits and the client: the gRPC server and client pool
  (\<^verbatim>\<open>server.rs\<close> and \<^verbatim>\<open>client.rs\<close> of
  \<^verbatim>\<open>src/iceraft-network/src\<close>) and the cluster client
  (\<^verbatim>\<open>src/iceraft-client/src/lib.rs\<close>). What the \<^verbatim>\<open>tonic\<close> crate
  provides is an argument: how an address becomes a channel, what a stub call on a channel does, and
  how a status is made and printed.
\<close>

subsection \<open>Error messages\<close>

text \<open>\<^verbatim>\<open>Display\<close> of \<^verbatim>\<open>u64\<close> and of \<^verbatim>\<open>RaftError\<close>.\<close>

fun show_nat :: "nat \<Rightarrow> string" where
  "show_nat n = (if n < 10 then [char_of (48 + n)]
     else show_nat (n div 10) @ [char_of (48 + n mod 10)])"

declare show_nat.simps [simp del]

definition show_u64 :: "u64 \<Rightarrow> string" where
  "show_u64 a = show_nat (unat a)"

fun error_to_string :: "RaftError \<Rightarrow> string" where
  "error_to_string (InvalidConfig s) = ''invalid configuration: '' @ s"
| "error_to_string (NotLeader l) = ''not the leader; current leader is node '' @
     (case l of None \<Rightarrow> ''None'' | Some n \<Rightarrow> ''Some('' @ show_u64 n @ '')'')"
| "error_to_string (StorageError s) = ''storage error: '' @ s"
| "error_to_string (NetworkError s) = ''network error: '' @ s"
| "error_to_string Shutdown = ''node is shutting down''"
| "error_to_string (LogCompacted r f) = ''log compacted: requested index '' @ show_u64 r @
     '' has been compacted (first available: '' @ show_u64 f @ '')''"
| "error_to_string (LogUnavailable i) = ''log unavailable: index '' @ show_u64 i @
     '' is beyond the last log index''"
| "error_to_string (SnapshotError s) = ''snapshot error: '' @ s"
| "error_to_string ChannelClosed = ''channel closed''"
| "error_to_string Timeout = ''timed out''"
| "error_to_string (Other s) = ''unknown error: '' @ s"

subsection \<open>The gRPC server\<close>

text \<open>\<open>internal\<close> is \<^verbatim>\<open>Status::internal\<close>; the request and response wrappers of tonic
  carry their message and nothing the code looks at.\<close>

definition serve ::
  "(string \<Rightarrow> 'st) \<Rightarrow> ('h \<Rightarrow> 'q \<Rightarrow> ('h \<times> 'r result) option) \<Rightarrow> 'h \<Rightarrow> 'q \<Rightarrow> ('h \<times> ('st + 'r)) option" where
  "serve internal handle h req = do {
     (h', r) \<leftarrow> handle h req;
     ret (h', case r of Inr resp \<Rightarrow> Inr resp | Inl e \<Rightarrow> Inl (internal (error_to_string e)))
   }"

record ('h, 'st) RaftService =
  svc_append_entries :: "'h \<Rightarrow> AppendEntriesRequest \<Rightarrow> ('h \<times> ('st + AppendEntriesResponse)) option"
  svc_request_vote :: "'h \<Rightarrow> RequestVoteRequest \<Rightarrow> ('h \<times> ('st + RequestVoteResponse)) option"
  svc_install_snapshot :: "'h \<Rightarrow> InstallSnapshotRequest \<Rightarrow> ('h \<times> ('st + InstallSnapshotResponse)) option"

definition grpc_server :: "(string \<Rightarrow> 'st) \<Rightarrow> 'h RaftMessageHandler \<Rightarrow> ('h, 'st) RaftService" where
  "grpc_server internal H = \<lparr>
     svc_append_entries = serve internal (handle_append_entries H),
     svc_request_vote = serve internal (handle_request_vote H),
     svc_install_snapshot = serve internal (handle_install_snapshot H)\<rparr>"

subsection \<open>The gRPC client pool\<close>

record PeerInfo =
  pi_id :: NodeId
  pi_addr :: string

record 'ch RaftGrpcClient =
  channels :: "(NodeId \<times> 'ch) list"

text \<open>\<open>from_shared\<close> is \<^verbatim>\<open>Channel::from_shared\<close> followed by
  \<^verbatim>\<open>connect_lazy\<close>; its error is the printed one.\<close>

fun grpc_connect ::
  "(string \<Rightarrow> string + 'ch) \<Rightarrow> PeerInfo list \<Rightarrow> (NodeId \<times> 'ch) list \<Rightarrow> 'ch RaftGrpcClient result" where
  "grpc_connect from_shared [] chs = Inr \<lparr>channels = chs\<rparr>"
| "grpc_connect from_shared (peer # ps) chs =
     (case from_shared (pi_addr peer) of
        Inl e \<Rightarrow> Inl (NetworkError e)
      | Inr ch \<Rightarrow> grpc_connect from_shared ps (AList.update (pi_id peer) ch chs))"

definition grpc_new :: "(string \<Rightarrow> string + 'ch) \<Rightarrow> PeerInfo list \<Rightarrow> 'ch RaftGrpcClient result" where
  "grpc_new from_shared ps = grpc_connect from_shared ps []"

definition grpc_client :: "'ch RaftGrpcClient \<Rightarrow> NodeId \<Rightarrow> 'ch result" where
  "grpc_client c target =
     (case map_of (channels c) target of
        None \<Rightarrow> Inl (NetworkError (''no channel registered for node '' @ show_u64 target))
      | Some ch \<Rightarrow> Inr ch)"

text \<open>A call through the pool: \<open>stub\<close> is the generated client's method on a channel,
  \<open>show_status\<close> prints the status it may fail with.\<close>

definition grpc_call ::
  "('st \<Rightarrow> string) \<Rightarrow> ('w \<Rightarrow> 'ch \<Rightarrow> 'q \<Rightarrow> ('w \<times> ('st + 'r)) option) \<Rightarrow> 'ch RaftGrpcClient \<Rightarrow>
   'w \<Rightarrow> NodeId \<Rightarrow> 'q \<Rightarrow> ('w \<times> 'r result) option" where
  "grpc_call show_status stub c w target req =
     (case grpc_client c target of
        Inl e \<Rightarrow> ret (w, Inl e)
      | Inr ch \<Rightarrow> do {
          (w', r) \<leftarrow> stub w ch req;
          ret (w', case r of Inr resp \<Rightarrow> Inr resp | Inl st \<Rightarrow> Inl (NetworkError (show_status st)))
        })"

record ('w, 'ch, 'st) Stubs =
  stub_append_entries ::
    "'w \<Rightarrow> 'ch \<Rightarrow> AppendEntriesRequest \<Rightarrow> ('w \<times> ('st + AppendEntriesResponse)) option"
  stub_request_vote ::
    "'w \<Rightarrow> 'ch \<Rightarrow> RequestVoteRequest \<Rightarrow> ('w \<times> ('st + RequestVoteResponse)) option"
  stub_install_snapshot ::
    "'w \<Rightarrow> 'ch \<Rightarrow> InstallSnapshotRequest \<Rightarrow> ('w \<times> ('st + InstallSnapshotResponse)) option"

definition grpc_transport ::
  "('st \<Rightarrow> string) \<Rightarrow> ('w, 'ch, 'st) Stubs \<Rightarrow> 'ch RaftGrpcClient \<Rightarrow> 'w NetworkTransport" where
  "grpc_transport show_status stubs c = \<lparr>
     send_append_entries = grpc_call show_status (stub_append_entries stubs) c,
     send_request_vote = grpc_call show_status (stub_request_vote stubs) c,
     send_install_snapshot = grpc_call show_status (stub_install_snapshot stubs) c\<rparr>"

subsection \<open>The cluster client\<close>

record RaftClusterClient =
  known_leader :: "NodeId option"
  cc_members :: "NodeId list"

definition cluster_client_new :: "NodeId list \<Rightarrow> RaftClusterClient" where
  "cluster_client_new ms = \<lparr>known_leader = None, cc_members = ms\<rparr>"

definition ping_request :: AppendEntriesRequest where
  "ping_request = \<lparr>ae_term = 0, ae_leader_id = 0, prev_log_index = 0, prev_log_term = 0,
     ae_entries = [], leader_commit = 0\<rparr>"

definition ping_leader :: "'w NetworkTransport \<Rightarrow> 'w \<Rightarrow> NodeId \<Rightarrow> ('w \<times> bool) option" where
  "ping_leader T w node = do {
     (w', r) \<leftarrow> send_append_entries T w node ping_request;
     ret (w', case r of Inr _ \<Rightarrow> True | Inl _ \<Rightarrow> False)
   }"

fun find_leader_loop ::
  "'w NetworkTransport \<Rightarrow> NodeId list \<Rightarrow> RaftClusterClient \<Rightarrow> 'w \<Rightarrow>
   ('w \<times> RaftClusterClient \<times> NodeId option) option" where
  "find_leader_loop T [] c w = ret (w, c, None)"
| "find_leader_loop T (m # ms) c w = do {
     (w', up) \<leftarrow> ping_leader T w m;
     if up then ret (w', c\<lparr>known_leader := Some m\<rparr>, Some m)
     else find_leader_loop T ms c w'
   }"

definition find_leader ::
  "'w NetworkTransport \<Rightarrow> RaftClusterClient \<Rightarrow> 'w \<Rightarrow>
   ('w \<times> RaftClusterClient \<times> NodeId option) option" where
  "find_leader T c w = find_leader_loop T (cc_members c) c w"

subsection \<open>Calls through the transports\<close>

lemma grpc_transport_simps [simp]:
  "send_append_entries (grpc_transport sh st c) = grpc_call sh (stub_append_entries st) c"
  "send_request_vote (grpc_transport sh st c) = grpc_call sh (stub_request_vote st) c"
  "send_install_snapshot (grpc_transport sh st c) = grpc_call sh (stub_install_snapshot st) c"
  by (simp_all add: grpc_transport_def)

text \<open>The connected client pool: the channel of the last peer listed under an identifier.\<close>

definition listed_addr :: "PeerInfo list \<Rightarrow> NodeId \<Rightarrow> string option" where
  "listed_addr ps t = map_of (rev (map (\<lambda>q. (pi_id q, pi_addr q)) ps)) t"

lemma grpc_connect_fails:
  "grpc_connect from_shared ps chs = Inl e \<Longrightarrow>
   \<exists>q \<in> set ps. \<exists>why. from_shared (pi_addr q) = Inl why \<and> e = NetworkError why"
  by (induction ps arbitrary: chs) (auto split: sum.splits)

lemma grpc_connect_channels:
  assumes "grpc_connect from_shared ps chs = Inr c"
  shows "map_of (channels c) t =
    (case listed_addr ps t of None \<Rightarrow> map_of chs t
     | Some a \<Rightarrow> (case from_shared a of Inr ch \<Rightarrow> Some ch | Inl _ \<Rightarrow> None))"
  using assms
proof (induction ps arbitrary: chs)
  case Nil
  then show ?case by (auto simp: listed_addr_def)
next
  case (Cons q ps)
  then obtain ch where "from_shared (pi_addr q) = Inr ch"
      "grpc_connect from_shared ps (AList.update (pi_id q) ch chs) = Inr c"
    by (auto split: sum.splits)
  then show ?case
    using Cons.IH
    by (auto simp: listed_addr_def update_conv' map_add_def split: option.split)
qed

text \<open>What a unary call of tonic does, seen from both ends: it reaches the service of the node at the
  other end of the channel and returns what that returns, or fails with a status.\<close>

definition served ::
  "('ch \<Rightarrow> NodeId) \<Rightarrow> 'st \<Rightarrow> ('h \<Rightarrow> 'q \<Rightarrow> ('h \<times> ('st + 'r)) option) \<Rightarrow>
   'h peers_map \<Rightarrow> 'ch \<Rightarrow> 'q \<Rightarrow> ('h peers_map \<times> ('st + 'r)) option" where
  "served host unavailable svc w ch req =
     (case w (host ch) of
        None \<Rightarrow> Some (w, Inl unavailable)
      | Some h \<Rightarrow> svc h req \<bind> (\<lambda>(h', r). Some (w(host ch \<mapsto> h'), r)))"

lemma grpc_call_served:
  assumes "stub w ch req = served host unavailable (serve internal handle) w ch req"
    and "grpc_client c target = Inr ch" "host ch = target"
  shows "grpc_call sh stub c w target req \<bind>
      (\<lambda>(w', r). Some (w', case r of Inr v \<Rightarrow> Some (K v) | Inl _ \<Rightarrow> None)) =
    call_peer handle w target req \<bind>
      (\<lambda>(w', r). Some (w', case r of Inr v \<Rightarrow> Some (K v) | Inl _ \<Rightarrow> None))"
proof (cases "w target")
  case None
  then show ?thesis
    using assms by (simp add: grpc_call_def call_peer_def served_def)
next
  case (Some h)
  then show ?thesis
    using assms
    by (cases "handle h req")
      (auto simp: grpc_call_def call_peer_def served_def serve_def split: prod.splits sum.splits)
qed

lemma ping_outcome:
  "\<exists>r. on_append_entries p S g ping_request = Some
     (if current_term (sm g) = 0
      then metrics_update (\<lambda>m. m\<lparr>append_entries_received := append_entries_received m + 1\<rparr>)
        (sm_update (\<lambda>s. s\<lparr>leader_id := Some 0\<rparr>) g)
      else g, Inr r)"
  by (auto simp: on_append_entries_def ping_request_def observe_term_def check_prev_def
      accept_entries_def Let_def word_gt_0)

lemma ping_loopback:
  "\<exists>w'. ping_leader (loopback (node_handler p S)) w m = Some (w', w m \<noteq> None) \<and>
     (w m = None \<longrightarrow> w' = w) \<and>
     (\<forall>g. w m = Some g \<longrightarrow> (\<exists>g'. w' = w(m \<mapsto> g') \<and> role (sm g') = role (sm g) \<and>
        current_term (sm g') = current_term (sm g) \<and> storage g' = storage g \<and>
        leader_id (sm g') = (if current_term (sm g) = 0 then Some 0 else leader_id (sm g))))"
proof (cases "w m")
  case None
  then show ?thesis by (simp add: ping_leader_def call_peer_def)
next
  case (Some g)
  obtain r where "on_append_entries p S g ping_request = Some
     (if current_term (sm g) = 0
      then metrics_update (\<lambda>m. m\<lparr>append_entries_received := append_entries_received m + 1\<rparr>)
        (sm_update (\<lambda>s. s\<lparr>leader_id := Some 0\<rparr>) g)
      else g, Inr r)"
    using ping_outcome by blast
  then show ?thesis
    using Some by (auto simp: ping_leader_def call_peer_def)
qed

subsection \<open>Properties\<close>

text \<open>The client pool. \<^verbatim>\<open>RaftGrpcClient::new\<close> fails only with the error of a
  peer whose address is refused; otherwise a target is routed to the channel of the address
  listed last for it, and a target that is not listed is a \<^verbatim>\<open>Network\<close> error.\<close>

theorem grpc_pool_routes:
  "case grpc_new from_shared ps of
     Inl e \<Rightarrow> (\<exists>q \<in> set ps. \<exists>why. from_shared (pi_addr q) = Inl why \<and> e = NetworkError why)
   | Inr c \<Rightarrow> grpc_client c target =
       (case listed_addr ps target of
          None \<Rightarrow> Inl (NetworkError (''no channel registered for node '' @ show_u64 target))
        | Some a \<Rightarrow> (case from_shared a of Inr ch \<Rightarrow> Inr ch
            | Inl _ \<Rightarrow> Inl (NetworkError (''no channel registered for node '' @ show_u64 target))))"
proof (cases "grpc_new from_shared ps")
  case (Inl e)
  then show ?thesis
    using grpc_connect_fails [of from_shared ps "[]" e] by (simp add: grpc_new_def)
next
  case (Inr c)
  then show ?thesis
    using grpc_connect_channels [of from_shared ps "[]" c target]
    by (auto simp: grpc_new_def grpc_client_def split: option.split sum.split)
qed

text \<open>A task over gRPC behaves like the same task over the loopback transport, if
  the stub of the channel for its target reaches that target's server. An error of the handler
  crosses the wire as a status and becomes a network error, which the task drops as it drops
  any error.\<close>

theorem grpc_task_equals_loopback:
  assumes "\<And>w ch q. stub_append_entries stubs w ch q =
      served host unavailable (svc_append_entries (grpc_server internal H)) w ch q"
    and "\<And>w ch q. stub_request_vote stubs w ch q =
      served host unavailable (svc_request_vote (grpc_server internal H)) w ch q"
    and "\<And>w ch q. stub_install_snapshot stubs w ch q =
      served host unavailable (svc_install_snapshot (grpc_server internal H)) w ch q"
    and "grpc_client c (task_target t) = Inr ch" "host ch = task_target t"
  shows "run_task (grpc_transport show_status stubs c) w t = run_task (loopback H) w t"
proof (cases t)
  case (VoteTask peer req)
  then show ?thesis
    using assms(2,4,5) by (simp add: grpc_server_def grpc_call_served)
next
  case (AppendTask peer i req)
  then show ?thesis
    using assms(1,4,5) by (simp add: grpc_server_def grpc_call_served)
next
  case (SnapshotTask peer i req)
  then show ?thesis
    using assms(3,4,5) by (simp add: grpc_server_def grpc_call_served)
qed

theorem grpc_task_equals_loopback_witness:
  "let H = node_handler Debug (mem_storage Debug); sv = grpc_server (\<lambda>m. m) H;
     stubs = \<lparr>stub_append_entries = served (\<lambda>n. n) ''unavailable'' (svc_append_entries sv),
       stub_request_vote = served (\<lambda>n. n) ''unavailable'' (svc_request_vote sv),
       stub_install_snapshot = served (\<lambda>n. n) ''unavailable'' (svc_install_snapshot sv)\<rparr>;
     w = [2 \<mapsto> node_new default_config mem_new]
   in run_task (grpc_transport (\<lambda>m. m) stubs \<lparr>channels = [(2, 2)]\<rparr>) w (AppendTask 2 0 ping_request) =
      run_task (loopback H) w (AppendTask 2 0 ping_request)"
  unfolding Let_def
  by (rule grpc_task_equals_loopback [where host = "\<lambda>n. n" and unavailable = "''unavailable''" and
        internal = "\<lambda>m. m" and ch = 2])
    (simp_all add: grpc_client_def)

text \<open>C32 (functional): leader discovery. Over the nodes' own handlers
  \<^verbatim>\<open>find_leader\<close> returns, and remembers, the first member that can be reached, whatever
  its role: every node answers the ping. It changes no node's term, role or storage, but a node
  of term 0 takes the ping for a heartbeat of leader 0.\<close>

theorem find_leader_first_reachable:
  "\<exists>w' c'. find_leader (loopback (node_handler p S)) c w =
      Some (w', c', List.find (\<lambda>m. w m \<noteq> None) (cc_members c)) \<and>
    known_leader c' = (case List.find (\<lambda>m. w m \<noteq> None) (cc_members c) of
      None \<Rightarrow> known_leader c | Some m \<Rightarrow> Some m) \<and>
    (\<forall>m. case w m of None \<Rightarrow> w' m = None
       | Some g \<Rightarrow> (\<exists>g'. w' m = Some g' \<and> role (sm g') = role (sm g) \<and>
           current_term (sm g') = current_term (sm g) \<and> storage g' = storage g \<and>
           leader_id (sm g') \<in> {leader_id (sm g), Some 0}))"
proof -
  have "\<exists>w' c'. find_leader_loop (loopback (node_handler p S)) ms c w =
      Some (w', c', List.find (\<lambda>m. w m \<noteq> None) ms) \<and>
    known_leader c' = (case List.find (\<lambda>m. w m \<noteq> None) ms of
      None \<Rightarrow> known_leader c | Some m \<Rightarrow> Some m) \<and>
    (\<forall>m. case w m of None \<Rightarrow> w' m = None
       | Some g \<Rightarrow> (\<exists>g'. w' m = Some g' \<and> role (sm g') = role (sm g) \<and>
           current_term (sm g') = current_term (sm g) \<and> storage g' = storage g \<and>
           leader_id (sm g') \<in> {leader_id (sm g), Some 0}))" for ms
  proof (induction ms)
    case Nil
    then show ?case by (simp split: option.split)
  next
    case (Cons m ms)
    show ?case
    proof (cases "w m")
      case None
      then show ?thesis
        using Cons ping_loopback [of p S w m] by auto
    next
      case (Some g)
      then show ?thesis
        using ping_loopback [of p S w m] by (auto split: option.split)
    qed
  qed
  then show ?thesis unfolding find_leader_def by blast
qed

end
