(* ===== verification/Raft_Grpc.thy ===== *)
theory Raft_Grpc
  imports Raft_Transport
begin

text \<open>
  The gRPC client and server stubs in \<^verbatim>\<open>src/iceraft-network/src/gen/raft.rs\<close>: what
  \<^verbatim>\<open>RaftServiceClient\<close> sends, and how \<^verbatim>\<open>RaftServiceServer\<close> routes what
  arrives. What the \<^verbatim>\<open>tonic\<close>, \<^verbatim>\<open>http\<close> and \<^verbatim>\<open>prost\<close> crates do
  is an argument: the builder of a client, whether a channel is ready, a unary call at either end,
  how an address becomes a channel. The size limits and compression settings are handed to tonic
  as the code hands them.
\<close>

subsection \<open>The client\<close>

text \<open>tonic's \<^verbatim>\<open>Grpc\<close> builder over a channel.\<close>

record ('t, 'u, 'e, 'g) TonicGrpc =
  tonic_new :: "'t \<Rightarrow> 'g"
  tonic_with_origin :: "'t \<Rightarrow> 'u \<Rightarrow> 'g"
  tonic_send_compressed :: "'g \<Rightarrow> 'e \<Rightarrow> 'g"
  tonic_accept_compressed :: "'g \<Rightarrow> 'e \<Rightarrow> 'g"
  tonic_max_decoding :: "'g \<Rightarrow> nat \<Rightarrow> 'g"
  tonic_max_encoding :: "'g \<Rightarrow> nat \<Rightarrow> 'g"

record 'g RaftServiceClient =
  rsc_inner :: 'g

definition rsc_new :: "('t, 'u, 'e, 'g) TonicGrpc \<Rightarrow> 't \<Rightarrow> 'g RaftServiceClient" where
  "rsc_new G service = \<lparr>rsc_inner = tonic_new G service\<rparr>"

definition rsc_with_origin :: "('t, 'u, 'e, 'g) TonicGrpc \<Rightarrow> 't \<Rightarrow> 'u \<Rightarrow> 'g RaftServiceClient" where
  "rsc_with_origin G service origin = \<lparr>rsc_inner = tonic_with_origin G service origin\<rparr>"

text \<open>\<open>intercepted\<close> is \<^verbatim>\<open>InterceptedService::new\<close>.\<close>

definition rsc_with_interceptor ::
  "('t, 'u, 'e, 'g) TonicGrpc \<Rightarrow> ('s \<Rightarrow> 'f \<Rightarrow> 't) \<Rightarrow> 's \<Rightarrow> 'f \<Rightarrow> 'g RaftServiceClient" where
  "rsc_with_interceptor G intercepted service interceptor = rsc_new G (intercepted service interceptor)"

text \<open>\<open>endpoint\<close> is \<^verbatim>\<open>Endpoint::new\<close>, \<open>connect\<close> its
  \<^verbatim>\<open>connect\<close>; the error of either is returned.\<close>

definition rsc_connect ::
  "('t, 'u, 'e, 'g) TonicGrpc \<Rightarrow> ('d \<Rightarrow> 'x + 'p) \<Rightarrow> ('w \<Rightarrow> 'p \<Rightarrow> 'w \<times> ('x + 't)) \<Rightarrow> 'w \<Rightarrow> 'd \<Rightarrow>
   'w \<times> ('x + 'g RaftServiceClient)" where
  "rsc_connect G endpoint connect w dst =
     (case endpoint dst of
        Inl e \<Rightarrow> (w, Inl e)
      | Inr ep \<Rightarrow> (case connect w ep of
          (w', Inl e) \<Rightarrow> (w', Inl e)
        | (w', Inr conn) \<Rightarrow> (w', Inr (rsc_new G conn))))"

definition rsc_send_compressed ::
  "('t, 'u, 'e, 'g) TonicGrpc \<Rightarrow> 'g RaftServiceClient \<Rightarrow> 'e \<Rightarrow> 'g RaftServiceClient" where
  "rsc_send_compressed G c encoding = c\<lparr>rsc_inner := tonic_send_compressed G (rsc_inner c) encoding\<rparr>"

definition rsc_accept_compressed ::
  "('t, 'u, 'e, 'g) TonicGrpc \<Rightarrow> 'g RaftServiceClient \<Rightarrow> 'e \<Rightarrow> 'g RaftServiceClient" where
  "rsc_accept_compressed G c encoding = c\<lparr>rsc_inner := tonic_accept_compressed G (rsc_inner c) encoding\<rparr>"

definition rsc_max_decoding_message_size ::
  "('t, 'u, 'e, 'g) TonicGrpc \<Rightarrow> 'g RaftServiceClient \<Rightarrow> nat \<Rightarrow> 'g RaftServiceClient" where
  "rsc_max_decoding_message_size G c limit = c\<lparr>rsc_inner := tonic_max_decoding G (rsc_inner c) limit\<rparr>"

definition rsc_max_encoding_message_size ::
  "('t, 'u, 'e, 'g) TonicGrpc \<Rightarrow> 'g RaftServiceClient \<Rightarrow> nat \<Rightarrow> 'g RaftServiceClient" where
  "rsc_max_encoding_message_size G c limit = c\<lparr>rsc_inner := tonic_max_encoding G (rsc_inner c) limit\<rparr>"

text \<open>A method of the client. \<open>ready\<close> waits for the channel and may fail with a printed
  error, \<open>unknown\<close> makes a status with code \<^verbatim>\<open>Unknown\<close>, and \<open>unary\<close> is
  tonic's call of the message with its \<^verbatim>\<open>GrpcMethod\<close> extension to a path.\<close>

record 'q TonicRequest =
  message :: 'q
  grpc_method :: "string \<times> string"

definition unary_stub ::
  "('w \<Rightarrow> 'g \<Rightarrow> ('w \<times> (string + unit)) option) \<Rightarrow> (string \<Rightarrow> 'st) \<Rightarrow>
   ('w \<Rightarrow> 'g \<Rightarrow> 'q TonicRequest \<Rightarrow> string \<Rightarrow> ('w \<times> ('st + 'r)) option) \<Rightarrow> string \<Rightarrow> string \<Rightarrow>
   'w \<Rightarrow> 'g RaftServiceClient \<Rightarrow> 'q \<Rightarrow> ('w \<times> ('st + 'r)) option" where
  "unary_stub ready unknown unary path method w c request = do {
     (w', r) \<leftarrow> ready w (rsc_inner c);
     (case r of
        Inl e \<Rightarrow> ret (w', Inl (unknown (''Service was not ready: '' @ e)))
      | Inr _ \<Rightarrow> unary w' (rsc_inner c)
          \<lparr>message = request, grpc_method = (''raft.RaftService'', method)\<rparr> path)
   }"

definition rsc_append_entries ::
  "('w \<Rightarrow> 'g \<Rightarrow> ('w \<times> (string + unit)) option) \<Rightarrow> (string \<Rightarrow> 'st) \<Rightarrow>
   ('w \<Rightarrow> 'g \<Rightarrow> AppendEntriesRequest TonicRequest \<Rightarrow> string \<Rightarrow> ('w \<times> ('st + AppendEntriesResponse)) option) \<Rightarrow>
   'w \<Rightarrow> 'g RaftServiceClient \<Rightarrow> AppendEntriesRequest \<Rightarrow> ('w \<times> ('st + AppendEntriesResponse)) option" where
  "rsc_append_entries ready unknown unary =
     unary_stub ready unknown unary ''/raft.RaftService/AppendEntries'' ''AppendEntries''"

definition rsc_request_vote ::
  "('w \<Rightarrow> 'g \<Rightarrow> ('w \<times> (string + unit)) option) \<Rightarrow> (string \<Rightarrow> 'st) \<Rightarrow>
   ('w \<Rightarrow> 'g \<Rightarrow> RequestVoteRequest TonicRequest \<Rightarrow> string \<Rightarrow> ('w \<times> ('st + RequestVoteResponse)) option) \<Rightarrow>
   'w \<Rightarrow> 'g RaftServiceClient \<Rightarrow> RequestVoteRequest \<Rightarrow> ('w \<times> ('st + RequestVoteResponse)) option" where
  "rsc_request_vote ready unknown unary =
     unary_stub ready unknown unary ''/raft.RaftService/RequestVote'' ''RequestVote''"

definition rsc_install_snapshot ::
  "('w \<Rightarrow> 'g \<Rightarrow> ('w \<times> (string + unit)) option) \<Rightarrow> (string \<Rightarrow> 'st) \<Rightarrow>
   ('w \<Rightarrow> 'g \<Rightarrow> InstallSnapshotRequest TonicRequest \<Rightarrow> string \<Rightarrow> ('w \<times> ('st + InstallSnapshotResponse)) option) \<Rightarrow>
   'w \<Rightarrow> 'g RaftServiceClient \<Rightarrow> InstallSnapshotRequest \<Rightarrow> ('w \<times> ('st + InstallSnapshotResponse)) option" where
  "rsc_install_snapshot ready unknown unary =
     unary_stub ready unknown unary ''/raft.RaftService/InstallSnapshot'' ''InstallSnapshot''"

subsection \<open>The server\<close>

text \<open>The set of enabled encodings stands for tonic's \<^verbatim>\<open>EnabledCompressionEncodings\<close>.\<close>

record ('h, 'st, 'e) RaftServiceServer =
  rss_inner :: "('h, 'st) RaftService"
  accept_compression_encodings :: "'e set"
  send_compression_encodings :: "'e set"
  max_decoding_size :: "nat option"
  max_encoding_size :: "nat option"

definition rss_from_arc :: "('h, 'st) RaftService \<Rightarrow> ('h, 'st, 'e) RaftServiceServer" where
  "rss_from_arc service = \<lparr>
     rss_inner = service,
     accept_compression_encodings = {},
     send_compression_encodings = {},
     max_decoding_size = None,
     max_encoding_size = None\<rparr>"

definition rss_new :: "('h, 'st) RaftService \<Rightarrow> ('h, 'st, 'e) RaftServiceServer" where
  "rss_new service = rss_from_arc service"

definition rss_with_interceptor ::
  "(('h, 'st, 'e) RaftServiceServer \<Rightarrow> 'f \<Rightarrow> 'i) \<Rightarrow> ('h, 'st) RaftService \<Rightarrow> 'f \<Rightarrow> 'i" where
  "rss_with_interceptor intercepted service interceptor = intercepted (rss_new service) interceptor"

definition rss_accept_compressed ::
  "('h, 'st, 'e) RaftServiceServer \<Rightarrow> 'e \<Rightarrow> ('h, 'st, 'e) RaftServiceServer" where
  "rss_accept_compressed s encoding =
     s\<lparr>accept_compression_encodings := insert encoding (accept_compression_encodings s)\<rparr>"

definition rss_send_compressed ::
  "('h, 'st, 'e) RaftServiceServer \<Rightarrow> 'e \<Rightarrow> ('h, 'st, 'e) RaftServiceServer" where
  "rss_send_compressed s encoding =
     s\<lparr>send_compression_encodings := insert encoding (send_compression_encodings s)\<rparr>"

definition rss_max_decoding_message_size ::
  "('h, 'st, 'e) RaftServiceServer \<Rightarrow> nat \<Rightarrow> ('h, 'st, 'e) RaftServiceServer" where
  "rss_max_decoding_message_size s limit = s\<lparr>max_decoding_size := Some limit\<rparr>"

definition rss_max_encoding_message_size ::
  "('h, 'st, 'e) RaftServiceServer \<Rightarrow> nat \<Rightarrow> ('h, 'st, 'e) RaftServiceServer" where
  "rss_max_encoding_message_size s limit = s\<lparr>max_encoding_size := Some limit\<rparr>"

definition rss_clone :: "('h, 'st, 'e) RaftServiceServer \<Rightarrow> ('h, 'st, 'e) RaftServiceServer" where
  "rss_clone s = \<lparr>
     rss_inner = rss_inner s,
     accept_compression_encodings = accept_compression_encodings s,
     send_compression_encodings = send_compression_encodings s,
     max_decoding_size = max_decoding_size s,
     max_encoding_size = max_encoding_size s\<rparr>"

definition rss_name :: string where
  "rss_name = ''raft.RaftService''"

text \<open>tonic's server for one method: its settings, the method, and the HTTP exchange.\<close>

record 'e GrpcSettings =
  gs_accept :: "'e set"
  gs_send :: "'e set"
  gs_max_decoding :: "nat option"
  gs_max_encoding :: "nat option"

record 'b HttpRequest =
  uri_path :: string
  req_body :: 'b

record 'b HttpResponse =
  http_status :: nat
  http_headers :: "(string \<times> string) list"
  resp_body :: 'b

type_synonym ('h, 'st, 'e, 'b, 'q, 'r) unary_server =
  "'e GrpcSettings \<Rightarrow> ('h \<Rightarrow> 'q \<Rightarrow> ('h \<times> ('st + 'r)) option) \<Rightarrow> 'h \<Rightarrow> 'b HttpRequest \<Rightarrow>
   ('h \<times> 'b HttpResponse) option"

record ('h, 'st, 'e, 'b) TonicServer =
  unary_append :: "('h, 'st, 'e, 'b, AppendEntriesRequest, AppendEntriesResponse) unary_server"
  unary_vote :: "('h, 'st, 'e, 'b, RequestVoteRequest, RequestVoteResponse) unary_server"
  unary_install :: "('h, 'st, 'e, 'b, InstallSnapshotRequest, InstallSnapshotResponse) unary_server"
  empty_body :: 'b

text \<open>A limit that is not set is not passed on.\<close>

definition rss_settings :: "('h, 'st, 'e) RaftServiceServer \<Rightarrow> 'e GrpcSettings" where
  "rss_settings s =
     (let grpc = \<lparr>gs_accept = accept_compression_encodings s, gs_send = send_compression_encodings s,
            gs_max_decoding = None, gs_max_encoding = None\<rparr>;
          grpc = (case max_decoding_size s of None \<Rightarrow> grpc | Some l \<Rightarrow> grpc\<lparr>gs_max_decoding := Some l\<rparr>)
      in (case max_encoding_size s of None \<Rightarrow> grpc | Some l \<Rightarrow> grpc\<lparr>gs_max_encoding := Some l\<rparr>))"

text \<open>\<^verbatim>\<open>poll_ready\<close>: the server never applies back pressure.\<close>

definition rss_poll_ready :: "('h, 'st, 'e) RaftServiceServer \<Rightarrow> bool" where
  "rss_poll_ready s = True"

definition rss_call ::
  "('h, 'st, 'e, 'b) TonicServer \<Rightarrow> ('h, 'st, 'e) RaftServiceServer \<Rightarrow> 'h \<Rightarrow> 'b HttpRequest \<Rightarrow>
   ('h \<times> 'b HttpResponse) option" where
  "rss_call T s h req =
     (if uri_path req = ''/raft.RaftService/AppendEntries''
      then unary_append T (rss_settings s) (svc_append_entries (rss_inner s)) h req
      else if uri_path req = ''/raft.RaftService/RequestVote''
      then unary_vote T (rss_settings s) (svc_request_vote (rss_inner s)) h req
      else if uri_path req = ''/raft.RaftService/InstallSnapshot''
      then unary_install T (rss_settings s) (svc_install_snapshot (rss_inner s)) h req
      else ret (h, \<lparr>http_status = 200,
        http_headers = [(''grpc-status'', ''12''), (''content-type'', ''application/grpc'')],
        resp_body = empty_body T\<rparr>))"

subsection \<open>From stub to service\<close>

text \<open>What tonic promises of a unary call, seen from the client: the message is encoded and posted to
  the path on the server at the other end of the channel, and the response decoded.\<close>

definition posts ::
  "('ch \<Rightarrow> NodeId) \<Rightarrow> 'st \<Rightarrow> ('h \<Rightarrow> 'b HttpRequest \<Rightarrow> ('h \<times> 'b HttpResponse) option) \<Rightarrow>
   ('q \<Rightarrow> 'b) \<Rightarrow> ('b HttpResponse \<Rightarrow> 'st + 'r) \<Rightarrow>
   ('h peers_map \<Rightarrow> 'ch \<Rightarrow> 'q TonicRequest \<Rightarrow> string \<Rightarrow> ('h peers_map \<times> ('st + 'r)) option) \<Rightarrow> bool" where
  "posts host unavailable server encode decode unary \<longleftrightarrow>
     (\<forall>w ch q path. unary w ch q path = (case w (host ch) of
        None \<Rightarrow> Some (w, Inl unavailable)
      | Some h \<Rightarrow> server h \<lparr>uri_path = path, req_body = encode (message q)\<rparr> \<bind>
          (\<lambda>(h', resp). Some (w(host ch \<mapsto> h'), decode resp))))"

text \<open>And from the server: an encoded message within the limits (\<open>fits\<close>) is decoded, the method
  called, and its result comes back as the client decodes it.\<close>

definition handles ::
  "('q \<Rightarrow> bool) \<Rightarrow> 'e GrpcSettings \<Rightarrow> ('q \<Rightarrow> 'b) \<Rightarrow> ('st + 'r \<Rightarrow> 'b HttpResponse) \<Rightarrow>
   ('b HttpResponse \<Rightarrow> 'st + 'r) \<Rightarrow> ('h, 'st, 'e, 'b, 'q, 'r) unary_server \<Rightarrow> bool" where
  "handles fits settings encode reply decode unary \<longleftrightarrow>
     (\<forall>m h p q. fits q \<longrightarrow> unary settings m h \<lparr>uri_path = p, req_body = encode q\<rparr> =
        m h q \<bind> (\<lambda>(h', r). Some (h', reply r))) \<and> (\<forall>r. decode (reply r) = r)"

lemma unary_stub_served:
  assumes "\<And>w g. ready w g = Some (w, Inr ())" and "posts host unavailable server encode decode unary"
    and "\<And>h. server h \<lparr>uri_path = path, req_body = encode q\<rparr> =
      svc h q \<bind> (\<lambda>(h', r). Some (h', reply r))"
    and "\<And>r. decode (reply r) = r"
  shows "unary_stub ready unknown unary path method w \<lparr>rsc_inner = ch\<rparr> q =
    served host unavailable svc w ch q"
proof (cases "w (host ch)")
  case None
  then show ?thesis
    using assms(1,2) by (simp add: unary_stub_def posts_def served_def)
next
  case (Some h)
  then show ?thesis
    using assms by (cases "svc h q") (auto simp: unary_stub_def posts_def served_def)
qed

text \<open>The stubs the client pool uses: a generated client around the channel of the target.\<close>

definition generated_stubs ::
  "('ch, 'u, 'e, 'g) TonicGrpc \<Rightarrow> ('w \<Rightarrow> 'g \<Rightarrow> ('w \<times> (string + unit)) option) \<Rightarrow> (string \<Rightarrow> 'st) \<Rightarrow>
   ('w \<Rightarrow> 'g \<Rightarrow> AppendEntriesRequest TonicRequest \<Rightarrow> string \<Rightarrow> ('w \<times> ('st + AppendEntriesResponse)) option) \<Rightarrow>
   ('w \<Rightarrow> 'g \<Rightarrow> RequestVoteRequest TonicRequest \<Rightarrow> string \<Rightarrow> ('w \<times> ('st + RequestVoteResponse)) option) \<Rightarrow>
   ('w \<Rightarrow> 'g \<Rightarrow> InstallSnapshotRequest TonicRequest \<Rightarrow> string \<Rightarrow> ('w \<times> ('st + InstallSnapshotResponse)) option) \<Rightarrow>
   ('w, 'ch, 'st) Stubs" where
  "generated_stubs G ready unknown ua uv ui = \<lparr>
     stub_append_entries = \<lambda>w ch. rsc_append_entries ready unknown ua w (rsc_new G ch),
     stub_request_vote = \<lambda>w ch. rsc_request_vote ready unknown uv w (rsc_new G ch),
     stub_install_snapshot = \<lambda>w ch. rsc_install_snapshot ready unknown ui w (rsc_new G ch)\<rparr>"

fun task_fits ::
  "(AppendEntriesRequest \<Rightarrow> bool) \<Rightarrow> (RequestVoteRequest \<Rightarrow> bool) \<Rightarrow> (InstallSnapshotRequest \<Rightarrow> bool) \<Rightarrow>
   RpcTask \<Rightarrow> bool" where
  "task_fits fa fv fi (VoteTask to req) = fv req"
| "task_fits fa fv fi (AppendTask to i req) = fa req"
| "task_fits fa fv fi (SnapshotTask to i req) = fi req"

lemma served_via:
  "served host unavailable svc w (f ch) q = served (\<lambda>ch. host (f ch)) unavailable svc w ch q"
  by (simp add: served_def)

text \<open>C31 (equivalence): a task over gRPC behaves like the same task over the loopback transport. It
  goes through the client pool, the generated stub of its kind, the routing of the generated server
  and the service of the target, for messages within tonic's limits and a channel that is ready and
  leads to the target. The paths of the two sides agree, and an error of the handler crosses the
  wire as a status and is dropped like any error.\<close>

theorem grpc_end_to_end:
  assumes "\<And>w g. ready w g = Some (w, Inr ())"
    and "posts host unavailable (rss_call T (rss_new (grpc_server internal H))) ea da ua"
    and "posts host unavailable (rss_call T (rss_new (grpc_server internal H))) ev dv uv"
    and "posts host unavailable (rss_call T (rss_new (grpc_server internal H))) ei di ui"
    and "handles fa (rss_settings (rss_new (grpc_server internal H))) ea ra da (unary_append T)"
    and "handles fv (rss_settings (rss_new (grpc_server internal H))) ev rv dv (unary_vote T)"
    and "handles fi (rss_settings (rss_new (grpc_server internal H))) ei ri di (unary_install T)"
    and "task_fits fa fv fi t"
    and "grpc_client c (task_target t) = Inr ch" "host (tonic_new G ch) = task_target t"
  shows "run_task (grpc_transport show_status (generated_stubs G ready unknown ua uv ui) c) w t =
    run_task (loopback H) w t"
proof (cases t)
  case (VoteTask peer req)
  have "rsc_request_vote ready unknown uv w (rsc_new G ch) req =
      served (\<lambda>ch. host (tonic_new G ch)) unavailable (serve internal (handle_request_vote H)) w ch req"
    unfolding rsc_request_vote_def rsc_new_def
    using assms(6,8) VoteTask
    by (subst unary_stub_served [OF assms(1,3)])
      (auto simp: handles_def rss_call_def rss_new_def rss_from_arc_def grpc_server_def served_via)
  then show ?thesis
    using assms(9,10) VoteTask by (simp add: generated_stubs_def grpc_call_served)
next
  case (AppendTask peer i req)
  have "rsc_append_entries ready unknown ua w (rsc_new G ch) req =
      served (\<lambda>ch. host (tonic_new G ch)) unavailable (serve internal (handle_append_entries H)) w ch req"
    unfolding rsc_append_entries_def rsc_new_def
    using assms(5,8) AppendTask
    by (subst unary_stub_served [OF assms(1,2)])
      (auto simp: handles_def rss_call_def rss_new_def rss_from_arc_def grpc_server_def served_via)
  then show ?thesis
    using assms(9,10) AppendTask by (simp add: generated_stubs_def grpc_call_served)
next
  case (SnapshotTask peer i req)
  have "rsc_install_snapshot ready unknown ui w (rsc_new G ch) req =
      served (\<lambda>ch. host (tonic_new G ch)) unavailable (serve internal (handle_install_snapshot H)) w ch req"
    unfolding rsc_install_snapshot_def rsc_new_def
    using assms(7,8) SnapshotTask
    by (subst unary_stub_served [OF assms(1,4)])
      (auto simp: handles_def rss_call_def rss_new_def rss_from_arc_def grpc_server_def served_via)
  then show ?thesis
    using assms(9,10) SnapshotTask by (simp add: generated_stubs_def grpc_call_served)
qed

text \<open>An instance for the witness: bodies are the messages themselves, channels are node numbers.\<close>

datatype WireBody =
    AppendBody AppendEntriesRequest
  | VoteBody RequestVoteRequest
  | InstallBody InstallSnapshotRequest
  | AppendReply "string + AppendEntriesResponse"
  | VoteReply "string + RequestVoteResponse"
  | InstallReply "string + InstallSnapshotResponse"
  | NoBody

definition plain_response :: "WireBody \<Rightarrow> WireBody HttpResponse" where
  "plain_response b = \<lparr>http_status = 200, http_headers = [], resp_body = b\<rparr>"

definition plain_unary ::
  "(WireBody \<Rightarrow> 'q option) \<Rightarrow> (string + 'r \<Rightarrow> WireBody) \<Rightarrow> ('h, string, unit, WireBody, 'q, 'r) unary_server" where
  "plain_unary decode reply settings m h req = (case decode (req_body req) of
     None \<Rightarrow> Some (h, plain_response NoBody)
   | Some q \<Rightarrow> m h q \<bind> (\<lambda>(h', r). Some (h', plain_response (reply r))))"

definition plain_tonic :: "('h, string, unit, WireBody) TonicServer" where
  "plain_tonic = \<lparr>
     unary_append = plain_unary (\<lambda>b. case b of AppendBody q \<Rightarrow> Some q | _ \<Rightarrow> None) AppendReply,
     unary_vote = plain_unary (\<lambda>b. case b of VoteBody q \<Rightarrow> Some q | _ \<Rightarrow> None) VoteReply,
     unary_install = plain_unary (\<lambda>b. case b of InstallBody q \<Rightarrow> Some q | _ \<Rightarrow> None) InstallReply,
     empty_body = NoBody\<rparr>"

definition plain_post ::
  "('h \<Rightarrow> WireBody HttpRequest \<Rightarrow> ('h \<times> WireBody HttpResponse) option) \<Rightarrow> ('q \<Rightarrow> WireBody) \<Rightarrow>
   (WireBody HttpResponse \<Rightarrow> string + 'r) \<Rightarrow> 'h peers_map \<Rightarrow> NodeId \<Rightarrow> 'q TonicRequest \<Rightarrow> string \<Rightarrow>
   ('h peers_map \<times> (string + 'r)) option" where
  "plain_post server encode decode w ch q path = (case w ch of
     None \<Rightarrow> Some (w, Inl ''unavailable'')
   | Some h \<Rightarrow> server h \<lparr>uri_path = path, req_body = encode (message q)\<rparr> \<bind>
       (\<lambda>(h', resp). Some (w(ch \<mapsto> h'), decode resp)))"

lemma plain_posts: "posts (\<lambda>n. n) ''unavailable'' server encode decode (plain_post server encode decode)"
  by (simp add: posts_def plain_post_def)

theorem grpc_end_to_end_witness:
  "let H = node_handler Debug (mem_storage Debug); server = rss_call plain_tonic (rss_new (grpc_server (\<lambda>m. m) H));
     G = \<lparr>tonic_new = \<lambda>n. n, tonic_with_origin = \<lambda>n (_ :: unit). n, tonic_send_compressed = \<lambda>n (_ :: unit). n,
       tonic_accept_compressed = \<lambda>n _. n, tonic_max_decoding = \<lambda>n _. n, tonic_max_encoding = \<lambda>n _. n\<rparr>;
     stubs = generated_stubs G (\<lambda>w _. Some (w, Inr ())) (\<lambda>m. m)
       (plain_post server AppendBody (\<lambda>p. case resp_body p of AppendReply r \<Rightarrow> r | _ \<Rightarrow> Inl ''codec''))
       (plain_post server VoteBody (\<lambda>p. case resp_body p of VoteReply r \<Rightarrow> r | _ \<Rightarrow> Inl ''codec''))
       (plain_post server InstallBody (\<lambda>p. case resp_body p of InstallReply r \<Rightarrow> r | _ \<Rightarrow> Inl ''codec''));
     w = [2 \<mapsto> node_new default_config mem_new]
   in run_task (grpc_transport (\<lambda>m. m) stubs \<lparr>channels = [(2, 2)]\<rparr>) w (AppendTask 2 0 ping_request) =
      run_task (loopback H) w (AppendTask 2 0 ping_request)"
  unfolding Let_def
  by (rule grpc_end_to_end [where host = "\<lambda>n. n" and unavailable = "''unavailable''" and T = plain_tonic and
        internal = "\<lambda>m. m" and ch = 2 and fa = "\<lambda>_. True" and fv = "\<lambda>_. True" and fi = "\<lambda>_. True" and
        ea = AppendBody and ev = VoteBody and ei = InstallBody and ra = "\<lambda>r. plain_response (AppendReply r)" and
        rv = "\<lambda>r. plain_response (VoteReply r)" and ri = "\<lambda>r. plain_response (InstallReply r)" and
        da = "\<lambda>p. case resp_body p of AppendReply r \<Rightarrow> r | _ \<Rightarrow> Inl ''codec''" and
        dv = "\<lambda>p. case resp_body p of VoteReply r \<Rightarrow> r | _ \<Rightarrow> Inl ''codec''" and
        di = "\<lambda>p. case resp_body p of InstallReply r \<Rightarrow> r | _ \<Rightarrow> Inl ''codec''"])
    (simp_all add: plain_posts handles_def plain_tonic_def plain_unary_def plain_response_def grpc_client_def)

text \<open>What is set on a server reaches tonic, in any order, and a clone has the same settings.\<close>

lemma rss_builders_reach_tonic:
  "rss_settings (rss_max_encoding_message_size (rss_max_decoding_message_size
      (rss_send_compressed (rss_accept_compressed (rss_clone s) a) b) d) e) =
    \<lparr>gs_accept = insert a (accept_compression_encodings s), gs_send = insert b (send_compression_encodings s),
      gs_max_decoding = Some d, gs_max_encoding = Some e\<rparr>"
  "rss_clone s = s"
  by (simp_all add: rss_settings_def rss_max_encoding_message_size_def rss_max_decoding_message_size_def
      rss_send_compressed_def rss_accept_compressed_def rss_clone_def Let_def)

end
