(* ===== verification/Raft_Example.thy ===== *)
theory Raft_Example
  imports Raft_Transport Cluster_Runs
begin

text \<open>
  The main function of \<^verbatim>\<open>src/examples/three_node_cluster.rs\<close>: it boots three nodes,
  registers them with the loopback transport, submits five proposals, asks for the leader and shuts
  the nodes down. What a call that waits for a node answers depends on how the runtime schedules the
  nodes; it is an argument that may change the state \<open>'w\<close> of the world. Sleeping and the
  subscriber of the log are left out; a printed line is a constructor of \<open>DemoLine\<close> with what the line shows.
\<close>

subsection \<open>Booting the nodes\<close>

text \<open>Nodes 1, 2 and 3 are started on empty stores and their event loops have begun, as they do before
  the first message reaches them; \<open>now\<close> and \<open>jitter\<close> are what their event loops
  read from the clock and the random generator.\<close>

definition demo_boot :: "profile \<Rightarrow> (NodeId \<Rightarrow> nat) \<Rightarrow> (NodeId \<Rightarrow> u64) \<Rightarrow> MemStorageInner RaftNode list option" where
  "demo_boot p now jitter =
     those (map (\<lambda>i. boot (mem_storage p) (demo_config i) mem_new (now i) (jitter i)) [1, 2, 3])"

text \<open>The node at position \<open>i\<close> of the list is registered under \<open>i + 1\<close>.\<close>

definition demo_register :: "'h list \<Rightarrow> 'h peers_map" where
  "demo_register nodes =
     fold (\<lambda>(i, node). loopback_add (of_nat (i + 1)) node) (enumerate 0 nodes) loopback_new"

subsection \<open>Lines and proposals\<close>

datatype DemoLine =
    AppliedEntry NodeId LogIndex "u8 list"
  | ProposalCommitted u64 LogIndex
  | ProposalError RaftError
  | ProposalNotCommitted u64
  | CurrentLeader NodeId
  | AllShutDown

text \<open>The task spawned for a node prints what it receives from the node.\<close>

definition demo_print :: "NodeId \<Rightarrow> LogEntry list \<Rightarrow> DemoLine list" where
  "demo_print i es = map (\<lambda>e. AppliedEntry i (le_index e) (le_data e)) es"

definition demo_data :: "u64 \<Rightarrow> u8 list" where
  "demo_data i = map of_char (''write:key'' @ show_u64 i @ ''=value'' @ show_u64 i)"

text \<open>Node after node, until one answers with an index.\<close>

fun demo_try ::
  "('w \<Rightarrow> 'n \<Rightarrow> u8 list \<Rightarrow> 'w \<times> LogIndex result) \<Rightarrow> u64 \<Rightarrow> 'n list \<Rightarrow> 'w \<Rightarrow> 'w \<times> DemoLine list \<times> bool" where
  "demo_try submit i [] w = (w, [], False)"
| "demo_try submit i (node # nodes) w =
     (case submit w node (demo_data i) of
        (w', Inr idx) \<Rightarrow> (w', [ProposalCommitted i idx], True)
      | (w', Inl (NotLeader _)) \<Rightarrow> demo_try submit i nodes w'
      | (w', Inl e) \<Rightarrow>
          (let (w'', out, committed) = demo_try submit i nodes w' in (w'', ProposalError e # out, committed)))"

definition demo_proposal ::
  "('w \<Rightarrow> 'n \<Rightarrow> u8 list \<Rightarrow> 'w \<times> LogIndex result) \<Rightarrow> 'n list \<Rightarrow> u64 \<Rightarrow> 'w \<Rightarrow> 'w \<times> DemoLine list" where
  "demo_proposal submit nodes i w =
     (let (w', out, committed) = demo_try submit i nodes w
      in (w', out @ (if committed then [] else [ProposalNotCommitted i])))"

fun demo_proposals ::
  "('w \<Rightarrow> 'n \<Rightarrow> u8 list \<Rightarrow> 'w \<times> LogIndex result) \<Rightarrow> 'n list \<Rightarrow> u64 list \<Rightarrow> 'w \<Rightarrow> 'w \<times> DemoLine list" where
  "demo_proposals submit nodes [] w = (w, [])"
| "demo_proposals submit nodes (i # is) w =
     (let (w', out) = demo_proposal submit nodes i w; (w'', out') = demo_proposals submit nodes is w'
      in (w'', out @ out'))"

fun demo_leader ::
  "('w \<Rightarrow> 'n \<Rightarrow> 'w \<times> NodeId option) \<Rightarrow> 'n list \<Rightarrow> 'w \<Rightarrow> 'w \<times> DemoLine list" where
  "demo_leader ask [] w = (w, [])"
| "demo_leader ask (node # nodes) w =
     (case ask w node of
        (w', Some l) \<Rightarrow> (w', [CurrentLeader l])
      | (w', None) \<Rightarrow> demo_leader ask nodes w')"

text \<open>What follows the election: five proposals, the leader, and the shutdown of every node.\<close>

definition demo_main ::
  "('w \<Rightarrow> 'n \<Rightarrow> u8 list \<Rightarrow> 'w \<times> LogIndex result) \<Rightarrow> ('w \<Rightarrow> 'n \<Rightarrow> 'w \<times> NodeId option) \<Rightarrow>
   ('n \<Rightarrow> 'w \<Rightarrow> 'w) \<Rightarrow> 'n list \<Rightarrow> 'w \<Rightarrow> 'w \<times> DemoLine list" where
  "demo_main submit ask stop nodes w =
     (let (w1, out1) = demo_proposals submit nodes [1, 2, 3, 4, 5] w;
          (w2, out2) = demo_leader ask nodes w1
      in (fold stop nodes w2, out1 @ out2 @ [AllShutDown]))"

text \<open>After the registration a request for node \<open>t\<close> reaches the node booted as \<open>t\<close>.\<close>

lemma demo_register_lookup:
  assumes "length nodes < 2 ^ 64"
  shows "demo_register nodes t =
    (if 0 < unat t \<and> unat t \<le> length nodes then Some (nodes ! (unat t - 1)) else None)"
proof -
  have "fold (\<lambda>(i, node). loopback_add (of_nat (i + 1)) node) (enumerate s nodes) w t =
      (if s < unat t \<and> unat t \<le> s + length nodes then Some (nodes ! (unat t - s - 1)) else w t)"
    if "s + length nodes < 2 ^ 64" for s w
    using that
  proof (induction nodes arbitrary: s w)
    case Nil
    then show ?case by auto
  next
    case (Cons n nodes)
    have "unat (of_nat (s + 1) :: u64) = s + 1"
      using Cons.prems by (intro of_nat_u64) simp
    then have "t = of_nat (s + 1) \<longleftrightarrow> unat t = s + 1" by (metis word_unat_eq_iff)
    then show ?case
      using Cons.IH [of "Suc s" "loopback_add (of_nat (s + 1)) n w"] Cons.prems
      by (auto simp: loopback_add_def nth_Cons' simp del: of_nat_add of_nat_Suc)
  qed
  then show ?thesis using assms by (simp add: demo_register_def loopback_new_def)
qed

subsection \<open>What the example reports\<close>

text \<open>The world before the node at position \<open>k\<close> is asked, if all before it were.\<close>

definition asked :: "('w \<Rightarrow> 'n \<Rightarrow> u8 list \<Rightarrow> 'w \<times> LogIndex result) \<Rightarrow> u8 list \<Rightarrow> 'n list \<Rightarrow> 'w \<Rightarrow> nat \<Rightarrow> 'w" where
  "asked submit data nodes w k = fold (\<lambda>n w. fst (submit w n data)) (take k nodes) w"

definition answer ::
  "('w \<Rightarrow> 'n \<Rightarrow> u8 list \<Rightarrow> 'w \<times> LogIndex result) \<Rightarrow> u8 list \<Rightarrow> 'n list \<Rightarrow> 'w \<Rightarrow> nat \<Rightarrow> LogIndex result" where
  "answer submit data nodes w k = snd (submit (asked submit data nodes w k) (nodes ! k) data)"

lemma asked_Suc [simp]:
  "asked submit data (n # nodes) w (Suc k) = asked submit data nodes (fst (submit w n data)) k"
  "asked submit data nodes w 0 = w"
  by (simp_all add: asked_def)

lemma answer_Cons [simp]:
  "answer submit data (n # nodes) w (Suc k) = answer submit data nodes (fst (submit w n data)) k"
  "answer submit data (n # nodes) w 0 = snd (submit w n data)"
  by (simp_all add: answer_def)

lemma demo_try_outcome:
  assumes "demo_try submit i nodes w = (w', out, committed)"
  shows "(\<exists>k idx. k < length nodes \<and> answer submit (demo_data i) nodes w k = Inr idx \<and>
      (\<forall>j < k. \<exists>e. answer submit (demo_data i) nodes w j = Inl e) \<and>
      w' = asked submit (demo_data i) nodes w (Suc k) \<and> committed \<and>
      last out = ProposalCommitted i idx \<and> out \<noteq> []) \<or>
    (\<forall>j < length nodes. \<exists>e. answer submit (demo_data i) nodes w j = Inl e) \<and> \<not> committed \<and>
      w' = asked submit (demo_data i) nodes w (length nodes)"
  using assms
proof (induction nodes arbitrary: w w' out)
  case Nil
  then show ?case by simp
next
  case (Cons n nodes)
  obtain w1 r where r: "submit w n (demo_data i) = (w1, r)" by fastforce
  show ?case
  proof (cases r)
    case (Inr idx)
    then show ?thesis using Cons.prems r by (intro disjI1 exI [of _ "0 :: nat"] exI [of _ idx]) (auto simp: asked_def)
  next
    case (Inl e)
    obtain out' where out': "demo_try submit i nodes w1 = (w', out', committed)"
        "out = out' \<or> out = ProposalError e # out'"
      using Cons.prems r Inl by (cases e) (auto split: prod.splits)
    from Cons.IH [OF out'(1)] show ?thesis
    proof
      assume "\<exists>k idx. k < length nodes \<and> answer submit (demo_data i) nodes w1 k = Inr idx \<and>
        (\<forall>j < k. \<exists>e. answer submit (demo_data i) nodes w1 j = Inl e) \<and>
        w' = asked submit (demo_data i) nodes w1 (Suc k) \<and> committed \<and>
        last out' = ProposalCommitted i idx \<and> out' \<noteq> []"
      then obtain k idx where k: "k < length nodes" "answer submit (demo_data i) nodes w1 k = Inr idx"
          "\<forall>j < k. \<exists>e. answer submit (demo_data i) nodes w1 j = Inl e"
          "w' = asked submit (demo_data i) nodes w1 (Suc k)" "committed"
          "last out' = ProposalCommitted i idx" "out' \<noteq> []"
        by blast
      then show ?thesis
        using r Inl out'(2) by (intro disjI1 exI [of _ "Suc k"] exI [of _ idx]) (auto simp: less_Suc_eq_0_disj)
    next
      assume "(\<forall>j < length nodes. \<exists>e. answer submit (demo_data i) nodes w1 j = Inl e) \<and> \<not> committed \<and>
        w' = asked submit (demo_data i) nodes w1 (length nodes)"
      then show ?thesis using r Inl by (auto simp: less_Suc_eq_0_disj)
    qed
  qed
qed

text \<open>A proposal of the example is reported as committed, with its index, exactly if some node answers
  with an index; the first one that does is the last one asked, and otherwise every node is asked
  and the failure is reported.\<close>

theorem demo_proposal_report:
  assumes "demo_proposal submit nodes i w = (w', out)"
  shows "(\<exists>k idx. k < length nodes \<and> answer submit (demo_data i) nodes w k = Inr idx \<and>
      (\<forall>j < k. \<exists>e. answer submit (demo_data i) nodes w j = Inl e) \<and>
      w' = asked submit (demo_data i) nodes w (Suc k) \<and> last out = ProposalCommitted i idx) \<or>
    (\<forall>j < length nodes. \<exists>e. answer submit (demo_data i) nodes w j = Inl e) \<and>
      w' = asked submit (demo_data i) nodes w (length nodes) \<and> last out = ProposalNotCommitted i"
proof -
  obtain w1 out1 b where t: "demo_try submit i nodes w = (w1, out1, b)" by (metis prod_cases3)
  then have "w' = w1" "out = out1 @ (if b then [] else [ProposalNotCommitted i])"
    using assms by (simp_all add: demo_proposal_def)
  then show ?thesis using demo_try_outcome [OF t] by auto
qed

end
