(* ===== verification/Spec2Isabelle.thy ===== *)
theory Spec2Isabelle
  imports Cluster_Restart Cluster_Boot Catch_Up Node_Profiles Raft_Grpc Raft_Example
begin

text \<open>
  \<^bold>\<open>A verification development for IceRaft\<close>, a Raft consensus library in Rust
  (\<^verbatim>\<open>src/\<close>).

  \<^bold>\<open>The program.\<close> A node (\<^verbatim>\<open>iceraft-node\<close>) runs an event loop that owns a
  channel of messages and two timers. Its state, \<^verbatim>\<open>RaftNodeInner\<close>, sits behind a
  mutex that the loop shares with the RPC handlers. It calls a \<^verbatim>\<open>Storage\<close>
  (\<^verbatim>\<open>iceraft-storage\<close>, the in-memory backend \<^verbatim>\<open>MemStorage\<close>) for its log and
  hard state, and spawns tasks that send requests through a \<^verbatim>\<open>NetworkTransport\<close>
  (\<^verbatim>\<open>iceraft-network\<close>: gRPC; \<^verbatim>\<open>iceraft\<close>: no-op; the example: loopback) and queue
  the responses for the loop. \<^verbatim>\<open>iceraft-core\<close> has the shared data,
  \<^verbatim>\<open>iceraft-metrics\<close> the counters, \<^verbatim>\<open>iceraft-client\<close> a client that looks for
  the leader.

  \<^bold>\<open>The theories\<close>, in the order they build on each other:
  \<^item> \<open>Raft_Prelude\<close>: \<^verbatim>\<open>u64\<close> as 64-bit words; checked arithmetic of the dev profile
    (overflow panics, \<open>None\<close>) and wrapping arithmetic of the release profile; agreement of
    the two.
  \<^item> \<open>Raft_Core\<close> (\<^verbatim>\<open>iceraft-core/src/lib.rs\<close>): errors, configuration, log entries, hard
    state, snapshots, \<^verbatim>\<open>validate\<close>, \<^verbatim>\<open>members\<close>, \<^verbatim>\<open>quorum\<close>; the locale
    \<open>quorum_system\<close> and its interpretation on a configuration.
  \<^item> \<open>Raft_Proto\<close> (all structs of \<^verbatim>\<open>iceraft-network/src/gen/raft.rs\<close>, conversions at the end
    of \<^verbatim>\<open>node.rs\<close>): the messages, and that a log entry survives the wire.
  \<^item> \<open>Raft_Storage\<close> (\<^verbatim>\<open>iceraft-storage/src/lib.rs\<close>, \<^verbatim>\<open>rocks.rs\<close>): the trait as a record
    of operations, an abstract log (a compacted prefix and the entries after it), the locale
    \<open>storage_contract\<close> with the law of every operation as \<^verbatim>\<open>MemStorage\<close> keeps it
    (its append always truncates, where the documentation of the trait promises to truncate a
    conflicting suffix), and the locale
    \<open>hard_state_store\<close>, the part elections need.
  \<^item> \<open>Mem_Storage\<close> (\<^verbatim>\<open>mem.rs\<close>): the backend as written, both locales interpreted on it, and
    where it leaves the contract.
  \<^item> \<open>Raft_State\<close> (\<^verbatim>\<open>iceraft-node/src/state.rs\<close>), \<open>Raft_Metrics\<close>
    (\<^verbatim>\<open>iceraft-metrics\<close>: registration, the process-wide handles, and what a node
    contributes to them), \<open>Raft_Node\<close> (the methods of \<^verbatim>\<open>RaftNodeInner\<close> in
    \<^verbatim>\<open>node.rs\<close>), \<open>Raft_Loop\<close> (\<^verbatim>\<open>message.rs\<close>, the event loop and the public
    interface in \<^verbatim>\<open>node.rs\<close>): the model of a node, generic in the storage. A start has two
    parts, \<open>start\<close>, which returns a node at once, and \<open>enter_loop\<close>, the beginning of the spawned
    event loop, which restores the hard state and draws the first election timeout; \<open>boot\<close> is both.
  \<^item> \<open>Raft_Network\<close> (\<^verbatim>\<open>transport.rs\<close>, the no-op transport, the example's loopback, the
    spawned tasks): the traits as records of operations, the node as a handler, and what a task
    does over a transport.
  \<^item> \<open>Node_Commit\<close>: the two implementations of the commit rule compute the same greatest
    index; what a commit means for the members; the leader's commit step; applying; proposals.
  \<^item> \<open>Node_Replication\<close>: the request a leader builds, a follower's accept and reject branches,
    the binary search for the conflict index, matching logs.
  \<^item> \<open>Node_Votes\<close>: what each operation does to a node's vote and hard state.
  \<^item> \<open>Node_Behaviour\<close>: granting votes, snapshots in chunks, a cluster of one, restart,
    shutdown.
  \<^item> \<open>Node_Profiles\<close>: the locale \<open>storage_agreement\<close>; a release build does what a dev
    build does wherever that does not panic.
  \<^item> \<open>Raft_Cluster\<close>: many nodes and a network that may lose, delay, reorder and duplicate, as
    an inductive step relation that delivers a task over the loopback transport; the invariant behind
    election safety.
  \<^item> \<open>Catch_Up\<close>: rounds of request and response between a leader and its followers; a follower
    catches up in a bounded number of rounds. With a quorum of such followers the leader commits its
    log and answers its callers (shown below).
  \<^item> \<open>Cluster_Runs\<close>: the steps as events, so that schedules can be evaluated.
  \<^item> \<open>Cluster_Safety\<close>: election safety and the run that breaks it when late votes are counted;
    unique, durable votes; the progress records of leaders; heartbeats; what reaches the
    application; the election timer.
  \<^item> \<open>Plain_Node\<close>: what each operation of a node does to log, requests and responses, on
    \<^verbatim>\<open>MemStorage\<close> without snapshots.
  \<^item> \<open>Cluster_Logs\<close>: the invariant on all logs of a cluster, by a history of the log of every
    term's leader: log matching, leaders only append, well-formed logs.
  \<^item> \<open>Commit_History\<close>, \<open>Commit_Node\<close>, \<open>Cluster_Commit\<close>: what is committed is safe. The
    history also records acknowledgements and the logs behind votes; an acknowledged majority is in
    the log of every later leader (\<open>Commit_History\<close>); every operation of a node keeps the invariant
    that ties its state to that history (\<open>Commit_Node\<close>); hence state machine safety, leader
    completeness and commits that stay, for all runs of a cluster (\<open>Cluster_Commit\<close>).
  \<^item> \<open>Cluster_Faults\<close>: runs that break one proviso of \<open>Cluster_Commit\<close> and make two nodes apply
    different commands at an index.
  \<^item> \<open>Cluster_Restart\<close>: after a restart a node applies nothing up to the commit index it
    restored, in any continuation, so a committed entry may never reach the application.
  \<^item> \<open>Cluster_Boot\<close>: the cluster in which \<open>start\<close> and \<open>enter_loop\<close> are separate steps. It
    refines the cluster with one step as long as no RPC is handled between the two; one that is may
    make a node vote twice in a term.
  \<^item> \<open>Raft_Transport\<close> (\<^verbatim>\<open>iceraft-network\<close>: \<^verbatim>\<open>server.rs\<close>, \<^verbatim>\<open>client.rs\<close>;
    \<^verbatim>\<open>iceraft-client\<close>): the service, the client pool and the cluster client.
  \<^item> \<open>Raft_Grpc\<close> (the generated client and server in \<^verbatim>\<open>gen/raft.rs\<close>): what the
    stubs send, how the server routes, and a request from the client pool to the handler and back.
  \<^item> \<open>Raft_Example\<close> (\<^verbatim>\<open>src/examples/three_node_cluster.rs\<close>): booting, registering and
    the proposals of the example.

  \<^bold>\<open>How code and model correspond.\<close> A struct is a record, an enum a datatype. A method is one
  function on the state it locks: it returns \<open>None\<close> for a panic, and otherwise the new state
  with a \<^verbatim>\<open>Result\<close> (\<open>Inl\<close> is \<^verbatim>\<open>Err\<close>). Spawned tasks, sends on one-shot channels and
  entries sent to the application are logs in the state of the node, in the order of the code. A
  hash map is an association list with distinct keys. Instants are natural numbers, and the random
  timeout is an argument. Loops are recursive functions with termination proofs, so no fuel is used
  anywhere; the searches over indices end because they stay between two \<^verbatim>\<open>u64\<close> bounds.

  \<^bold>\<open>Assumptions that statements carry.\<close> A well-formed store (\<open>mem_ok\<close>): consecutive indices, a
  last index below \<open>2 ^ 64 - 1\<close> and fewer than \<open>2 ^ 64\<close> payload bytes in memory. Election safety:
  a granted vote is counted only in its own term (\<open>timely\<close>), which the code does not check. The
  logs of a cluster: the dev profile, \<open>MemStorage\<close> without snapshots, empty logs at the start,
  and no node listed as its own peer (\<open>fresh_logs\<close>); no bound on the logs is needed. Committed
  entries: in addition nobody has voted or committed at the start (\<open>fresh_cluster\<close>), a vote or a
  success of \<^verbatim>\<open>AppendEntries\<close> is counted only in its own term (\<open>prompt\<close>), and no
  request merely cuts a log short (\<open>keeps_logs\<close>). The code checks neither of the last two, and
  \<open>Cluster_Faults\<close> shows that neither can be dropped. The gRPC stubs: a unary call posts the encoded
  message on the server at the other end of the channel (\<open>posts\<close>), and tonic's server decodes a
  message within its limits, calls the method and returns the result (\<open>handles\<close>). A
  node's start is one step (\<open>boot\<close>) in the cluster model, so its theorems speak of runs in which no
  RPC is handled between \<open>start\<close> and the end of the restore; \<open>Cluster_Boot\<close> proves that nothing
  else is lost by this, and what happens otherwise. The rounds of \<open>Catch_Up\<close> are those of logs
  without snapshots, and each response is handled before the next request is sent. A panic stops the step in which it happens.

  \<^bold>\<open>Not modelled.\<close> The crates \<^verbatim>\<open>tonic\<close>, \<^verbatim>\<open>http\<close>, \<^verbatim>\<open>prost\<close>
  and \<^verbatim>\<open>prometheus\<close>: what the code calls of them is an argument of the definitions that use
  it. Logging and the log subscriber; sleeping in the example; the runtime's scheduling below the
  level of lock-protected steps; crate facades (re-exports); tests.
\<close>

section \<open>Properties that span components\<close>

text \<open>C29 (liveness): what a quorum takes is committed. A leader whose last entry is of its own term
  serves followers that make a quorum together with it, one after the other, in rounds of request and
  response. Then rounds exist after which its whole log is committed, every caller that waits for an
  entry of it is answered with the index, and the followers hold the log.\<close>

theorem quorum_replication_commits:
  assumes "leading p gl" "progress_ok (config gl) (progress (sm gl))" "cfg_id (config gl) \<notin> set (peers (config gl))"
    and "distinct ps" "ps \<noteq> []" "\<forall>x \<in> set ps. served_by gl gs x" "quorum (config gl) \<le> length ps + 1"
    and "entries (storage gl) \<noteq> []" "le_term (last (entries (storage gl))) = current_term (sm gl)"
  shows "\<exists>ks gl' gs'. map fst ks = ps \<and> serve_followers p ks gl gs = Some (gl', gs') \<and>
    unat (commit_index (sm gl')) = length (entries (storage gl)) \<and>
    (\<forall>(i, tx) \<in> set (pending gl). unat i \<le> length (entries (storage gl)) \<longrightarrow>
      (tx, ProposeReply (Inr i)) \<in> set (sent gl')) \<and>
    (\<forall>x \<in> set ps. prefix (entries (storage gl)) (entries (storage (gs' x))))"
proof -
  obtain ks gl' gs' where r: "map fst ks = ps" "serve_followers p ks gl gs = Some (gl', gs')" "leading p gl'"
      "still_leads gl gl'" "up_to_date_commit p gl'" "map fst (progress (sm gl')) = map fst (progress (sm gl))"
      "\<forall>x \<in> set ps. prefix (entries (storage gl)) (entries (storage (gs' x))) \<and>
        (\<exists>pr'. map_of (progress (sm gl')) x = Some pr' \<and> unat (match_index pr') = length (entries (storage gl)))"
    using serve_all [OF assms(1,4,6)] assms(5) by metis
  have ok: "mem_ok (storage gl')" "base (mem_alog (storage gl')) = 0" using r(3) by (simp_all add: leading_def)
  note same = still_leads_entries [OF r(4)]
  have cfg: "config gl' = config gl" "current_term (sm gl') = current_term (sm gl)"
    using r(4) by (simp_all add: still_leads_def)
  let ?last = "mem_last_index (storage gl')"
  have last: "unat ?last = length (entries (storage gl))"
    using mem_last_index_spec [OF ok(1)] mem_base_bound [OF ok(1)] ok(2) same
    by (simp add: alog_last_def of_nat_u64)
  have pr_ok: "progress_ok (config gl') (progress (sm gl'))"
    using assms(2) r(6) cfg(1) unfolding progress_ok_def by (metis list.set_map)
  have "\<forall>x \<in> set ps. \<exists>q. map_of (progress (sm gl')) x = Some q \<and> ?last \<le> match_index q"
    using r(7) last by (fastforce simp: word_le_nat_alt)
  then have "quorum (config gl') \<le> replicated (progress (sm gl')) ?last"
    using served_quorum [OF pr_ok _ assms(4)] assms(3,7) cfg(1) by fastforce
  moreover have "readable_term (mem_storage p) (storage gl') ?last = Some (current_term (sm gl'))"
  proof -
    have "alog_term (mem_alog (storage gl')) ?last = Inr (le_term (last (entries (storage gl))))"
      using last ok(2) same assms(8) by (auto simp: alog_term_def alog_last_def last_conv_nth)
    then show ?thesis using mem_term_spec [OF ok(1)] assms(9) cfg(2) by (simp add: readable_term_def)
  qed
  ultimately have "?last \<le> commit_index (sm gl')"
    using r(5) by (simp add: up_to_date_commit_def committable_def)
  then have c: "unat (commit_index (sm gl')) = length (entries (storage gl))"
    using r(3) last same by (simp add: leading_def word_le_nat_alt)
  have "(tx, ProposeReply (Inr i)) \<in> set (sent gl')" if "(i, tx) \<in> set (pending gl)" "unat i \<le> length (entries (storage gl))" for i tx
    using that r(4,5) c by (fastforce simp: still_leads_def up_to_date_commit_def word_le_nat_alt)
  then show ?thesis
    using r c by (intro exI [of _ ks] exI [of _ gl'] exI [of _ gs']) auto
qed

theorem quorum_replication_commits_witness:
  "\<exists>ks gl' gs'. serve_followers Debug ks waiting_leader (\<lambda>_. empty_follower) = Some (gl', gs') \<and>
    unat (commit_index (sm gl')) = 1 \<and> (7, ProposeReply (Inr 1)) \<in> set (sent gl')"
proof -
  have served: "\<forall>x \<in> set [2]. served_by waiting_leader (\<lambda>_. empty_follower) x"
    using waiting_leader_facts by (simp add: served_by_def)
  have w: "progress_ok (config waiting_leader) (progress (sm waiting_leader))"
    "cfg_id (config waiting_leader) \<notin> set (peers (config waiting_leader))"
    "quorum (config waiting_leader) \<le> length [2] + 1" "length (entries (storage waiting_leader)) = 1"
    "le_term (last (entries (storage waiting_leader))) = current_term (sm waiting_leader)"
    "pending waiting_leader = [(1, 7)]"
    by (simp_all add: waiting_leader_def node_new_def progress_ok_def quorum_def default_config_def insert_commute)
  then show ?thesis
    using quorum_replication_commits [OF waiting_leader_facts(1) w(1,2) _ _ served w(3)] by fastforce
qed

end
